(* ===== verification/Go_Prelude.thy ===== *)
theory Go_Prelude
  imports Main "HOL-Library.Word" "HOL-Library.Multiset"
begin

text \<open>
  The vocabulary shared by all components: machine integers at the widths the Go code uses,
  errors and panics as values, slices of a byte array, the \<open>copy\<close> builtin, and the
  pieces of the \<^verbatim>\<open>io\<close> and \<^verbatim>\<open>encoding/binary\<close> packages the sources call.

  Collections of facts: \<open>go_run\<close> holds the defining equations used to evaluate a
  concrete run, \<open>go_len\<close> the length facts of byte encodings.
\<close>

named_theorems go_run
named_theorems go_len

section \<open>Integers, errors, outcomes\<close>

type_synonym byte = "8 word"
type_synonym uint32 = "32 word"
type_synonym uint64 = "64 word"

text \<open>
  The conversion \<open>int64(x)\<close> of a \<open>uint64\<close> (and \<open>int(x)\<close> on a 64-bit platform)
  reads the same bits as two's complement.
\<close>

definition int64_of :: "uint64 \<Rightarrow> int" where
  "int64_of x = sint x"

text \<open>
  Error values. \<open>EOF\<close>, \<open>ErrUnexpectedEOF\<close>, \<open>ErrShortWrite\<close> are the sentinels of
  package \<^verbatim>\<open>io\<close>; \<open>Errno\<close> is a \<open>syscall.Errno\<close>; \<open>Errorf\<close> is any other error
  text; \<open>Wrap\<close> is \<open>errors.Wrap\<close>/\<open>errors.Wrapf\<close>, which is a different value
  from the error it wraps, so a comparison \<open>err == io.EOF\<close> fails on it.
\<close>

datatype errno = EAGAIN | EINTR | EINVAL | EPIPE | EIO | EMFILE

datatype goerr = EOF | ErrUnexpectedEOF | ErrShortWrite | Errno errno
  | Errorf string | Wrap goerr string

text \<open>
  The outcome of a call: it returns, it returns a non-nil error, or it panics.
\<close>

datatype 'a outcome = Ret 'a | Fail goerr | Panic string

fun is_ret :: "'a outcome \<Rightarrow> bool" where
  "is_ret (Ret _) = True"
| "is_ret (Fail _) = False"
| "is_ret (Panic _) = False"

section \<open>Slices and copies\<close>

text \<open>
  The slice expression \<open>xs[lo:hi]\<close> panics unless \<open>0 \<le> lo \<le> hi \<le> len\<close>. All slice
  expressions of the sources that use it here have \<open>hi \<le> len\<close> in the non-panicking case.
\<close>

definition slice :: "nat \<Rightarrow> nat \<Rightarrow> 'a list \<Rightarrow> 'a list outcome" where
  "slice lo hi xs =
     (if lo \<le> hi \<and> hi \<le> length xs then Ret (take (hi - lo) (drop lo xs))
      else Panic ''slice bounds out of range'')"

text \<open>
  \<open>copy(dst[at:], src)\<close>: overwrites from position \<open>at\<close> as many elements as both sides
  have, and returns how many.
\<close>

definition copy_at :: "nat \<Rightarrow> 'a list \<Rightarrow> 'a list \<Rightarrow> nat \<times> 'a list" where
  "copy_at at dst src =
     (let n = min (length dst - at) (length src)
      in (n, take at dst @ take n src @ drop (at + n) dst))"

lemma length_copy_at [simp, go_len]:
  "at \<le> length dst \<Longrightarrow> length (snd (copy_at at dst src)) = length dst"
  by (auto simp: copy_at_def Let_def min_def)

lemma fst_copy_at: "fst (copy_at at dst src) = min (length dst - at) (length src)"
  by (simp add: copy_at_def Let_def)

lemma copy_at_fits:
  "at + length src \<le> length dst \<Longrightarrow>
     copy_at at dst src = (length src, take at dst @ src @ drop (at + length src) dst)"
  by (auto simp: copy_at_def Let_def min_def)

lemma copy_at_cut:
  "at \<le> length dst \<Longrightarrow> length dst \<le> at + length src \<Longrightarrow>
     copy_at at dst src = (length dst - at, take at dst @ take (length dst - at) src)"
  by (auto simp: copy_at_def Let_def min_def)

section \<open>Pools\<close>

text \<open>
  \<open>sync.Pool.Get\<close> returns any element of the pool or nothing. Which one is an argument of the
  model: an index into the list of pooled pointers, \<open>None\<close> when it finds nothing.
\<close>

definition remove_nth :: "nat \<Rightarrow> 'a list \<Rightarrow> 'a list" where
  "remove_nth i xs = take i xs @ drop (Suc i) xs"

definition pool_pick :: "nat option \<Rightarrow> 'a list \<Rightarrow> 'a option \<times> 'a list" where
  "pool_pick ch xs =
     (case ch of None \<Rightarrow> (None, xs)
      | Some i \<Rightarrow> if i < length xs then (Some (xs ! i), remove_nth i xs) else (None, xs))"

lemma set_remove_nth: "distinct xs \<Longrightarrow> i < length xs \<Longrightarrow> set (remove_nth i xs) = set xs - {xs ! i}"
proof -
  assume "distinct xs" "i < length xs"
  moreover from this have "xs = take i xs @ xs ! i # drop (Suc i) xs" by (simp add: id_take_nth_drop)
  ultimately show ?thesis
    unfolding remove_nth_def
    by (metis Diff_insert_absorb Un_insert_right distinct.simps(2) distinct_append
        disjoint_insert(1) list.set(2) set_append Un_iff inf.commute)
qed

lemma distinct_remove_nth: "distinct xs \<Longrightarrow> distinct (remove_nth i xs)"
  by (auto simp: remove_nth_def dest: in_set_takeD in_set_dropD intro: distinct_take distinct_drop)
    (meson disjoint_iff lessI set_take_disj_set_drop_if_distinct less_imp_le_nat)

lemma pool_pick_None: "pool_pick ch xs = (None, ys) \<Longrightarrow> ys = xs"
  by (auto simp: pool_pick_def split: option.splits if_splits)

lemma pool_pick_Some:
  assumes "pool_pick ch xs = (Some a, ys)" "distinct xs"
  shows "a \<in> set xs \<and> set ys = set xs - {a} \<and> distinct ys"
  using assms set_remove_nth distinct_remove_nth
  by (auto simp: pool_pick_def split: option.splits if_splits)

section \<open>Lists of components\<close>

text \<open>
  What all components of a list hold together, split into the part of one component and the
  rest, which stays when that component is replaced.
\<close>

lemma mset_concat_split:
  assumes "i < length xs"
  shows "\<exists>R. mset (concat (map f xs)) = mset (f (xs ! i) @ R) \<and>
    (\<forall>y. mset (concat (map f (xs[i := y]))) = mset (f y @ R))"
proof (intro exI conjI allI)
  let ?R = "concat (map f (take i xs)) @ concat (map f (drop (Suc i) xs))"
  have "mset (concat (map f (take i xs @ y # drop (Suc i) xs))) = mset (f y @ ?R)" for y
    by (simp add: ac_simps)
  then show "mset (concat (map f xs)) = mset (f (xs ! i) @ ?R)"
    "\<And>y. mset (concat (map f (xs[i := y]))) = mset (f y @ ?R)"
    using assms id_take_nth_drop [of i xs] by (metis, simp add: upd_conv_take_nth_drop)
qed

section \<open>Readers\<close>

text \<open>
  An \<open>io.Reader\<close> over a connection or a file is the list of the pieces in which its bytes
  arrive, followed by the error every later \<open>Read\<close> returns (\<open>EOF\<close> after an orderly
  close). \<open>Read(p)\<close> returns at most \<open>len(p)\<close> bytes of the piece that is there; an
  empty piece is a read that returns \<open>0, nil\<close>.
\<close>

record reader =
  rchunks :: "byte list list"
  rerr :: goerr

definition rbytes :: "reader \<Rightarrow> byte list" where
  "rbytes r = concat (rchunks r)"

definition Read :: "nat \<Rightarrow> reader \<Rightarrow> byte list \<times> goerr option \<times> reader" where
  "Read n r =
     (case rchunks r of
        [] \<Rightarrow> ([], Some (rerr r), r)
      | c # cs \<Rightarrow> (take n c, None, r\<lparr>rchunks := (if n < length c then drop n c # cs else cs)\<rparr>))"

lemma Read_err: "Read n r = (bs, Some e, r') \<Longrightarrow> bs = [] \<and> rbytes r = [] \<and> r' = r \<and> e = rerr r"
  by (auto simp: Read_def rbytes_def split: list.splits)

lemma Read_ok:
  assumes "Read n r = (bs, None, r')"
  shows "rbytes r = bs @ rbytes r'" and "length bs \<le> n" and "rerr r' = rerr r"
    and "bs = [] \<Longrightarrow> 0 < n \<Longrightarrow> length (rchunks r') < length (rchunks r)"
  using assms by (auto simp: Read_def rbytes_def split: list.splits if_splits)

lemma Read_rerr [simp]: "rerr (snd (snd (Read n r))) = rerr r"
  by (auto simp: Read_def split: list.splits)

text \<open>The loop of \<open>io.ReadAtLeast\<close> as \<open>io.ReadFull\<close> runs it: read until \<open>n\<close> bytes are there.\<close>

function read_loop :: "nat \<Rightarrow> reader \<Rightarrow> byte list \<times> goerr option \<times> reader" where
  "read_loop n r =
     (if n = 0 then ([], None, r)
      else case Read n r of
          (bs, Some e, r') \<Rightarrow> (bs, Some e, r')
        | (bs, None, r') \<Rightarrow>
            (case read_loop (n - length bs) r' of (bs', e, r'') \<Rightarrow> (bs @ bs', e, r'')))"
  by pat_completeness auto
termination
proof (relation "measures [\<lambda>(n, r). n, \<lambda>(n, r). length (rchunks r)]", goal_cases)
  case (2 n r bs y e r')
  then show ?case using Read_ok(4) [of n r bs r'] by (cases bs) simp_all
qed simp

declare read_loop.simps [simp del]

lemma read_loop_0 [simp]: "read_loop 0 r = ([], None, r)"
  by (simp add: read_loop.simps [of 0 r])

lemma read_loop_err:
  "0 < n \<Longrightarrow> Read n r = (bs, Some e, r') \<Longrightarrow> read_loop n r = (bs, Some e, r')"
  by (simp add: read_loop.simps [of n r])

lemma read_loop_step:
  "0 < n \<Longrightarrow> Read n r = (bs, None, r') \<Longrightarrow> read_loop (n - length bs) r' = (bs', e, r'') \<Longrightarrow>
     read_loop n r = (bs @ bs', e, r'')"
  by (simp add: read_loop.simps [of n r])

text \<open>\<open>io.ReadFull\<close>: a short read that ended in \<open>EOF\<close> is \<open>ErrUnexpectedEOF\<close>.\<close>

definition ReadFull :: "nat \<Rightarrow> reader \<Rightarrow> byte list outcome \<times> reader" where
  "ReadFull n r =
     (case read_loop n r of
        (bs, None, r') \<Rightarrow> (Ret bs, r')
      | (bs, Some e, r') \<Rightarrow>
          (Fail (if bs \<noteq> [] \<and> e = EOF then ErrUnexpectedEOF else e), r'))"

lemma read_loop_spec:
  "read_loop n r = (bs, e, r') \<Longrightarrow>
     bs = take n (rbytes r) \<and> rbytes r' = drop n (rbytes r) \<and> rerr r' = rerr r \<and>
     (e = None \<longleftrightarrow> n \<le> length (rbytes r)) \<and> (\<forall>x. e = Some x \<longrightarrow> x = rerr r)"
proof (induction n r arbitrary: bs e r' rule: read_loop.induct)
  case (1 n r)
  show ?case
  proof (cases "n = 0")
    case True
    with "1.prems" show ?thesis by simp
  next
    case False
    obtain b x q where R: "Read n r = (b, x, q)" by (cases "Read n r")
    show ?thesis
    proof (cases x)
      case (Some y)
      with "1.prems" False R have "bs = b" "e = Some y" "r' = q"
        using read_loop_err [of n r b y q] by simp_all
      with Read_err [of n r b y q] R Some False show ?thesis by simp
    next
      case None
      with R have eq: "Read n r = (b, None, q)" by simp
      obtain b' e' q' where L: "read_loop (n - length b) q = (b', e', q')"
        by (cases "read_loop (n - length b) q")
      note IH = "1.IH" [OF False, of b "(x, q)" x q, unfolded R None, simplified, OF L]
      from "1.prems" read_loop_step [OF _ eq L] False have "bs = b @ b'" "e = e'" "r' = q'"
        by simp_all
      with IH Read_ok(1-3) [OF eq] show ?thesis by (auto simp: le_diff_conv2)
    qed
  qed
qed

lemma ReadFull_enough:
  assumes "n \<le> length (rbytes r)"
  shows "\<exists>r'. ReadFull n r = (Ret (take n (rbytes r)), r') \<and> rbytes r' = drop n (rbytes r) \<and>
           rerr r' = rerr r"
proof -
  obtain bs e r' where L: "read_loop n r = (bs, e, r')" by (cases "read_loop n r")
  note S = read_loop_spec [OF L]
  with assms have e: "e = None" and bs: "bs = take n (rbytes r)" by simp_all
  with L S show ?thesis by (simp add: ReadFull_def)
qed

lemma ReadFull_short:
  assumes "length (rbytes r) < n"
  shows "fst (ReadFull n r) =
     Fail (if rbytes r \<noteq> [] \<and> rerr r = EOF then ErrUnexpectedEOF else rerr r)"
proof -
  obtain bs e r' where L: "read_loop n r = (bs, e, r')" by (cases "read_loop n r")
  note S = read_loop_spec [OF L]
  with assms obtain x where "e = Some x" "x = rerr r" by (cases e) auto
  moreover from S assms have "bs = rbytes r" by simp
  ultimately show ?thesis using L by (auto simp: ReadFull_def)
qed

section \<open>io.CopyN into a destination\<close>

text \<open>
  \<open>io.CopyN(dst, src, n)\<close> is \<open>io.Copy(dst, io.LimitReader(src, n))\<close>. For a destination
  with only a \<open>Write\<close> method the copy goes through a buffer of
  \<open>min(32 KiB, n)\<close> bytes, so each \<open>Read\<close> asks for at most 32 KiB of what is left and each
  piece is handed to \<open>Write\<close> at once. The number of bytes accepted before an error is not
  used by any caller, so an error carries no count.
\<close>

function copy_loop :: "(byte list \<Rightarrow> 'd \<Rightarrow> nat outcome \<times> 'd) \<Rightarrow> nat \<Rightarrow> reader \<Rightarrow> 'd \<Rightarrow>
    nat outcome \<times> reader \<times> 'd" where
  "copy_loop wr n r d =
     (if n = 0 then (Ret 0, r, d)
      else case Read (min 32768 n) r of
          (bs, Some e, r') \<Rightarrow> (if e = EOF then Ret 0 else Fail e, r', d)
        | (bs, None, r') \<Rightarrow>
            if bs = [] then copy_loop wr n r' d
            else case wr bs d of
                (Panic s, d') \<Rightarrow> (Panic s, r', d')
              | (Fail e, d') \<Rightarrow> (Fail e, r', d')
              | (Ret nw, d') \<Rightarrow>
                  if nw \<noteq> length bs then (Fail ErrShortWrite, r', d')
                  else case copy_loop wr (n - length bs) r' d' of
                      (Ret k, r'', d'') \<Rightarrow> (Ret (length bs + k), r'', d'')
                    | x \<Rightarrow> x)"
  by pat_completeness auto
termination
proof (relation "measures [\<lambda>(wr, n, r, d). n, \<lambda>(wr, n, r, d). length (rchunks r)]", goal_cases)
  case (2 wr n r d bs y e r')
  then show ?case using Read_ok(4) [of "min 32768 n" r bs r'] by simp
qed simp_all

declare copy_loop.simps [simp del]

text \<open>
  \<open>io.CopyN\<close>: fewer than \<open>n\<close> bytes with no other error is \<open>EOF\<close>. The limit is an
  \<open>int64\<close>: a negative one copies nothing and is not an error.
\<close>

definition CopyN :: "(byte list \<Rightarrow> 'd \<Rightarrow> nat outcome \<times> 'd) \<Rightarrow> int \<Rightarrow> reader \<Rightarrow> 'd \<Rightarrow>
    nat outcome \<times> reader \<times> 'd" where
  "CopyN wr n r d =
     (case copy_loop wr (nat n) r d of
        (Ret k, r', d') \<Rightarrow> (if int k < n then Fail EOF else Ret k, r', d')
      | x \<Rightarrow> x)"

lemma copy_loop_0 [simp]: "copy_loop wr 0 r d = (Ret 0, r, d)"
  by (simp add: copy_loop.simps [of wr 0])

lemma copy_loop_err:
  "0 < n \<Longrightarrow> Read (min 32768 n) r = (bs, Some e, r') \<Longrightarrow>
     copy_loop wr n r d = (if e = EOF then Ret 0 else Fail e, r', d)"
  by (simp add: copy_loop.simps [of wr n])

lemma copy_loop_empty:
  "0 < n \<Longrightarrow> Read (min 32768 n) r = ([], None, r') \<Longrightarrow> copy_loop wr n r d = copy_loop wr n r' d"
  by (simp add: copy_loop.simps [of wr n])

lemma copy_loop_panic:
  "0 < n \<Longrightarrow> Read (min 32768 n) r = (bs, None, r') \<Longrightarrow> bs \<noteq> [] \<Longrightarrow> wr bs d = (Panic s, d') \<Longrightarrow>
     copy_loop wr n r d = (Panic s, r', d')"
  by (simp add: copy_loop.simps [of wr n])

lemma copy_loop_step:
  "0 < n \<Longrightarrow> Read (min 32768 n) r = (bs, None, r') \<Longrightarrow> bs \<noteq> [] \<Longrightarrow>
     wr bs d = (Ret (length bs), d') \<Longrightarrow>
     copy_loop wr n r d =
       (case copy_loop wr (n - length bs) r' d' of
          (Ret k, r'', d'') \<Rightarrow> (Ret (length bs + k), r'', d'') | x \<Rightarrow> x)"
  by (simp add: copy_loop.simps [of wr n])

text \<open>Induction over a loop of reads: less is left to read, or a piece is gone.\<close>

lemma read_induct [case_names step]:
  fixes n :: nat and r :: reader
  assumes "\<And>n r. (\<And>n' r'. n' < n \<or> n' = n \<and> length (rchunks r') < length (rchunks r) \<Longrightarrow> P n' r')
      \<Longrightarrow> P n r"
  shows "P n r"
proof -
  let ?m = "measures [\<lambda>(n, r). n, \<lambda>(n, r). length (rchunks r)]"
  have "wf ?m" by simp
  then have "case p of (n, r) \<Rightarrow> P n r" for p :: "nat \<times> reader"
    by (induction p rule: wf_induct_rule) (auto intro: assms)
  from this [of "(n, r)"] show ?thesis by simp
qed

subsection \<open>Destinations that accept what they are given\<close>

text \<open>
  The interface between a copy and its destination: \<open>room k d\<close> says that the destination
  still takes \<open>k\<close> bytes, in whatever pieces they come, and \<open>content\<close> is what it holds.
  The connection writer, the byte buffer and the ring buffer all provide it.
\<close>

locale byte_sink =
  fixes wr :: "byte list \<Rightarrow> 'd \<Rightarrow> nat outcome \<times> 'd"
    and content :: "'d \<Rightarrow> byte list"
    and room :: "nat \<Rightarrow> 'd \<Rightarrow> bool"
  assumes wr_room: "room k d \<Longrightarrow> bs \<noteq> [] \<Longrightarrow> length bs \<le> k \<Longrightarrow>
      \<exists>d'. wr bs d = (Ret (length bs), d') \<and> content d' = content d @ bs \<and> room (k - length bs) d'"
begin

lemma copy_loop_room:
  "room k d \<Longrightarrow> n \<le> k \<Longrightarrow>
     \<exists>r' d'. copy_loop wr n r d =
         (if n \<le> length (rbytes r) \<or> rerr r = EOF then Ret (min n (length (rbytes r)))
          else Fail (rerr r), r', d') \<and>
       content d' = content d @ take n (rbytes r) \<and> rbytes r' = drop n (rbytes r) \<and>
       rerr r' = rerr r \<and> room (k - min n (length (rbytes r))) d'"
proof (induction n r arbitrary: d k rule: read_induct)
  case (step n r)
  show ?case
  proof (cases "n = 0")
    case True
    with step.prems show ?thesis by auto
  next
    case False
    then have n0: "0 < n" by simp
    obtain b x q where R: "Read (min 32768 n) r = (b, x, q)" by (cases "Read (min 32768 n) r")
    show ?thesis
    proof (cases x)
      case (Some e)
      with R have eq: "Read (min 32768 n) r = (b, Some e, q)" by simp
      from Read_err [OF eq] copy_loop_err [OF n0 eq, of wr d] step.prems n0
      show ?thesis by (intro exI [of _ q] exI [of _ d]) auto
    next
      case None
      with R have eq: "Read (min 32768 n) r = (b, None, q)" by simp
      note ok = Read_ok(1-3) [OF eq]
      show ?thesis
      proof (cases "b = []")
        case True
        with eq have eq': "Read (min 32768 n) r = ([], None, q)" by simp
        have "length (rchunks q) < length (rchunks r)" using Read_ok(4) [OF eq True] n0 by simp
        have "rbytes r = rbytes q" "rerr r = rerr q" using ok True by simp_all
        with \<open>length (rchunks q) < length (rchunks r)\<close> show ?thesis
          using step.IH [of n q k d] step.prems
          by (simp only: copy_loop_empty [OF n0 eq'] simp_thms)
      next
        case bs: False
        from ok(2) step.prems(2) have le: "length b \<le> k" "length b \<le> n" by auto
        obtain d' where W: "wr b d = (Ret (length b), d')" "content d' = content d @ b"
            "room (k - length b) d'"
          using wr_room [OF step.prems(1) bs le(1)] by blast
        from bs n0 step.prems(2) have "n - length b < n" "n - length b \<le> k - length b" by simp_all
        with step.IH [of "n - length b" q "k - length b" d'] W(3)
        obtain r' d'' where IH: "copy_loop wr (n - length b) q d' =
            (if n - length b \<le> length (rbytes q) \<or> rerr q = EOF
             then Ret (min (n - length b) (length (rbytes q))) else Fail (rerr q), r', d'')"
          "content d'' = content d' @ take (n - length b) (rbytes q)"
          "rbytes r' = drop (n - length b) (rbytes q)" "rerr r' = rerr q"
          "room (k - length b - min (n - length b) (length (rbytes q))) d''"
          by blast
        have "min n (length (rbytes r)) = length b + min (n - length b) (length (rbytes q))"
          using ok(1) le(2) by auto
        with IH ok W le copy_loop_step [of n r b q wr d d', OF n0 eq bs W(1)] show ?thesis
          by (intro exI [of _ r'] exI [of _ d'']) (auto simp: le_diff_conv2)
      qed
    qed
  qed
qed

lemma CopyN_enough:
  assumes "room k d" "int k = n" "k \<le> length (rbytes r)"
  shows "\<exists>r' d'. CopyN wr n r d = (Ret k, r', d') \<and> content d' = content d @ take k (rbytes r) \<and>
       rbytes r' = drop k (rbytes r) \<and> rerr r' = rerr r \<and> room 0 d'"
proof -
  have "nat n = k" using assms(2) by simp
  with copy_loop_room [of k d k r] assms show ?thesis by (auto simp: CopyN_def)
qed

lemma CopyN_short:
  assumes "room k d" "int k = n" "length (rbytes r) < k"
  shows "fst (CopyN wr n r d) = Fail (rerr r)"
proof -
  have "nat n = k" using assms(2) by simp
  with copy_loop_room [of k d k r] assms show ?thesis by (auto simp: CopyN_def)
qed

end

end
