(* ===== verification/Ring_Buffer.thy ===== *)
theory Ring_Buffer
  imports Go_Prelude
begin

text \<open>
  The ring buffer of \<^verbatim>\<open>src/buffer.go\<close> (type \<open>ringBuffer\<close>), which the message decoder uses
  to stage request and response headers. The model keeps the fields of the struct; \<open>rb_buf\<close>
  is the slice \<open>buf\<close> with its length (the spare capacity behind it is not observable through
  these operations). \<open>start\<close> and \<open>size\<close> are \<open>int64\<close> fields that count bytes of an
  existing slice, so they are natural numbers here. A slice expression out of range and a
  remainder by a zero capacity panic, as in Go.

  Results: every operation that does not panic is the corresponding operation of a first-in
  first-out byte list (\<open>ring_run_refines\<close>), and \<open>Write\<close> panics in exactly one
  situation (\<open>ring_exec_panics_iff\<close>): the data wraps around the end of the slice and the
  new bytes would still fit.
\<close>

section \<open>State and operations\<close>

record ringBuffer =
  rb_start :: nat
  rb_size :: nat
  rb_buf :: "byte list"

definition newRingBuffer :: "nat \<Rightarrow> ringBuffer" where
  "newRingBuffer cap = \<lparr>rb_start = 0, rb_size = 0, rb_buf = replicate cap 0\<rparr>"

definition ring_Size :: "ringBuffer \<Rightarrow> nat" where
  "ring_Size b = rb_size b"

definition Capacity :: "ringBuffer \<Rightarrow> nat" where
  "Capacity b = length (rb_buf b)"

definition ring_Reset :: "ringBuffer \<Rightarrow> ringBuffer" where
  "ring_Reset b = b\<lparr>rb_start := 0, rb_size := 0\<rparr>"

text \<open>\<open>Produce\<close> and \<open>Consume\<close> account for what a callback wrote or read.\<close>

definition Produce :: "(ringBuffer \<Rightarrow> nat outcome \<times> ringBuffer) \<Rightarrow> ringBuffer \<Rightarrow>
    nat outcome \<times> ringBuffer" where
  "Produce producer b =
     (case producer b of
        (Ret n, b') \<Rightarrow> (Ret n, b'\<lparr>rb_size := rb_size b' + n\<rparr>)
      | x \<Rightarrow> x)"

text \<open>
  The callback of \<open>Consume\<close> is represented by the bytes it copied out; their number is what
  the callback returns.
\<close>

definition Consume :: "(ringBuffer \<Rightarrow> byte list outcome) \<Rightarrow> ringBuffer \<Rightarrow>
    byte list outcome \<times> ringBuffer" where
  "Consume consumer b =
     (case consumer b of
        Ret p \<Rightarrow>
          if Capacity b = 0 then (Panic ''integer divide by zero'', b)
          else (Ret p, b\<lparr>rb_start := (rb_start b + length p) mod Capacity b,
                        rb_size := rb_size b - length p\<rparr>)
      | Fail e \<Rightarrow> (Fail e, b)
      | Panic s \<Rightarrow> (Panic s, b))"

text \<open>\<open>read(p)\<close> with \<open>len(p) = n\<close>: the bytes copied to the front of \<open>p\<close>.\<close>

definition ring_read :: "nat \<Rightarrow> ringBuffer \<Rightarrow> byte list outcome" where
  "ring_read n b =
     (if rb_size b = 0 then Fail EOF
      else if rb_start b + rb_size b \<le> Capacity b then
        (case slice (rb_start b) (rb_start b + rb_size b) (rb_buf b) of
           Ret xs \<Rightarrow> Ret (take n xs) | Fail e \<Rightarrow> Fail e | Panic s \<Rightarrow> Panic s)
      else
        (case slice (rb_start b) (Capacity b) (rb_buf b) of
           Fail e \<Rightarrow> Fail e
         | Panic s \<Rightarrow> Panic s
         | Ret xs \<Rightarrow>
             let p = take n xs in
             if length p < n then
               if Capacity b = 0 then Panic ''integer divide by zero''
               else (case slice 0 ((rb_start b + rb_size b) mod Capacity b) (rb_buf b) of
                  Ret ys \<Rightarrow> Ret (p @ take (n - length p) ys) | Fail e \<Rightarrow> Fail e | Panic s \<Rightarrow> Panic s)
             else Ret p))"

definition ring_Read :: "nat \<Rightarrow> ringBuffer \<Rightarrow> byte list outcome \<times> ringBuffer" where
  "ring_Read n b = Consume (ring_read n) b"

text \<open>
  \<open>trySlice(size)\<close>: the data and whether it is a slice of the buffer itself (no copy).
\<close>

definition trySlice :: "nat \<Rightarrow> ringBuffer \<Rightarrow> (byte list \<times> bool) outcome" where
  "trySlice sz b =
     (if rb_size b = 0 then Ret ([], False)
      else let sz' = (if rb_size b < sz then rb_size b else sz) in
        if rb_start b + sz' \<le> Capacity b then
          (case slice (rb_start b) (rb_start b + sz') (rb_buf b) of
             Ret xs \<Rightarrow> Ret (xs, True) | Fail e \<Rightarrow> Fail e | Panic s \<Rightarrow> Panic s)
        else
          (case ring_read sz' b of
             Ret xs \<Rightarrow> Ret (xs, False)
           | Fail _ \<Rightarrow> Ret ([], False)
           | Panic s \<Rightarrow> Panic s))"

definition TrySlice :: "nat \<Rightarrow> ringBuffer \<Rightarrow> (byte list \<times> bool) outcome \<times> ringBuffer" where
  "TrySlice sz b =
     (case trySlice sz b of
        Ret (xs, sliced) \<Rightarrow>
          if Capacity b = 0 then (Panic ''integer divide by zero'', b)
          else (Ret (xs, sliced), b\<lparr>rb_start := (rb_start b + length xs) mod Capacity b,
                                   rb_size := rb_size b - length xs\<rparr>)
      | Fail e \<Rightarrow> (Fail e, b)
      | Panic s \<Rightarrow> (Panic s, b))"

definition ring_write :: "byte list \<Rightarrow> ringBuffer \<Rightarrow> nat outcome \<times> ringBuffer" where
  "ring_write p b =
     (if rb_size b + length p > Capacity b then
        (case trySlice (rb_size b) b of
           Ret (xs, _) \<Rightarrow> (Ret (length p), b\<lparr>rb_buf := xs @ p, rb_start := 0\<rparr>)
         | Fail e \<Rightarrow> (Fail e, b)
         | Panic s \<Rightarrow> (Panic s, b))
      else if rb_start b + rb_size b > Capacity b then (Panic ''slice bounds out of range'', b)
      else
        (case copy_at (rb_start b + rb_size b) (rb_buf b) p of
           (n, buf1) \<Rightarrow>
             if length p > n then
               (case copy_at 0 buf1 (drop n p) of
                  (m, buf2) \<Rightarrow> (Ret (n + m), b\<lparr>rb_buf := buf2\<rparr>))
             else (Ret n, b\<lparr>rb_buf := buf1\<rparr>)))"

definition ring_Write :: "byte list \<Rightarrow> ringBuffer \<Rightarrow> nat outcome \<times> ringBuffer" where
  "ring_Write p b = Produce (ring_write p) b"

text \<open>The operations as one step function, to speak about arbitrary sequences of calls.\<close>

datatype ring_op = OpWrite "byte list" | OpRead nat | OpSlice nat | OpReset

fun ring_exec :: "ring_op \<Rightarrow> ringBuffer \<Rightarrow> byte list outcome \<times> ringBuffer" where
  "ring_exec (OpWrite p) b =
     (case ring_Write p b of (Ret n, b') \<Rightarrow> (Ret (take n p), b')
      | (Fail e, b') \<Rightarrow> (Fail e, b') | (Panic s, b') \<Rightarrow> (Panic s, b'))"
| "ring_exec (OpRead n) b = ring_Read n b"
| "ring_exec (OpSlice n) b =
     (case TrySlice n b of (Ret (xs, _), b') \<Rightarrow> (Ret xs, b')
      | (Fail e, b') \<Rightarrow> (Fail e, b') | (Panic s, b') \<Rightarrow> (Panic s, b'))"
| "ring_exec OpReset b = (Ret [], ring_Reset b)"

fun ring_run :: "ring_op list \<Rightarrow> ringBuffer \<Rightarrow> byte list outcome list \<times> ringBuffer" where
  "ring_run [] b = ([], b)"
| "ring_run (x # xs) b =
     (case ring_exec x b of (y, b') \<Rightarrow> (case ring_run xs b' of (ys, b'') \<Rightarrow> (y # ys, b'')))"

section \<open>Specification: a first-in first-out list of bytes\<close>

text \<open>What is written, what a read of at most \<open>n\<close> bytes takes from the front.\<close>

fun fifo_exec :: "ring_op \<Rightarrow> byte list \<Rightarrow> byte list outcome \<times> byte list" where
  "fifo_exec (OpWrite p) q = (Ret p, q @ p)"
| "fifo_exec (OpRead n) q = (if q = [] then (Fail EOF, q) else (Ret (take n q), drop n q))"
| "fifo_exec (OpSlice n) q = (Ret (take n q), drop n q)"
| "fifo_exec OpReset q = (Ret [], [])"

fun fifo_run :: "ring_op list \<Rightarrow> byte list \<Rightarrow> byte list outcome list \<times> byte list" where
  "fifo_run [] q = ([], q)"
| "fifo_run (x # xs) q =
     (case fifo_exec x q of (y, q') \<Rightarrow> (case fifo_run xs q' of (ys, q'') \<Rightarrow> (y # ys, q'')))"

text \<open>The bytes a ring buffer holds, in order, and its invariant.\<close>

definition ring_list :: "ringBuffer \<Rightarrow> byte list" where
  "ring_list b = take (rb_size b) (rotate (rb_start b) (rb_buf b))"

definition ring_wf :: "ringBuffer \<Rightarrow> bool" where
  "ring_wf b \<longleftrightarrow> rb_start b < Capacity b \<and> rb_size b \<le> Capacity b"

text \<open>The data wraps around the end of the slice.\<close>

definition ring_wrapped :: "ringBuffer \<Rightarrow> bool" where
  "ring_wrapped b \<longleftrightarrow> Capacity b < rb_start b + rb_size b"

section \<open>Contents\<close>

lemma rotate_small: "s \<le> length xs \<Longrightarrow> rotate s xs = drop s xs @ take s xs"
  by (cases "s = length xs") (simp_all add: rotate_drop_take)

lemma length_ring_list [simp, go_len]: "ring_wf b \<Longrightarrow> length (ring_list b) = rb_size b"
  by (simp add: ring_list_def ring_wf_def Capacity_def)

lemma ring_list_contiguous:
  "ring_wf b \<Longrightarrow> \<not> ring_wrapped b \<Longrightarrow> ring_list b = take (rb_size b) (drop (rb_start b) (rb_buf b))"
  by (simp add: ring_list_def ring_wf_def ring_wrapped_def Capacity_def rotate_small)

lemma ring_list_wrapped:
  "ring_wf b \<Longrightarrow> ring_wrapped b \<Longrightarrow>
     ring_list b = drop (rb_start b) (rb_buf b) @
       take (rb_start b + rb_size b - Capacity b) (rb_buf b)"
  by (auto simp: ring_list_def ring_wf_def ring_wrapped_def Capacity_def rotate_small min_def
      add.commute)

lemma ring_list_prefix:
  "ring_wf b \<Longrightarrow> n \<le> rb_size b \<Longrightarrow> rb_start b + n \<le> Capacity b \<Longrightarrow>
     take n (ring_list b) = take n (drop (rb_start b) (rb_buf b))"
  by (auto simp: ring_list_def ring_wf_def Capacity_def rotate_small min_def)

lemma take_rotate: "n \<le> z \<Longrightarrow> z \<le> length ys \<Longrightarrow> take (z - n) (rotate n ys) = drop n (take z ys)"
  by (simp add: rotate_small drop_take)

lemma ring_advance:
  assumes "ring_wf b" "n \<le> rb_size b"
  defines "b' \<equiv> b\<lparr>rb_start := (rb_start b + n) mod Capacity b, rb_size := rb_size b - n\<rparr>"
  shows "ring_list b' = drop n (ring_list b)" and "ring_wf b'"
proof -
  have "ring_list b' = take (rb_size b - n) (rotate ((rb_start b + n) mod length (rb_buf b)) (rb_buf b))"
    by (simp add: ring_list_def b'_def Capacity_def)
  also have "\<dots> = take (rb_size b - n) (rotate (n + rb_start b) (rb_buf b))"
    by (metis add.commute rotate_conv_mod)
  also have "\<dots> = drop n (ring_list b)"
    using assms take_rotate [of n "rb_size b" "rotate (rb_start b) (rb_buf b)"]
    by (simp add: ring_list_def rotate_rotate ring_wf_def Capacity_def)
  finally show "ring_list b' = drop n (ring_list b)" .
  show "ring_wf b'"
    using assms by (auto simp: ring_wf_def b'_def Capacity_def intro: mod_less_divisor)
qed

section \<open>Each operation on a well-formed buffer\<close>

lemma ring_read_ok:
  assumes wf: "ring_wf b" and ne: "rb_size b \<noteq> 0"
  shows "ring_read n b = Ret (take n (ring_list b))"
proof (cases "ring_wrapped b")
  case False
  with wf ne show ?thesis
    by (simp add: ring_read_def slice_def ring_list_contiguous ring_wrapped_def Capacity_def)
next
  case True
  have "(rb_start b + rb_size b) mod Capacity b = rb_start b + rb_size b - Capacity b"
    using wf True by (auto simp: ring_wf_def ring_wrapped_def le_mod_geq)
  moreover have "rb_start b + rb_size b - Capacity b \<le> Capacity b" "Capacity b \<noteq> 0"
    using wf by (auto simp: ring_wf_def)
  ultimately show ?thesis
    using wf True ne
    by (auto simp: ring_read_def slice_def ring_list_wrapped ring_wrapped_def ring_wf_def
        Capacity_def Let_def)
qed

lemma trySlice_ok:
  assumes wf: "ring_wf b"
  shows "trySlice n b =
    Ret (take n (ring_list b), rb_size b \<noteq> 0 \<and> rb_start b + min n (rb_size b) \<le> Capacity b)"
proof (cases "rb_size b = 0")
  case True
  then show ?thesis by (simp add: trySlice_def ring_list_def)
next
  case False
  define m where "m = min n (rb_size b)"
  have m: "(if rb_size b < n then rb_size b else n) = m" and mle: "m \<le> rb_size b"
    by (auto simp: m_def)
  have tk: "take m (ring_list b) = take n (ring_list b)"
    using wf by (simp add: m_def min_def)
  show ?thesis
  proof (cases "rb_start b + m \<le> Capacity b")
    case True
    with False m ring_list_prefix [OF wf mle True] tk show ?thesis
      by (auto simp: trySlice_def slice_def Let_def Capacity_def m_def)
  next
    case nofit: False
    with False m ring_read_ok [OF wf False, of m] tk show ?thesis
      by (auto simp: trySlice_def Let_def m_def)
  qed
qed

lemma ring_write_overflow:
  assumes wf: "ring_wf b" and ov: "Capacity b < rb_size b + length p"
  shows "ring_Write p b =
    (Ret (length p), \<lparr>rb_start = 0, rb_size = rb_size b + length p, rb_buf = ring_list b @ p\<rparr>)"
  using trySlice_ok [OF wf, of "rb_size b"] wf ov
  by (simp add: ring_Write_def Produce_def ring_write_def)

lemma ring_write_panics:
  assumes "rb_size b + length p \<le> Capacity b" "ring_wrapped b"
  shows "ring_Write p b = (Panic ''slice bounds out of range'', b)"
  using assms by (simp add: ring_Write_def Produce_def ring_write_def ring_wrapped_def)

lemma ring_write_fits:
  assumes wf: "ring_wf b" and fit: "rb_start b + rb_size b + length p \<le> Capacity b"
  shows "ring_Write p b = (Ret (length p), b\<lparr>rb_size := rb_size b + length p,
     rb_buf := take (rb_start b + rb_size b) (rb_buf b) @ p @
               drop (rb_start b + rb_size b + length p) (rb_buf b)\<rparr>)"
  using fit by (simp add: ring_Write_def Produce_def ring_write_def copy_at_fits Capacity_def)

lemma ring_write_wraps:
  assumes wf: "ring_wf b" and nw: "\<not> ring_wrapped b" and room: "rb_size b + length p \<le> Capacity b"
    and wr: "Capacity b < rb_start b + rb_size b + length p"
  defines "n \<equiv> Capacity b - (rb_start b + rb_size b)"
  shows "ring_Write p b = (Ret (length p), b\<lparr>rb_size := rb_size b + length p,
     rb_buf := drop n p @
       drop (length p - n) (take (rb_start b + rb_size b) (rb_buf b) @ take n p)\<rparr>)"
proof -
  have c1: "copy_at (rb_start b + rb_size b) (rb_buf b) p =
      (n, take (rb_start b + rb_size b) (rb_buf b) @ take n p)"
    using nw wr by (simp add: copy_at_cut Capacity_def n_def ring_wrapped_def)
  have "length p - n \<le> Capacity b" using room by simp
  moreover have "length (take (rb_start b + rb_size b) (rb_buf b) @ take n p) = Capacity b"
    using nw wr by (auto simp: Capacity_def n_def ring_wrapped_def)
  ultimately have c2: "copy_at 0 (take (rb_start b + rb_size b) (rb_buf b) @ take n p) (drop n p) =
      (length p - n, drop n p @
        drop (length p - n) (take (rb_start b + rb_size b) (rb_buf b) @ take n p))"
    by (simp add: copy_at_fits)
  from wr nw have "n < length p" by (auto simp: n_def ring_wrapped_def)
  with nw room c1 c2 show ?thesis
    by (simp add: ring_Write_def Produce_def ring_write_def ring_wrapped_def)
qed

lemma drop_past_overwrite: "length xs \<le> s \<Longrightarrow> drop s (xs @ drop (length xs) ys) = drop s ys"
  by simp

lemma ring_Write_ok:
  assumes wf: "ring_wf b" and ok: "\<not> ring_wrapped b \<or> Capacity b < rb_size b + length p"
  shows "\<exists>b'. ring_Write p b = (Ret (length p), b') \<and> ring_list b' = ring_list b @ p \<and> ring_wf b'"
proof (cases "Capacity b < rb_size b + length p")
  case True
  with wf ring_write_overflow [OF wf True] show ?thesis
    by (auto simp: ring_list_def ring_wf_def Capacity_def)
next
  case False
  with ok have nw: "\<not> ring_wrapped b" and room: "rb_size b + length p \<le> Capacity b" by auto
  let ?s = "rb_start b" and ?z = "rb_size b" and ?c = "Capacity b"
  show ?thesis
  proof (cases "?s + ?z + length p \<le> ?c")
    case True
    let ?b = "b\<lparr>rb_size := ?z + length p,
       rb_buf := take (?s + ?z) (rb_buf b) @ p @ drop (?s + ?z + length p) (rb_buf b)\<rparr>"
    have "ring_wf ?b" "\<not> ring_wrapped ?b"
      using wf True by (auto simp: ring_wf_def ring_wrapped_def Capacity_def)
    moreover from ring_list_contiguous [OF this] have "ring_list ?b = ring_list b @ p"
      using ring_list_contiguous [OF wf nw] True by (simp add: Capacity_def min_absorb2 drop_take)
    ultimately show ?thesis using ring_write_fits [OF wf True] by blast
  next
    case False
    then have wr: "?c < ?s + ?z + length p" by simp
    define n where "n = ?c - (?s + ?z)"
    define b' where "b' = b\<lparr>rb_size := ?z + length p,
       rb_buf := drop n p @ drop (length p - n) (take (?s + ?z) (rb_buf b) @ take n p)\<rparr>"
    have f: "rb_start b' = ?s" "rb_size b' = ?z + length p"
      "rb_buf b' = drop n p @ drop (length p - n) (take (?s + ?z) (rb_buf b) @ take n p)"
      by (simp_all add: b'_def)
    have len: "length (take (?s + ?z) (rb_buf b) @ take n p) = ?c" "length p - n \<le> ?s" "n < length p"
      using nw wr room by (auto simp: n_def ring_wrapped_def Capacity_def)
    have cap: "Capacity b' = ?c"
      using len wf unfolding Capacity_def [of b'] ring_wf_def f length_append length_drop by linarith
    have wf': "ring_wf b'" and w': "ring_wrapped b'"
      using wf wr room by (auto simp: ring_wf_def ring_wrapped_def cap f)
    have sz: "?s + ?z \<le> length (rb_buf b)" using nw by (simp add: ring_wrapped_def Capacity_def)
    have "drop ?s (rb_buf b') = drop ?s (take (?s + ?z) (rb_buf b) @ take n p)"
      unfolding f by (rule drop_past_overwrite [of "drop n p", unfolded length_drop, OF len(2)])
    also have "\<dots> = ring_list b @ take n p"
      using sz ring_list_contiguous [OF wf nw] by (simp add: drop_take min_absorb2)
    finally have front: "drop ?s (rb_buf b') = ring_list b @ take n p" .
    have "?s + (?z + length p) - ?c = length p - n"
      using nw wr by (simp add: n_def ring_wrapped_def)
    then have rear: "take (?s + (?z + length p) - ?c) (rb_buf b') = drop n p" by (simp add: f)
    have "ring_list b' = ring_list b @ p"
      unfolding ring_list_wrapped [OF wf' w'] f(1,2) cap front rear by simp
    with wf' ring_write_wraps [OF wf nw room wr] show ?thesis by (auto simp: n_def b'_def)
  qed
qed

lemma TrySlice_ok:
  assumes wf: "ring_wf b"
  shows "\<exists>b'. TrySlice n b = (Ret (take n (ring_list b),
            rb_size b \<noteq> 0 \<and> rb_start b + min n (rb_size b) \<le> Capacity b), b') \<and>
          ring_list b' = drop n (ring_list b) \<and> ring_wf b' \<and> Capacity b' = Capacity b"
proof -
  have "Capacity b \<noteq> 0" using wf by (auto simp: ring_wf_def)
  moreover have "drop (min n (rb_size b)) (ring_list b) = drop n (ring_list b)"
    using wf by (auto simp: min_def)
  ultimately show ?thesis
    using trySlice_ok [OF wf, of n] ring_advance [OF wf, of "min n (rb_size b)"] wf
    by (simp add: TrySlice_def min.commute Capacity_def)
qed

lemma ring_Read_ok:
  assumes wf: "ring_wf b" and ne: "rb_size b \<noteq> 0"
  shows "\<exists>b'. ring_Read n b = (Ret (take n (ring_list b)), b') \<and>
          ring_list b' = drop n (ring_list b) \<and> ring_wf b'"
proof -
  have "Capacity b \<noteq> 0" using wf by (auto simp: ring_wf_def)
  moreover have "drop (min n (rb_size b)) (ring_list b) = drop n (ring_list b)"
    using wf by (auto simp: min_def)
  ultimately show ?thesis
    using ring_read_ok [OF wf ne, of n] ring_advance [OF wf, of "min n (rb_size b)"] wf
    by (simp add: ring_Read_def Consume_def min.commute)
qed

section \<open>Refinement of the byte list\<close>

lemmas ring_op_defs = ring_Reset_def ring_list_def ring_wf_def Capacity_def

lemma ring_exec_ok:
  assumes wf: "ring_wf b"
    and ok: "\<not> (\<exists>p. x = OpWrite p \<and> ring_wrapped b \<and> rb_size b + length p \<le> Capacity b)"
  shows "\<exists>b'. ring_exec x b = (fst (fifo_exec x (ring_list b)), b') \<and>
           ring_list b' = snd (fifo_exec x (ring_list b)) \<and> ring_wf b'"
proof (cases x)
  case (OpWrite p)
  with ok ring_Write_ok [OF wf, of p] show ?thesis by fastforce
next
  case (OpRead n)
  show ?thesis
  proof (cases "rb_size b = 0")
    case True
    with wf OpRead show ?thesis
      by (simp add: ring_Read_def Consume_def ring_read_def ring_list_def)
  next
    case False
    then have "ring_list b \<noteq> []" using length_ring_list [OF wf] by auto
    with OpRead ring_Read_ok [OF wf False, of n] show ?thesis by auto
  qed
next
  case (OpSlice n)
  with TrySlice_ok [OF wf, of n] show ?thesis by fastforce
next
  case OpReset
  with wf show ?thesis by (auto simp: ring_op_defs)
qed

text \<open>
  Whatever the ring buffer does without panicking, a first-in first-out byte list does:
  the bytes a read or a slice returns are the oldest ones in order, a write appends, and the
  invariant is kept, also when a write re-allocates or wraps around the end.
\<close>

lemma ring_exec_refines:
  assumes "ring_wf b" and "ring_exec x b = (y, b')" and "\<forall>s. y \<noteq> Panic s"
  shows "fifo_exec x (ring_list b) = (y, ring_list b')" and "ring_wf b'"
proof -
  have ok: "\<not> (\<exists>p. x = OpWrite p \<and> ring_wrapped b \<and> rb_size b + length p \<le> Capacity b)"
    using ring_write_panics [of b] assms(2,3) by auto
  from ring_exec_ok [OF assms(1) ok] assms(2)
  show "fifo_exec x (ring_list b) = (y, ring_list b')" "ring_wf b'"
    by (auto intro: prod_eqI)
qed

text \<open>
  C10. A run of any length of calls that panics nowhere returns exactly what the byte list
  returns, starting from a fresh buffer of any positive capacity.
\<close>

theorem ring_run_refines:
  assumes "0 < cap" and "ring_run xs (newRingBuffer cap) = (ys, b')"
    and "\<forall>y \<in> set ys. \<forall>s. y \<noteq> Panic s"
  shows "fifo_run xs [] = (ys, ring_list b') \<and> ring_wf b'"
proof -
  have gen: "fifo_run xs (ring_list b) = (ys, ring_list b') \<and> ring_wf b'"
    if "ring_wf b" "ring_run xs b = (ys, b')" "\<forall>y \<in> set ys. \<forall>s. y \<noteq> Panic s" for b
    using that
  proof (induction xs arbitrary: b ys)
    case Nil
    then show ?case by simp
  next
    case (Cons x xs)
    obtain y c where E: "ring_exec x b = (y, c)" by (cases "ring_exec x b")
    obtain zs d where R: "ring_run xs c = (zs, d)" by (cases "ring_run xs c")
    from Cons.prems E R have ys: "ys = y # zs" and np: "\<forall>s. y \<noteq> Panic s" and R': "ring_run xs c = (zs, b')"
      by auto
    from ring_exec_refines [OF Cons.prems(1) E np] have
      F: "fifo_exec x (ring_list b) = (y, ring_list c)" and wf: "ring_wf c" by simp_all
    from Cons.IH [OF wf R'] Cons.prems(3) ys F show ?case by simp
  qed
  have "ring_wf (newRingBuffer cap)" "ring_list (newRingBuffer cap) = []"
    using assms(1) by (simp_all add: newRingBuffer_def ring_wf_def ring_list_def Capacity_def)
  with gen assms(2,3) show ?thesis by metis
qed

text \<open>
  C30. The only panic: a write to a buffer whose data wraps around the end of the slice, when
  the new bytes would fit without re-allocating. The index \<open>start + size\<close> is then past the
  end and \<open>write\<close> does not reduce it modulo the capacity.
\<close>

theorem ring_exec_panics_iff:
  assumes "ring_wf b"
  shows "(\<exists>s b'. ring_exec x b = (Panic s, b')) \<longleftrightarrow>
     (\<exists>p. x = OpWrite p \<and> ring_wrapped b \<and> rb_size b + length p \<le> Capacity b)"
proof
  assume "\<exists>p. x = OpWrite p \<and> ring_wrapped b \<and> rb_size b + length p \<le> Capacity b"
  with ring_write_panics [of b] show "\<exists>s b'. ring_exec x b = (Panic s, b')" by auto
next
  assume P: "\<exists>s b'. ring_exec x b = (Panic s, b')"
  show "\<exists>p. x = OpWrite p \<and> ring_wrapped b \<and> rb_size b + length p \<le> Capacity b"
  proof (rule ccontr)
    assume "\<not> ?thesis"
    from ring_exec_ok [OF assms this] P show False
      by (cases x) (auto split: if_splits)
  qed
qed

theorem ring_run_refines_witness:
  "fifo_run [OpWrite [1, 2, 3], OpRead 2, OpWrite [4], OpSlice 5] [] =
     ([Ret [1, 2, 3], Ret [1, 2], Ret [4], Ret [3, 4]], [])"
proof -
  have R: "ring_run [OpWrite [1, 2, 3], OpRead 2, OpWrite [4], OpSlice 5] (newRingBuffer 4) =
      ([Ret [1, 2, 3], Ret [1, 2], Ret [4], Ret [3, 4]],
       \<lparr>rb_start = 0, rb_size = 0, rb_buf = [1, 2, 3, 4]\<rparr>)"
    by code_simp
  from ring_run_refines [OF _ R] show ?thesis by (simp add: ring_list_def)
qed

theorem ring_exec_panics_iff_witness:
  "\<exists>s b'. ring_exec (OpWrite [5]) \<lparr>rb_start = 3, rb_size = 2, rb_buf = [9, 8, 7, 1]\<rparr> = (Panic s, b')"
proof -
  let ?b = "\<lparr>rb_start = 3, rb_size = 2, rb_buf = [9, 8, 7, 1 :: byte]\<rparr>"
  have wf: "ring_wf ?b" by (simp add: ring_wf_def Capacity_def)
  show ?thesis
    unfolding ring_exec_panics_iff [OF wf] by (simp add: ring_wrapped_def Capacity_def)
qed

section \<open>Staging: copy in, slice out\<close>

text \<open>
  How the decoder uses the ring buffer: copy \<open>n\<close> bytes of a stream into the empty buffer,
  then take them out as one slice. The interface extends that of a byte sink by the slice.
\<close>

locale byte_staging = byte_sink wr content room
  for wr :: "byte list \<Rightarrow> 'd \<Rightarrow> nat outcome \<times> 'd" and content and room +
  fixes tk :: "nat \<Rightarrow> 'd \<Rightarrow> (byte list \<times> bool) outcome \<times> 'd"
    and ok :: "'d \<Rightarrow> bool"
  assumes tk_ok: "ok d \<Longrightarrow> \<exists>f d'. tk n d = (Ret (take n (content d), f), d') \<and>
      content d' = drop n (content d) \<and> ok d'"
    and room_ok: "room k d \<Longrightarrow> ok d"
begin

lemma stage:
  assumes "room k d" "content d = []" "int k = n" "k \<le> length (rbytes r)"
  shows "\<exists>r' d' f d''. CopyN wr n r d = (Ret k, r', d') \<and> rbytes r' = drop k (rbytes r) \<and>
      rerr r' = rerr r \<and> tk k d' = (Ret (take k (rbytes r), f), d'') \<and> content d'' = [] \<and> ok d''"
proof -
  from CopyN_enough [OF assms(1,3,4)] assms(2) obtain r' d' where
    C: "CopyN wr n r d = (Ret k, r', d')" "content d' = take k (rbytes r)"
    "rbytes r' = drop k (rbytes r)" "rerr r' = rerr r" "room 0 d'" by auto
  from tk_ok [OF room_ok [OF C(5)], of k] C(2) show ?thesis using C by auto
qed

end

text \<open>The ring buffer takes \<open>k\<close> more bytes in any pieces when they fit before the end of the slice.\<close>

definition ring_room :: "nat \<Rightarrow> ringBuffer \<Rightarrow> bool" where
  "ring_room k b \<longleftrightarrow> ring_wf b \<and> rb_start b + rb_size b + k \<le> Capacity b"

interpretation ring: byte_staging ring_Write ring_list ring_room TrySlice ring_wf
proof
  fix k b and bs :: "byte list"
  assume r: "ring_room k b" and le: "length bs \<le> k"
  then have wf: "ring_wf b" and nw: "\<not> ring_wrapped b"
      and fit: "rb_start b + rb_size b + length bs \<le> Capacity b"
    by (auto simp: ring_room_def ring_wrapped_def)
  from ring_Write_ok [OF wf, of bs] nw obtain b' where
    W: "ring_Write bs b = (Ret (length bs), b')" "ring_list b' = ring_list b @ bs" "ring_wf b'" by blast
  moreover have "rb_start b' = rb_start b" "rb_size b' = rb_size b + length bs" "Capacity b' = Capacity b"
    using ring_write_fits [OF wf fit] W(1) fit by (auto simp: Capacity_def)
  ultimately show "\<exists>d'. ring_Write bs b = (Ret (length bs), d') \<and> ring_list d' = ring_list b @ bs \<and>
      ring_room (k - length bs) d'"
    using r le by (auto simp: ring_room_def)
next
  fix b n
  assume "ring_wf b"
  from TrySlice_ok [OF this, of n]
  show "\<exists>f d'. TrySlice n b = (Ret (take n (ring_list b), f), d') \<and>
      ring_list d' = drop n (ring_list b) \<and> ring_wf d'" by blast
next
  show "ring_room k d \<Longrightarrow> ring_wf d" for k d by (simp add: ring_room_def)
qed

text \<open>
  When the bytes are there in one piece of at most 32 KiB, a single \<open>Write\<close> stages them, and
  the position of the empty buffer does not matter.
\<close>

lemma Read_piece:
  "rchunks r = c # cs \<Longrightarrow> n \<le> length c \<Longrightarrow>
     Read n r = (take n c, None, r\<lparr>rchunks := (if n < length c then drop n c # cs else cs)\<rparr>)"
  by (simp add: Read_def)

lemma stage_piece:
  assumes wf: "ring_wf b" and e: "ring_list b = []" and r: "rchunks r = c # cs"
    and n: "0 < k" "k \<le> 32768" "k \<le> length c" "int k = n"
  shows "\<exists>r' b' f b''. CopyN ring_Write n r b = (Ret k, r', b') \<and> rbytes r' = drop k (rbytes r) \<and>
      rerr r' = rerr r \<and> TrySlice k b' = (Ret (take k (rbytes r), f), b'') \<and>
      ring_list b'' = [] \<and> ring_wf b''"
proof -
  let ?r = "r\<lparr>rchunks := (if k < length c then drop k c # cs else cs)\<rparr>"
  have "rb_size b = 0" using e length_ring_list [OF wf] by simp
  then have "\<not> ring_wrapped b" using wf by (simp add: ring_wrapped_def ring_wf_def)
  with ring_Write_ok [OF wf, of "take k c"] e n(3) obtain b' where
    W: "ring_Write (take k c) b = (Ret (length (take k c)), b')" "ring_list b' = take k c" "ring_wf b'"
    by auto
  have R: "Read (min 32768 k) r = (take k c, None, ?r)" and ne: "take k c \<noteq> []"
    using Read_piece [OF r n(3)] n by auto
  have "copy_loop ring_Write k r b = (Ret k, ?r, b')"
    using copy_loop_step [of k r "take k c" ?r ring_Write b b', OF n(1) R ne W(1)] n(3) by simp
  moreover have "nat n = k" using n(4) by simp
  ultimately have C: "CopyN ring_Write n r b = (Ret k, ?r, b')" using n(4) by (simp add: CopyN_def)
  have "rbytes ?r = drop k (rbytes r)" "take k (rbytes r) = take k c"
    using r n(3) by (auto simp: rbytes_def)
  with C TrySlice_ok [OF W(3), of k] W(2) show ?thesis by auto
qed

end
