(* ===== verification/Conn_Stats.thy ===== *)
theory Conn_Stats
  imports Go_Prelude "HOL-Library.Multiset"
begin

text \<open>
  Connection statistics, \<^verbatim>\<open>src/conn_stats.go\<close> and \<^verbatim>\<open>src/conn_stats_generic.go\<close>: fourteen
  unsigned 64-bit counters, each updated by one atomic addition. Client, server, encoder and
  decoder share one value between goroutines, so the question is whether the order of the
  additions matters; \<open>stat_run_permuted\<close> shows that it does not, wrap-around included.
  The averages (\<open>AvgRPCTime\<close> and its siblings) are floating-point quotients of these
  counters; they are in \<open>Conn_Averages\<close>. The locked counters of 386 builds are in \<open>Stats_386\<close>.
\<close>

section \<open>Counters\<close>

record ConnStats =
  RPCCalls :: uint64
  RPCTime :: uint64
  BodyWritten :: uint64
  BodyRead :: uint64
  HeadWritten :: uint64
  HeadRead :: uint64
  ReadCalls :: uint64
  ReadErrors :: uint64
  WriteCalls :: uint64
  WriteErrors :: uint64
  DialCalls :: uint64
  DialErrors :: uint64
  AcceptCalls :: uint64
  AcceptErrors :: uint64

text \<open>The zero value of the struct, which is also what \<open>Reset\<close> leaves.\<close>

definition zeroStats :: ConnStats where
  "zeroStats = \<lparr>RPCCalls = 0, RPCTime = 0, BodyWritten = 0, BodyRead = 0, HeadWritten = 0,
     HeadRead = 0, ReadCalls = 0, ReadErrors = 0, WriteCalls = 0, WriteErrors = 0,
     DialCalls = 0, DialErrors = 0, AcceptCalls = 0, AcceptErrors = 0\<rparr>"

definition Snapshot :: "ConnStats \<Rightarrow> ConnStats" where
  "Snapshot cs = \<lparr>RPCCalls = RPCCalls cs, RPCTime = RPCTime cs, BodyWritten = BodyWritten cs,
     BodyRead = BodyRead cs, HeadWritten = HeadWritten cs, HeadRead = HeadRead cs,
     ReadCalls = ReadCalls cs, ReadErrors = ReadErrors cs, WriteCalls = WriteCalls cs,
     WriteErrors = WriteErrors cs, DialCalls = DialCalls cs, DialErrors = DialErrors cs,
     AcceptCalls = AcceptCalls cs, AcceptErrors = AcceptErrors cs\<rparr>"

definition stats_Reset :: "ConnStats \<Rightarrow> ConnStats" where
  "stats_Reset cs = cs\<lparr>RPCCalls := 0, RPCTime := 0, HeadWritten := 0, BodyWritten := 0,
     HeadRead := 0, BodyRead := 0, WriteCalls := 0, WriteErrors := 0, ReadCalls := 0,
     ReadErrors := 0, DialCalls := 0, DialErrors := 0, AcceptCalls := 0, AcceptErrors := 0\<rparr>"

definition incRPCCalls :: "ConnStats \<Rightarrow> ConnStats" where
  "incRPCCalls cs = cs\<lparr>RPCCalls := RPCCalls cs + 1\<rparr>"

definition incRPCTime :: "uint64 \<Rightarrow> ConnStats \<Rightarrow> ConnStats" where
  "incRPCTime dt cs = cs\<lparr>RPCTime := RPCTime cs + dt\<rparr>"

definition addHeadWritten :: "uint64 \<Rightarrow> ConnStats \<Rightarrow> ConnStats" where
  "addHeadWritten n cs = cs\<lparr>HeadWritten := HeadWritten cs + n\<rparr>"

definition addHeadRead :: "uint64 \<Rightarrow> ConnStats \<Rightarrow> ConnStats" where
  "addHeadRead n cs = cs\<lparr>HeadRead := HeadRead cs + n\<rparr>"

definition addBodyWritten :: "uint64 \<Rightarrow> ConnStats \<Rightarrow> ConnStats" where
  "addBodyWritten n cs = cs\<lparr>BodyWritten := BodyWritten cs + n\<rparr>"

definition addBodyRead :: "uint64 \<Rightarrow> ConnStats \<Rightarrow> ConnStats" where
  "addBodyRead n cs = cs\<lparr>BodyRead := BodyRead cs + n\<rparr>"

definition incReadCalls :: "ConnStats \<Rightarrow> ConnStats" where
  "incReadCalls cs = cs\<lparr>ReadCalls := ReadCalls cs + 1\<rparr>"

definition incReadErrors :: "ConnStats \<Rightarrow> ConnStats" where
  "incReadErrors cs = cs\<lparr>ReadErrors := ReadErrors cs + 1\<rparr>"

definition incWriteCalls :: "ConnStats \<Rightarrow> ConnStats" where
  "incWriteCalls cs = cs\<lparr>WriteCalls := WriteCalls cs + 1\<rparr>"

definition incWriteErrors :: "ConnStats \<Rightarrow> ConnStats" where
  "incWriteErrors cs = cs\<lparr>WriteErrors := WriteErrors cs + 1\<rparr>"

definition incDialCalls :: "ConnStats \<Rightarrow> ConnStats" where
  "incDialCalls cs = cs\<lparr>DialCalls := DialCalls cs + 1\<rparr>"

definition incDialErrors :: "ConnStats \<Rightarrow> ConnStats" where
  "incDialErrors cs = cs\<lparr>DialErrors := DialErrors cs + 1\<rparr>"

definition incAcceptCalls :: "ConnStats \<Rightarrow> ConnStats" where
  "incAcceptCalls cs = cs\<lparr>AcceptCalls := AcceptCalls cs + 1\<rparr>"

definition incAcceptErrors :: "ConnStats \<Rightarrow> ConnStats" where
  "incAcceptErrors cs = cs\<lparr>AcceptErrors := AcceptErrors cs + 1\<rparr>"

lemmas stats_defs = incRPCCalls_def incRPCTime_def addHeadWritten_def addHeadRead_def
  addBodyWritten_def addBodyRead_def incReadCalls_def incReadErrors_def incWriteCalls_def
  incWriteErrors_def incDialCalls_def incDialErrors_def incAcceptCalls_def incAcceptErrors_def

declare stats_defs [go_run]

text \<open>One atomic update, as a value, to speak about the order in which they happen.\<close>

datatype stat_op = IncRPCCalls | IncRPCTime uint64 | AddHeadWritten uint64 | AddHeadRead uint64
  | AddBodyWritten uint64 | AddBodyRead uint64 | IncReadCalls | IncReadErrors | IncWriteCalls
  | IncWriteErrors | IncDialCalls | IncDialErrors | IncAcceptCalls | IncAcceptErrors

fun stat_exec :: "stat_op \<Rightarrow> ConnStats \<Rightarrow> ConnStats" where
  "stat_exec IncRPCCalls cs = incRPCCalls cs"
| "stat_exec (IncRPCTime n) cs = incRPCTime n cs"
| "stat_exec (AddHeadWritten n) cs = addHeadWritten n cs"
| "stat_exec (AddHeadRead n) cs = addHeadRead n cs"
| "stat_exec (AddBodyWritten n) cs = addBodyWritten n cs"
| "stat_exec (AddBodyRead n) cs = addBodyRead n cs"
| "stat_exec IncReadCalls cs = incReadCalls cs"
| "stat_exec IncReadErrors cs = incReadErrors cs"
| "stat_exec IncWriteCalls cs = incWriteCalls cs"
| "stat_exec IncWriteErrors cs = incWriteErrors cs"
| "stat_exec IncDialCalls cs = incDialCalls cs"
| "stat_exec IncDialErrors cs = incDialErrors cs"
| "stat_exec IncAcceptCalls cs = incAcceptCalls cs"
| "stat_exec IncAcceptErrors cs = incAcceptErrors cs"

definition stat_run :: "stat_op list \<Rightarrow> ConnStats \<Rightarrow> ConnStats" where
  "stat_run ops cs = fold stat_exec ops cs"

section \<open>Properties\<close>

lemma Snapshot_id [simp]: "Snapshot cs = cs"
  by (simp add: Snapshot_def)

lemma stats_Reset_zero [simp]: "stats_Reset cs = zeroStats"
  by (simp add: stats_Reset_def zeroStats_def)

lemma stat_exec_commute: "stat_exec a (stat_exec b cs) = stat_exec b (stat_exec a cs)"
  by (cases a; cases b) (simp_all add: stats_defs add.commute add.left_commute)

text \<open>
  The counters do not depend on how the goroutines interleave: any two orders of the same
  updates give the same statistics, from any starting value.
\<close>

lemma stat_run_permuted:
  assumes "mset ops = mset ops'"
  shows "Snapshot (stat_run ops cs) = Snapshot (stat_run ops' cs)"
proof -
  have "fold stat_exec ops = fold stat_exec ops'"
    by (rule fold_multiset_equiv) (use assms stat_exec_commute in \<open>auto simp: fun_eq_iff\<close>)
  then show ?thesis by (simp add: stat_run_def)
qed

lemma stat_run_permuted_witness:
  "Snapshot (stat_run [IncRPCCalls, AddBodyRead 7, IncRPCCalls] zeroStats) =
   Snapshot (stat_run [IncRPCCalls, IncRPCCalls, AddBodyRead 7] zeroStats)"
  by (rule stat_run_permuted) simp

end
