(* ===== verification/Byte_Buffer.thy ===== *)
theory Byte_Buffer
  imports Go_Prelude
begin

text \<open>
  The growable byte buffer of \<^verbatim>\<open>src/buffer.go\<close> (type \<open>buffer\<close>, which embeds
  \<open>*bytes.Buffer\<close>), the pool it is allocated from, and the writing side of a connection.

  The message encoder keeps a slice into the buffer across further writes, so the identity of
  the backing array matters: \<open>bb_arr\<close> numbers the arrays a buffer has had, and a write that
  does not fit into the capacity moves the data to a new array. How large the new array is, is
  the runtime's choice: the parameter \<open>grw\<close> gives the new capacity from the number of bytes
  needed and the old capacity, and the only law used of it is that the bytes fit.
  The buffers here are written and then drained as a whole, so the read offset of
  \<open>bytes.Buffer\<close> is always zero between operations and is left out.
\<close>

section \<open>bytes.Buffer\<close>

record bbuf =
  bb_arr :: nat
  bb_data :: "byte list"
  bb_cap :: nat

type_synonym growth = "nat \<Rightarrow> nat \<Rightarrow> nat"

text \<open>\<open>bytes.NewBuffer(make([]byte, 0))\<close>, as the pool's constructor makes it.\<close>

definition newBuffer :: bbuf where
  "newBuffer = \<lparr>bb_arr = 0, bb_data = [], bb_cap = 0\<rparr>"

text \<open>\<open>grow(n)\<close>: reslice when the capacity allows it, otherwise move to a new array.\<close>

definition bb_grow :: "growth \<Rightarrow> nat \<Rightarrow> bbuf \<Rightarrow> bbuf" where
  "bb_grow grw n b =
     (if n \<le> bb_cap b - length (bb_data b) then b
      else b\<lparr>bb_arr := Suc (bb_arr b), bb_cap := grw (length (bb_data b) + n) (bb_cap b)\<rparr>)"

definition bb_Grow :: "growth \<Rightarrow> int \<Rightarrow> bbuf \<Rightarrow> bbuf outcome" where
  "bb_Grow grw n b =
     (if n < 0 then Panic ''bytes.Buffer.Grow: negative count'' else Ret (bb_grow grw (nat n) b))"

definition bb_Write :: "growth \<Rightarrow> byte list \<Rightarrow> bbuf \<Rightarrow> nat outcome \<times> bbuf" where
  "bb_Write grw p b =
     (let b' = bb_grow grw (length p) b
      in (Ret (length p), b'\<lparr>bb_data := bb_data b' @ p\<rparr>))"

definition bb_Reset :: "bbuf \<Rightarrow> bbuf" where
  "bb_Reset b = b\<lparr>bb_data := []\<rparr>"

text \<open>
  A slice of the buffer's array from position \<open>i\<close>, and a write through it: it reaches the
  buffer only while the buffer still uses that array.
\<close>

type_synonym bslice = "nat \<times> nat"

definition bb_slice_at :: "nat \<Rightarrow> bbuf \<Rightarrow> bslice" where
  "bb_slice_at i b = (bb_arr b, i)"

definition bb_poke :: "bslice \<Rightarrow> byte list \<Rightarrow> bbuf \<Rightarrow> bbuf" where
  "bb_poke s bs b =
     (if fst s = bb_arr b
      then b\<lparr>bb_data := take (snd s) (bb_data b) @ bs @ drop (snd s + length bs) (bb_data b)\<rparr>
      else b)"

definition bb_wf :: "bbuf \<Rightarrow> bool" where
  "bb_wf b \<longleftrightarrow> length (bb_data b) \<le> bb_cap b"

section \<open>The buffer pool\<close>

text \<open>
  \<open>bufferPool\<close> is a \<open>sync.Pool\<close> of pointers to buffers. \<open>Get\<close> returns any pooled
  pointer (the choice is an argument, \<open>None\<close> when it finds nothing) or a new buffer.
\<close>

record bufPool =
  bp_heap :: "nat \<Rightarrow> bbuf"
  bp_free :: "nat list"
  bp_next :: nat

definition pool_Get :: "nat option \<Rightarrow> bufPool \<Rightarrow> nat \<times> bufPool" where
  "pool_Get ch st =
     (case ch of
        Some i \<Rightarrow>
          if i < length (bp_free st)
          then (bp_free st ! i, st\<lparr>bp_free := remove_nth i (bp_free st)\<rparr>)
          else (bp_next st, st\<lparr>bp_heap := (bp_heap st)(bp_next st := newBuffer),
                              bp_next := Suc (bp_next st)\<rparr>)
      | None \<Rightarrow> (bp_next st, st\<lparr>bp_heap := (bp_heap st)(bp_next st := newBuffer),
                              bp_next := Suc (bp_next st)\<rparr>))"

text \<open>The default allocator installed by \<open>init\<close>: take a buffer and \<open>Grow(size)\<close> it.\<close>

definition bufferAllocator :: "growth \<Rightarrow> nat option \<Rightarrow> int \<Rightarrow> bufPool \<Rightarrow> nat outcome \<times> bufPool" where
  "bufferAllocator grw ch sz st =
     (case pool_Get ch st of
        (a, st') \<Rightarrow>
          (case bb_Grow grw sz (bp_heap st' a) of
             Ret b \<Rightarrow> (Ret a, st'\<lparr>bp_heap := (bp_heap st')(a := b)\<rparr>)
           | Fail e \<Rightarrow> (Fail e, st')
           | Panic s \<Rightarrow> (Panic s, st')))"

text \<open>\<open>(*buffer).Close\<close>: reset and put the pointer back.\<close>

definition buffer_Close :: "nat \<Rightarrow> bufPool \<Rightarrow> bufPool" where
  "buffer_Close a st =
     st\<lparr>bp_heap := (bp_heap st)(a := bb_Reset (bp_heap st a)), bp_free := a # bp_free st\<rparr>"

definition emptyPool :: bufPool where
  "emptyPool = \<lparr>bp_heap = (\<lambda>_. newBuffer), bp_free = [], bp_next = 0\<rparr>"

text \<open>
  The pool under its usage rule: \<open>live\<close> are the buffers handed out and not closed, their
  owners may change them, and only a live buffer is closed.
\<close>

inductive pool_reach :: "growth \<Rightarrow> bufPool \<Rightarrow> nat set \<Rightarrow> bool" for grw where
  start: "pool_reach grw emptyPool {}"
| alloc: "pool_reach grw st live \<Longrightarrow> bufferAllocator grw ch sz st = (Ret a, st') \<Longrightarrow>
    pool_reach grw st' (insert a live)"
| use: "pool_reach grw st live \<Longrightarrow> a \<in> live \<Longrightarrow>
    pool_reach grw (st\<lparr>bp_heap := (bp_heap st)(a := b)\<rparr>) live"
| close: "pool_reach grw st live \<Longrightarrow> a \<in> live \<Longrightarrow>
    pool_reach grw (buffer_Close a st) (live - {a})"

definition pool_inv :: "bufPool \<Rightarrow> nat set \<Rightarrow> bool" where
  "pool_inv st live \<longleftrightarrow> distinct (bp_free st) \<and> set (bp_free st) \<inter> live = {} \<and>
     set (bp_free st) \<union> live \<subseteq> {..<bp_next st} \<and>
     (\<forall>a \<in> set (bp_free st). bb_data (bp_heap st a) = [])"

section \<open>The writing side of a connection\<close>

text \<open>
  \<open>wsent\<close> is what the peer will see. A connection may break: \<open>wlimit\<close> is the number of
  bytes it still accepts before every write fails with \<open>werr\<close> (\<open>None\<close>: it does not
  break). \<open>wconn\<close> says whether the writer implements \<open>syscall.Conn\<close>.
\<close>

record writer =
  wsent :: "byte list"
  wlimit :: "nat option"
  werr :: goerr
  wconn :: bool

definition conn_Write :: "byte list \<Rightarrow> writer \<Rightarrow> nat outcome \<times> writer" where
  "conn_Write p w =
     (case wlimit w of
        None \<Rightarrow> (Ret (length p), w\<lparr>wsent := wsent w @ p\<rparr>)
      | Some k \<Rightarrow>
          if length p \<le> k
          then (Ret (length p), w\<lparr>wsent := wsent w @ p, wlimit := Some (k - length p)\<rparr>)
          else (Fail (werr w), w\<lparr>wsent := wsent w @ take k p, wlimit := Some 0\<rparr>))"

text \<open>
  \<open>io.Copy(w, buf)\<close> uses the buffer's \<open>WriteTo\<close>: one \<open>Write\<close> of everything, then the
  buffer is reset. The bytes written are returned.
\<close>

definition bb_WriteTo :: "bbuf \<Rightarrow> writer \<Rightarrow> nat outcome \<times> bbuf \<times> writer" where
  "bb_WriteTo b w =
     (if bb_data b = [] then (Ret 0, bb_Reset b, w)
      else case conn_Write (bb_data b) w of
          (Ret n, w') \<Rightarrow> (Ret n, bb_Reset b, w')
        | (Fail e, w') \<Rightarrow> (Fail e, b, w')
        | (Panic s, w') \<Rightarrow> (Panic s, b, w'))"

definition conn_room :: "nat \<Rightarrow> writer \<Rightarrow> bool" where
  "conn_room k w \<longleftrightarrow> (case wlimit w of None \<Rightarrow> True | Some l \<Rightarrow> k \<le> l)"

lemmas byte_buffer_defs = newBuffer_def bb_grow_def bb_Write_def bb_Reset_def bb_slice_at_def
  bb_poke_def conn_Write_def bb_WriteTo_def

declare byte_buffer_defs [go_run]

section \<open>Facts about buffers\<close>

lemma bb_data_grow [simp]: "bb_data (bb_grow grw n b) = bb_data b"
  by (simp add: bb_grow_def)

lemma bb_Write_data [simp]:
  "fst (bb_Write grw p b) = Ret (length p)"
  "bb_data (snd (bb_Write grw p b)) = bb_data b @ p"
  by (simp_all add: bb_Write_def Let_def)

lemma bb_Write_fits:
  "length (bb_data b) + length p \<le> bb_cap b \<Longrightarrow>
     bb_Write grw p b = (Ret (length p), b\<lparr>bb_data := bb_data b @ p\<rparr>)"
  by (simp add: bb_Write_def bb_grow_def)

lemma bb_Write_moves:
  "bb_cap b < length (bb_data b) + length p \<Longrightarrow> bb_wf b \<Longrightarrow>
     bb_arr (snd (bb_Write grw p b)) = Suc (bb_arr b)"
  by (simp add: bb_Write_def bb_grow_def Let_def bb_wf_def)

lemma bb_Write_wf:
  "bb_wf b \<Longrightarrow> (\<And>n c. n \<le> grw n c) \<Longrightarrow> bb_wf (snd (bb_Write grw p b))"
  by (auto simp: bb_Write_def bb_grow_def Let_def bb_wf_def)

lemma bb_Reset_simps [simp]:
  "bb_data (bb_Reset b) = []" "bb_cap (bb_Reset b) = bb_cap b" "bb_arr (bb_Reset b) = bb_arr b"
  by (simp_all add: bb_Reset_def)

lemma conn_Write_room:
  "conn_room k w \<Longrightarrow> length p \<le> k \<Longrightarrow>
     \<exists>w'. conn_Write p w = (Ret (length p), w') \<and> wsent w' = wsent w @ p \<and>
       conn_room (k - length p) w' \<and> wconn w' = wconn w \<and> werr w' = werr w"
  by (auto simp: conn_Write_def conn_room_def split: option.splits)

lemma conn_room_mono: "conn_room k w \<Longrightarrow> l \<le> k \<Longrightarrow> conn_room l w"
  by (auto simp: conn_room_def split: option.splits)

interpretation conn: byte_sink conn_Write wsent conn_room
  by unfold_locales (use conn_Write_room in blast)

interpretation bytebuf: byte_sink "bb_Write grw" bb_data "\<lambda>_ _. True" for grw
proof (unfold_locales, simp)
  fix d and bs :: "byte list"
  show "\<exists>d'. bb_Write grw bs d = (Ret (length bs), d') \<and> bb_data d' = bb_data d @ bs"
    by (intro exI [of _ "snd (bb_Write grw bs d)"]) (simp add: prod_eq_iff)
qed

section \<open>Ownership of pooled buffers\<close>

lemma pool_Get_inv:
  assumes inv: "pool_inv st live" and G: "pool_Get ch st = (a, st')"
  shows "a \<notin> live \<and> bb_data (bp_heap st' a) = [] \<and> pool_inv st' (insert a live)"
proof -
  have new: ?thesis if "a = bp_next st" "st' = st\<lparr>bp_heap := (bp_heap st)(bp_next st := newBuffer),
      bp_next := Suc (bp_next st)\<rparr>"
    using inv that by (auto simp: pool_inv_def newBuffer_def)
  have old: ?thesis if i: "i < length (bp_free st)" and a: "a = bp_free st ! i"
      and st': "st' = st\<lparr>bp_free := remove_nth i (bp_free st)\<rparr>" for i
  proof -
    from i a have "a \<in> set (bp_free st)" by simp
    moreover have "set (remove_nth i (bp_free st)) = set (bp_free st) - {a}"
      using set_remove_nth [of "bp_free st" i] inv i a by (simp add: pool_inv_def)
    ultimately show ?thesis
      using inv st' distinct_remove_nth by (auto simp: pool_inv_def)
  qed
  show ?thesis
    using G new old by (auto simp: pool_Get_def split: option.splits if_splits)
qed

lemma bufferAllocator_Ret:
  assumes "bufferAllocator grw ch sz st = (Ret a, st')"
  obtains st1 where "pool_Get ch st = (a, st1)" "0 \<le> sz"
    "st' = st1\<lparr>bp_heap := (bp_heap st1)(a := bb_grow grw (nat sz) (bp_heap st1 a))\<rparr>"
  using assms by (auto simp: bufferAllocator_def bb_Grow_def split: prod.splits outcome.splits if_splits)

lemma pool_inv_use: "pool_inv st live \<Longrightarrow> a \<in> live \<Longrightarrow> pool_inv (st\<lparr>bp_heap := (bp_heap st)(a := b)\<rparr>) live"
  by (auto simp: pool_inv_def)

lemma pool_reach_inv: "pool_reach grw st live \<Longrightarrow> pool_inv st live"
proof (induction rule: pool_reach.induct)
  case start
  show ?case by (simp add: pool_inv_def emptyPool_def)
next
  case (alloc st live ch sz a st')
  obtain st1 where G: "pool_Get ch st = (a, st1)"
    and st': "st' = st1\<lparr>bp_heap := (bp_heap st1)(a := bb_grow grw (nat sz) (bp_heap st1 a))\<rparr>"
    by (rule bufferAllocator_Ret [OF alloc.hyps(2)])
  from pool_Get_inv [OF alloc.IH G] pool_inv_use [of st1 "insert a live" a] st' show ?case by simp
next
  case (use st live a b)
  then show ?case by (simp add: pool_inv_use)
next
  case (close st live a)
  then show ?case by (auto simp: pool_inv_def buffer_Close_def)
qed

text \<open>
  While every buffer is closed at most once by its owner, the allocator never hands out a
  buffer that somebody else still holds, and what it hands out is empty and large enough.
\<close>

lemma bufferAllocator_fresh:
  assumes "pool_reach grw st live" and "bufferAllocator grw ch sz st = (Ret a, st')"
    and "\<And>n c. n \<le> grw n c"
  shows "a \<notin> live \<and> bb_data (bp_heap st' a) = [] \<and> nat sz \<le> bb_cap (bp_heap st' a)"
proof -
  obtain st1 where G: "pool_Get ch st = (a, st1)"
    and st': "st' = st1\<lparr>bp_heap := (bp_heap st1)(a := bb_grow grw (nat sz) (bp_heap st1 a))\<rparr>"
    by (rule bufferAllocator_Ret [OF assms(2)])
  from pool_Get_inv [OF pool_reach_inv [OF assms(1)] G] st' assms(3) [of "nat sz"] show ?thesis
    by (auto simp: bb_grow_def)
qed

lemma bufferAllocator_fresh_witness:
  "\<exists>st st'. pool_reach (\<lambda>n c. n) st {0} \<and> bufferAllocator (\<lambda>n c. n) (Some 0) 4 st = (Ret 1, st') \<and>
     (1::nat) \<notin> {0} \<and> bb_data (bp_heap st' 1) = [] \<and> nat 4 \<le> bb_cap (bp_heap st' 1)"
proof -
  let ?g = "\<lambda>n c :: nat. n :: nat"
  let ?s1 = "snd (bufferAllocator ?g None 8 emptyPool)"
  let ?s2 = "snd (bufferAllocator ?g (Some 0) 4 ?s1)"
  have A: "bufferAllocator ?g None 8 emptyPool = (Ret 0, ?s1)"
    by (simp add: bufferAllocator_def pool_Get_def emptyPool_def bb_Grow_def)
  from pool_reach.alloc [OF pool_reach.start A] have R: "pool_reach ?g ?s1 {0}" by simp
  have B: "bufferAllocator ?g (Some 0) 4 ?s1 = (Ret 1, ?s2)"
    by (simp add: bufferAllocator_def pool_Get_def emptyPool_def bb_Grow_def)
  from R B bufferAllocator_fresh [OF R B] show ?thesis by blast
qed

text \<open>
  Closing the same buffer twice breaks this: the next two allocations return the same
  buffer to two owners. Nothing in \<open>Close\<close> guards against it.
\<close>

lemma buffer_double_close_shares:
  "fst (bufferAllocator grw (Some 0) (int n) (buffer_Close a (buffer_Close a st))) = Ret a \<and>
   fst (bufferAllocator grw (Some 0) (int m)
     (snd (bufferAllocator grw (Some 0) (int n) (buffer_Close a (buffer_Close a st))))) = Ret a"
  by (simp add: bufferAllocator_def pool_Get_def buffer_Close_def bb_Grow_def remove_nth_def)

end
