(* ===== verification/Wire_Format.thy ===== *)
theory Wire_Format
  imports Go_Prelude
begin

text \<open>
  The fixed parts of the wire format of \<^verbatim>\<open>src/encoding.go\<close>: big-endian integers as
  \<open>encoding/binary\<close> lays them out, the start lines of requests and responses, and the
  registry of header types.

  Header types are the user's code behind the interface \<open>Headers\<close> (\<^verbatim>\<open>src/server.go\<close>), so
  they are a parameter \<open>H\<close> of the model; the locale \<open>header_codec\<close> names what the
  protocol relies on. The two header types the repository itself registers
  (\<^verbatim>\<open>src/tests/encoding_test.go\<close>) are modelled and shown to meet it.
\<close>

section \<open>Big-endian integers\<close>

fun be_enc :: "nat \<Rightarrow> nat \<Rightarrow> byte list" where
  "be_enc 0 x = []"
| "be_enc (Suc k) x = word_of_nat (x div 256 ^ k) # be_enc k x"

definition be_dec :: "byte list \<Rightarrow> nat" where
  "be_dec bs = foldl (\<lambda>a b. a * 256 + unat b) 0 bs"

definition PutUint32 :: "uint32 \<Rightarrow> byte list" where
  "PutUint32 x = be_enc 4 (unat x)"

definition PutUint64 :: "uint64 \<Rightarrow> byte list" where
  "PutUint64 x = be_enc 8 (unat x)"

definition Uint32 :: "byte list \<Rightarrow> uint32" where
  "Uint32 bs = word_of_nat (be_dec bs)"

definition Uint64 :: "byte list \<Rightarrow> uint64" where
  "Uint64 bs = word_of_nat (be_dec bs)"

section \<open>Start lines\<close>

record requestStartLine =
  q_Service :: uint32
  q_HeaderType :: uint32
  q_HeaderSize :: uint32
  q_ID :: uint64
  q_BodySize :: uint64

record responseStartLine =
  p_ErrorSize :: uint32
  p_HeaderType :: uint32
  p_HeaderSize :: uint32
  p_ID :: uint64
  p_BodySize :: uint64

text \<open>\<open>binary.Size\<close> of both structs.\<close>

definition requestStartLineSize :: nat where "requestStartLineSize = 4 + 4 + 4 + 8 + 8"
definition responseStartLineSize :: nat where "responseStartLineSize = 4 + 4 + 4 + 8 + 8"

text \<open>\<open>binary.Write\<close> and \<open>binary.Read\<close> of the structs: the fields in order, big-endian.\<close>

definition put_request :: "requestStartLine \<Rightarrow> byte list" where
  "put_request l = PutUint32 (q_Service l) @ PutUint32 (q_HeaderType l) @
     PutUint32 (q_HeaderSize l) @ PutUint64 (q_ID l) @ PutUint64 (q_BodySize l)"

definition get_request :: "byte list \<Rightarrow> requestStartLine" where
  "get_request bs = \<lparr>q_Service = Uint32 (take 4 bs), q_HeaderType = Uint32 (take 4 (drop 4 bs)),
     q_HeaderSize = Uint32 (take 4 (drop 8 bs)), q_ID = Uint64 (take 8 (drop 12 bs)),
     q_BodySize = Uint64 (take 8 (drop 20 bs))\<rparr>"

definition put_response :: "responseStartLine \<Rightarrow> byte list" where
  "put_response l = PutUint32 (p_ErrorSize l) @ PutUint32 (p_HeaderType l) @
     PutUint32 (p_HeaderSize l) @ PutUint64 (p_ID l) @ PutUint64 (p_BodySize l)"

definition get_response :: "byte list \<Rightarrow> responseStartLine" where
  "get_response bs = \<lparr>p_ErrorSize = Uint32 (take 4 bs), p_HeaderType = Uint32 (take 4 (drop 4 bs)),
     p_HeaderSize = Uint32 (take 4 (drop 8 bs)), p_ID = Uint64 (take 8 (drop 12 bs)),
     p_BodySize = Uint64 (take 8 (drop 20 bs))\<rparr>"

section \<open>Header types and their registry\<close>

text \<open>
  The user's header types: the dynamic type of a value, \<open>Encode\<close> (the pieces it writes, in
  order, and the count or error it returns) and \<open>Decode\<close> into a value made by the
  constructor.
\<close>

record ('h, 'ty) headers_impl =
  TypeOf :: "'h \<Rightarrow> 'ty"
  hEncode :: "'h \<Rightarrow> byte list list \<times> nat outcome"
  hDecode :: "'h \<Rightarrow> byte list \<Rightarrow> 'h outcome"

text \<open>
  \<open>headersConstructors\<close> and \<open>headersIndexes\<close>; a constructor is the value it makes,
  \<open>None\<close> the nil constructor at index 0.
\<close>

record ('h, 'ty) registry =
  headersConstructors :: "'h option list"
  headersIndexes :: "'ty \<rightharpoonup> uint32"

definition initRegistry :: "('h, 'ty) registry" where
  "initRegistry = \<lparr>headersConstructors = [None], headersIndexes = Map.empty\<rparr>"

definition RegisterHeaders :: "('h, 'ty) headers_impl \<Rightarrow> 'h \<Rightarrow> ('h, 'ty) registry \<Rightarrow> ('h, 'ty) registry" where
  "RegisterHeaders H c reg =
     reg\<lparr>headersIndexes := (headersIndexes reg)(TypeOf H c \<mapsto> word_of_nat (length (headersConstructors reg))),
         headersConstructors := headersConstructors reg @ [Some c]\<rparr>"

definition newHeaders :: "('h, 'ty) registry \<Rightarrow> uint32 \<Rightarrow> 'h option outcome" where
  "newHeaders reg i =
     (if unat i < length (headersConstructors reg) then Ret (headersConstructors reg ! unat i)
      else Panic ''index out of range'')"

definition indexHeaders :: "('h, 'ty) headers_impl \<Rightarrow> ('h, 'ty) registry \<Rightarrow> 'h option \<Rightarrow> uint32" where
  "indexHeaders H reg h =
     (case h of None \<Rightarrow> 0
      | Some v \<Rightarrow> (case headersIndexes reg (TypeOf H v) of None \<Rightarrow> 0 | Some i \<Rightarrow> i))"

text \<open>The registry invariant: every index names a constructor of its type, and index 0 is nil.\<close>

definition reg_wf :: "('h, 'ty) headers_impl \<Rightarrow> ('h, 'ty) registry \<Rightarrow> bool" where
  "reg_wf H reg \<longleftrightarrow>
     headersConstructors reg \<noteq> [] \<and> hd (headersConstructors reg) = None \<and>
     (\<forall>ty i. headersIndexes reg ty = Some i \<longrightarrow>
        0 < unat i \<and> unat i < length (headersConstructors reg) \<and>
        (\<exists>c. headersConstructors reg ! unat i = Some c \<and> TypeOf H c = ty))"

section \<open>The header types of the repository's tests\<close>

datatype test_headers = RequestHeaders uint64 | DataHash "byte list"

datatype test_type = T_RequestHeaders | T_DataHash

fun test_TypeOf :: "test_headers \<Rightarrow> test_type" where
  "test_TypeOf (RequestHeaders _) = T_RequestHeaders"
| "test_TypeOf (DataHash _) = T_DataHash"

fun test_Encode :: "test_headers \<Rightarrow> byte list list \<times> nat outcome" where
  "test_Encode (RequestHeaders k) = ([PutUint64 k], Ret 8)"
| "test_Encode (DataHash h) = ([h], Ret (length h))"

text \<open>\<open>binary.Read\<close> of the key wants eight bytes; the hash wants sixteen.\<close>

fun test_Decode :: "test_headers \<Rightarrow> byte list \<Rightarrow> test_headers outcome" where
  "test_Decode (RequestHeaders _) bs =
     (if 8 \<le> length bs then Ret (RequestHeaders (Uint64 (take 8 bs)))
      else Fail (if bs = [] then EOF else ErrUnexpectedEOF))"
| "test_Decode (DataHash _) bs =
     (if 16 \<le> length bs then Ret (DataHash (take 16 bs)) else Fail (Errorf ''invalid hash''))"

definition testH :: "(test_headers, test_type) headers_impl" where
  "testH = \<lparr>TypeOf = test_TypeOf, hEncode = test_Encode, hDecode = test_Decode\<rparr>"

definition testRegistry :: "(test_headers, test_type) registry" where
  "testRegistry = RegisterHeaders testH (DataHash (replicate 16 0))
     (RegisterHeaders testH (RequestHeaders 0) initRegistry)"

fun test_valid :: "test_headers \<Rightarrow> bool" where
  "test_valid (RequestHeaders _) = True"
| "test_valid (DataHash h) = (length h = 16)"

lemmas wire_defs = PutUint32_def PutUint64_def Uint32_def Uint64_def put_request_def
  get_request_def put_response_def get_response_def requestStartLineSize_def
  responseStartLineSize_def newHeaders_def indexHeaders_def initRegistry_def RegisterHeaders_def
  testH_def testRegistry_def be_dec_def

declare wire_defs [go_run]

section \<open>Round trips of the fixed parts\<close>

lemma length_be_enc [simp, go_len]: "length (be_enc k x) = k"
  by (induction k) auto

lemma be_dec_append: "be_dec (xs @ [b]) = be_dec xs * 256 + unat b"
  by (simp add: be_dec_def)

lemma foldl_be: "foldl (\<lambda>a b. a * 256 + unat b) a (bs :: byte list) = a * 256 ^ length bs + be_dec bs"
proof (induction bs arbitrary: a)
  case Nil
  then show ?case by (simp add: be_dec_def)
next
  case (Cons b bs)
  have "be_dec (b # bs) = unat b * 256 ^ length bs + be_dec bs"
    using Cons [of "unat b"] by (simp add: be_dec_def [of "b # bs"])
  then show ?case using Cons [of "a * 256 + unat b"] by (simp add: algebra_simps)
qed

lemma be_dec_Cons: "be_dec (b # bs) = unat b * 256 ^ length bs + be_dec bs"
  using foldl_be [of "unat b" bs] by (simp add: be_dec_def)

lemma be_dec_enc: "be_dec (be_enc k x) = x mod 256 ^ k"
proof (induction k)
  case 0
  then show ?case by (simp add: be_dec_def)
next
  case (Suc k)
  have "unat (word_of_nat (x div 256 ^ k) :: byte) = x div 256 ^ k mod 256"
    by (simp add: unat_of_nat)
  with Suc mod_mult2_eq [of x "256 ^ k" 256] show ?case
    by (simp add: be_dec_Cons mult.commute)
qed

lemma unat_byte: "unat (b :: byte) < 256"
  using unsigned_less [of b] by simp

lemma unat_mod_32 [simp]: "unat (x :: uint32) mod 4294967296 = unat x"
  and unat_mod_64 [simp]: "unat (y :: uint64) mod 18446744073709551616 = unat y"
proof -
  have "unat x < 2 ^ 32" "unat y < 2 ^ 64"
    using unsigned_less [of x] unsigned_less [of y] by (simp_all del: unsigned_less)
  then show "unat x mod 4294967296 = unat x" "unat y mod 18446744073709551616 = unat y" by simp_all
qed

lemma be_dec_less: "be_dec bs < 256 ^ length bs"
proof (induction bs)
  case Nil
  then show ?case by (simp add: be_dec_def)
next
  case (Cons b bs)
  have "unat b \<le> 255" using unat_byte [of b] by simp
  then have "unat b * 256 ^ length bs \<le> 255 * 256 ^ length bs" by (rule mult_le_mono1)
  with Cons have "unat b * 256 ^ length bs + be_dec bs < 255 * 256 ^ length bs + 256 ^ length bs"
    by linarith
  then show ?case by (simp add: be_dec_Cons)
qed

lemma be_enc_dec: "be_enc (length bs) (be_dec bs + m * 256 ^ length bs) = bs"
proof (induction bs arbitrary: m)
  case Nil
  then show ?case by simp
next
  case (Cons b bs)
  let ?k = "length bs"
  have "(be_dec (b # bs) + m * 256 ^ Suc ?k) div 256 ^ ?k = unat b + 256 * m"
    using be_dec_less [of bs] by (simp add: be_dec_Cons algebra_simps div_add1_eq)
  moreover have "(word_of_nat (unat b + 256 * m) :: byte) = b"
    using unat_byte [of b] by (intro word_unat_eq_iff [THEN iffD2]) (simp only: unat_of_nat, simp)
  moreover have "be_enc ?k (be_dec (b # bs) + m * 256 ^ Suc ?k) = bs"
    using Cons [of "unat b + 256 * m"] by (simp add: be_dec_Cons algebra_simps)
  ultimately show ?case by simp
qed

lemma Uint32_Put [simp]: "Uint32 (PutUint32 x) = x"
  by (simp add: Uint32_def PutUint32_def be_dec_enc)

lemma Uint64_Put [simp]: "Uint64 (PutUint64 x) = x"
  by (simp add: Uint64_def PutUint64_def be_dec_enc)

lemma PutUint32_get: "length bs = 4 \<Longrightarrow> PutUint32 (Uint32 bs) = bs"
  using be_enc_dec [of bs 0] be_dec_less [of bs]
  by (simp add: Uint32_def PutUint32_def unat_of_nat)

lemma PutUint64_get: "length bs = 8 \<Longrightarrow> PutUint64 (Uint64 bs) = bs"
  using be_enc_dec [of bs 0] be_dec_less [of bs]
  by (simp add: Uint64_def PutUint64_def unat_of_nat)

lemma length_Put [simp, go_len]: "length (PutUint32 x) = 4" "length (PutUint64 y) = 8"
  by (simp_all add: PutUint32_def PutUint64_def)

lemma length_put [simp, go_len]:
  "length (put_request l) = requestStartLineSize" "length (put_response m) = responseStartLineSize"
  by (simp_all add: put_request_def put_response_def requestStartLineSize_def responseStartLineSize_def)

lemma split_fields:
  assumes "length bs = 28"
  shows "take 4 bs @ take 4 (drop 4 bs) @ take 4 (drop 8 bs) @ take 8 (drop 12 bs) @
    take 8 (drop 20 bs) = bs"
proof -
  have "take 4 bs @ drop 4 bs = bs" "take 4 (drop 4 bs) @ drop 8 bs = drop 4 bs"
    "take 4 (drop 8 bs) @ drop 12 bs = drop 8 bs" "take 8 (drop 12 bs) @ drop 20 bs = drop 12 bs"
    using append_take_drop_id [of 4 "drop 4 bs"] append_take_drop_id [of 4 "drop 8 bs"]
      append_take_drop_id [of 8 "drop 12 bs"] by simp_all
  moreover have "take 8 (drop 20 bs) = drop 20 bs" using assms by simp
  ultimately show ?thesis by simp
qed

lemma get_put_request [simp]: "get_request (put_request l) = l"
  by (simp add: get_request_def put_request_def)

lemma get_put_response [simp]: "get_response (put_response l) = l"
  by (simp add: get_response_def put_response_def)

text \<open>
  The start lines are a bijection between the structs and byte strings of 28 bytes: what
  is written is read back, and every 28 bytes read are the encoding of what was read.
\<close>

lemma start_lines_bijective:
  "get_request (put_request l) = l \<and> get_response (put_response m) = m \<and>
   length (put_request l) = 28 \<and> length (put_response m) = 28 \<and>
   (length bs = 28 \<longrightarrow> put_request (get_request bs) = bs \<and> put_response (get_response bs) = bs)"
proof -
  have "put_request (get_request bs) = bs" "put_response (get_response bs) = bs" if "length bs = 28"
    using split_fields [OF that] that
    by (simp_all add: put_request_def get_request_def put_response_def get_response_def
        PutUint32_get PutUint64_get)
  then show ?thesis by (simp add: requestStartLineSize_def responseStartLineSize_def)
qed

lemma start_lines_bijective_witness:
  "put_request (get_request (replicate 28 1)) = replicate 28 (1 :: byte)"
  using start_lines_bijective [of "get_request []" "get_response []" "replicate 28 1"]
  unfolding length_replicate by blast

section \<open>The registry\<close>

lemma initRegistry_wf: "reg_wf H initRegistry"
  by (simp add: reg_wf_def initRegistry_def)

lemma unat_word_of_nat_32: "n < 2 ^ 32 \<Longrightarrow> unat (word_of_nat n :: uint32) = n"
  by (simp add: unat_of_nat)

lemma RegisterHeaders_wf:
  assumes wf: "reg_wf H reg" and len: "length (headersConstructors reg) < 2 ^ 32"
  shows "reg_wf H (RegisterHeaders H c reg)"
proof -
  have "unat (word_of_nat (length (headersConstructors reg)) :: uint32) = length (headersConstructors reg)"
    using unat_word_of_nat_32 [OF len] .
  moreover have "0 < length (headersConstructors reg)" using wf by (simp add: reg_wf_def)
  ultimately show ?thesis
    using wf by (auto simp: reg_wf_def RegisterHeaders_def nth_append less_SucI split: if_splits)
qed

lemma indexHeaders_wf:
  assumes "reg_wf H reg" and "indexHeaders H reg (Some h) \<noteq> 0"
  shows "\<exists>c. newHeaders reg (indexHeaders H reg (Some h)) = Ret (Some c) \<and> TypeOf H c = TypeOf H h"
  using assms by (fastforce simp: reg_wf_def indexHeaders_def newHeaders_def split: option.splits)

lemma newHeaders_0: "reg_wf H reg \<Longrightarrow> newHeaders reg 0 = Ret None"
  by (cases "headersConstructors reg") (auto simp: reg_wf_def newHeaders_def)

lemma indexHeaders_None [simp]: "indexHeaders H reg None = 0"
  by (simp add: indexHeaders_def)

section \<open>What the protocol relies on of header types\<close>

text \<open>
  \<open>Encode\<close> reports the number of bytes it wrote, and \<open>Decode\<close> of those bytes into a
  fresh value of the same type gives the value back.
\<close>

locale header_codec =
  fixes H :: "('h, 'ty) headers_impl" and valid :: "'h \<Rightarrow> bool"
  assumes encode: "valid h \<Longrightarrow> \<exists>ps. hEncode H h = (ps, Ret (length (concat ps)))"
    and decode: "valid h \<Longrightarrow> hEncode H h = (ps, Ret n) \<Longrightarrow> TypeOf H c = TypeOf H h \<Longrightarrow>
      hDecode H c (concat ps) = Ret h"

text \<open>A header codec together with a well-formed registry.\<close>

locale registered_codec = header_codec H valid
  for H :: "('h, 'ty) headers_impl" and valid +
  fixes reg :: "('h, 'ty) registry"
  assumes reg_wf: "reg_wf H reg"
begin

lemma header_roundtrip:
  assumes "valid h" "indexHeaders H reg (Some h) \<noteq> 0"
  shows "\<exists>ps c. hEncode H h = (ps, Ret (length (concat ps))) \<and>
    newHeaders reg (indexHeaders H reg (Some h)) = Ret (Some c) \<and> hDecode H c (concat ps) = Ret h"
  using encode [OF assms(1)] decode [OF assms(1)] indexHeaders_wf [OF reg_wf assms(2)] by blast

end

interpretation test: registered_codec testH test_valid testRegistry
proof
  fix h
  assume "test_valid h"
  then show "\<exists>ps. hEncode testH h = (ps, Ret (length (concat ps)))"
    by (cases h) (auto simp: testH_def)
next
  fix h ps n c
  assume "test_valid h" "hEncode testH h = (ps, Ret n)" "TypeOf testH c = TypeOf testH h"
  then show "hDecode testH c (concat ps) = Ret h"
    by (cases h; cases c) (auto simp: testH_def)
next
  show "reg_wf testH testRegistry"
    unfolding testRegistry_def
    by (intro RegisterHeaders_wf initRegistry_wf) (simp_all add: RegisterHeaders_def initRegistry_def)
qed

end
