(* ===== verification/Splice_Pool.thy ===== *)
theory Splice_Pool
  imports Go_Prelude
begin

text \<open>
  Package \<^verbatim>\<open>src/splice\<close>: pipe pairs (\<^verbatim>\<open>pair.go\<close>, \<^verbatim>\<open>pair_linux.go\<close>, \<^verbatim>\<open>splice.go\<close>,
  \<^verbatim>\<open>splice_linux.go\<close>), the pool of pairs (\<^verbatim>\<open>pool.go\<close>) and the file copy built on them
  (\<^verbatim>\<open>copy.go\<close>).

  The operating system is not part of the sources. Its answers to the system calls are a list
  that the model consumes in order, one answer per call: \<open>KOk n\<close> is a call that returned
  \<open>n\<close>, \<open>KPipe r w\<close> a successful \<open>pipe2\<close>, \<open>KErr e\<close> a failure. When the list is
  used up every further call fails with \<open>EIO\<close>. A theorem that holds for all such lists
  holds whatever the kernel answers.
\<close>

section \<open>System calls\<close>

datatype kres = KOk nat | KPipe nat nat | KErr errno

type_synonym kernel = "kres list"

fun kcall :: "kernel \<Rightarrow> kres \<times> kernel" where
  "kcall [] = (KErr EIO, [])"
| "kcall (k # ks) = (k, ks)"

text \<open>A call that returns a number: \<open>pipe2\<close>'s answer does not fit it and counts as a failure.\<close>

definition ksize :: "kernel \<Rightarrow> nat outcome \<times> kernel" where
  "ksize ks =
     (case kcall ks of
        (KOk n, ks') \<Rightarrow> (Ret n, ks')
      | (KErr e, ks') \<Rightarrow> (Fail (Errno e), ks')
      | (KPipe _ _, ks') \<Rightarrow> (Fail (Errno EIO), ks'))"

section \<open>Pipe pairs\<close>

text \<open>
  A pair has its two descriptors, its size as the program believes it, and the bytes that
  are in the pipe; \<open>pr_open\<close> records whether the descriptors are open.
\<close>

record Pair =
  pr_r :: nat
  pr_w :: nat
  pr_size :: int
  pr_bytes :: "byte list"
  pr_open :: bool

text \<open>The package variables set by \<open>init\<close>.\<close>

record spliceEnv =
  resizable :: bool
  maxPipeSize :: int

definition DefaultPipeSize :: int where "DefaultPipeSize = 16 * 4096"

definition osPipe :: "kernel \<Rightarrow> (nat \<times> nat) outcome \<times> kernel" where
  "osPipe ks =
     (case kcall ks of
        (KPipe r w, ks') \<Rightarrow> (Ret (r, w), ks')
      | (KErr e, ks') \<Rightarrow> (Fail (Errno e), ks')
      | (KOk _, ks') \<Rightarrow> (Fail (Errno EIO), ks'))"

text \<open>
  \<open>newSplicePair\<close>. After \<open>osPipe\<close> the variable \<open>err\<close> is nil, so the test
  \<open>err == syscall.EINVAL\<close> is false whatever \<open>fcntl\<close> answered; its error is in
  \<open>errNo\<close>.
\<close>

definition newSplicePair :: "kernel \<Rightarrow> Pair outcome \<times> kernel" where
  "newSplicePair ks =
     (case osPipe ks of
        (Fail e, ks1) \<Rightarrow> (Fail e, ks1)
      | (Panic s, ks1) \<Rightarrow> (Panic s, ks1)
      | (Ret (r, w), ks1) \<Rightarrow>
          (case ksize ks1 of
             (Ret sz, ks2) \<Rightarrow>
               (Ret \<lparr>pr_r = r, pr_w = w, pr_size = int sz, pr_bytes = [], pr_open = True\<rparr>, ks2)
           | (_, ks2) \<Rightarrow> (Fail (Errorf ''fcntl getsize''), ks2)))"

definition Grow :: "spliceEnv \<Rightarrow> int \<Rightarrow> kernel \<Rightarrow> Pair \<Rightarrow> unit outcome \<times> kernel \<times> Pair" where
  "Grow env n ks p =
     (if n \<le> pr_size p then (Ret (), ks, p)
      else if \<not> resizable env then (Fail (Errorf ''splice: not resizable''), ks, p)
      else if n > maxPipeSize env then (Fail (Errorf ''splice: max pipe size''), ks, p)
      else case ksize ks of
          (Ret sz, ks') \<Rightarrow> (Ret (), ks', p\<lparr>pr_size := int sz\<rparr>)
        | (_, ks') \<Rightarrow> (Fail (Errorf ''splice: fcntl returned''), ks', p))"

text \<open>\<open>MaxGrow\<close> loops until \<open>Grow\<close> fails; \<open>None\<close> is a loop that does not end.\<close>

partial_function (option) MaxGrow :: "spliceEnv \<Rightarrow> kernel \<Rightarrow> Pair \<Rightarrow> (kernel \<times> Pair) option" where
  "MaxGrow env ks p =
     (case Grow env (2 * pr_size p) ks p of
        (Ret _, ks', p') \<Rightarrow> MaxGrow env ks' p'
      | (_, ks', p') \<Rightarrow> Some (ks', p'))"

definition pair_Close :: "Pair \<Rightarrow> Pair" where
  "pair_Close p = p\<lparr>pr_open := False\<rparr>"

text \<open>
  \<open>LoadFromAt\<close>/\<open>LoadFrom\<close>: the size check, then one \<open>splice\<close> into the pipe. The bytes
  come from \<open>src\<close>; the kernel moves at most \<open>sz\<close> of them and at most what is there.
  The result is the number moved and the source that is left.
\<close>

definition LoadFrom :: "int \<Rightarrow> kernel \<Rightarrow> byte list \<Rightarrow> Pair \<Rightarrow>
    nat outcome \<times> kernel \<times> byte list \<times> Pair" where
  "LoadFrom sz ks src p =
     (if sz > pr_size p then (Fail (Errorf ''LoadFrom: not enough space''), ks, src, p)
      else case ksize ks of
          (Ret k, ks') \<Rightarrow>
            let n = min k (min (nat sz) (length src))
            in (Ret n, ks', drop n src, p\<lparr>pr_bytes := pr_bytes p @ take n src\<rparr>)
        | (Fail e, ks') \<Rightarrow> (Fail e, ks', src, p)
        | (Panic s, ks') \<Rightarrow> (Panic s, ks', src, p))"

text \<open>\<open>WriteTo\<close>: one \<open>splice\<close> out of the pipe; the bytes moved are returned.\<close>

definition WriteTo :: "nat \<Rightarrow> kernel \<Rightarrow> Pair \<Rightarrow> byte list outcome \<times> kernel \<times> Pair" where
  "WriteTo n ks p =
     (case ksize ks of
        (Ret k, ks') \<Rightarrow>
          let m = min k (min n (length (pr_bytes p)))
          in (Ret (take m (pr_bytes p)), ks', p\<lparr>pr_bytes := drop m (pr_bytes p)\<rparr>)
      | (Fail e, ks') \<Rightarrow> (Fail e, ks', p)
      | (Panic s, ks') \<Rightarrow> (Panic s, ks', p))"

text \<open>
  \<open>discard\<close>: one \<open>splice\<close> of at most \<open>size\<close> bytes to \<^verbatim>\<open>/dev/null\<close>. \<open>EAGAIN\<close> (an
  empty pipe) is fine, any other error closes both ends and panics.
\<close>

definition discard :: "kernel \<Rightarrow> Pair \<Rightarrow> unit outcome \<times> kernel \<times> Pair" where
  "discard ks p =
     (case WriteTo (nat (pr_size p)) ks p of
        (Ret _, ks', p') \<Rightarrow> (Ret (), ks', p')
      | (Fail e, ks', p') \<Rightarrow>
          if e = Errno EAGAIN then (Ret (), ks', p')
          else (Panic ''splicing into /dev/null'', ks', pair_Close p')
      | (Panic s, ks', p') \<Rightarrow> (Panic s, ks', p'))"

section \<open>The pool of pairs\<close>

text \<open>
  Pairs are shared by pointer: \<open>pp_heap\<close> is the store, \<open>unused\<close> the slice of pointers,
  \<open>pp_next\<close> the next pointer a new pair gets. Every operation runs under the pool's mutex,
  so each is one step.
\<close>

record pairPool =
  unused :: "nat list"
  usedCount :: int
  pp_heap :: "nat \<Rightarrow> Pair"
  pp_next :: nat

definition newSplicePairPool :: pairPool where
  "newSplicePairPool = \<lparr>unused = [], usedCount = 0,
     pp_heap = (\<lambda>_. \<lparr>pr_r = 0, pr_w = 0, pr_size = 0, pr_bytes = [], pr_open = False\<rparr>),
     pp_next = 0\<rparr>"

definition pool_get :: "kernel \<Rightarrow> pairPool \<Rightarrow> nat outcome \<times> kernel \<times> pairPool" where
  "pool_get ks pp =
     (let pp1 = pp\<lparr>usedCount := usedCount pp + 1\<rparr> in
      if unused pp \<noteq> [] then (Ret (last (unused pp)), ks, pp1\<lparr>unused := butlast (unused pp)\<rparr>)
      else case newSplicePair ks of
          (Ret p, ks') \<Rightarrow>
            (Ret (pp_next pp), ks', pp1\<lparr>pp_heap := (pp_heap pp)(pp_next pp := p),
                                       pp_next := Suc (pp_next pp)\<rparr>)
        | (Fail e, ks') \<Rightarrow> (Fail e, ks', pp1)
        | (Panic s, ks') \<Rightarrow> (Panic s, ks', pp1))"

definition pool_done :: "nat \<Rightarrow> kernel \<Rightarrow> pairPool \<Rightarrow> unit outcome \<times> kernel \<times> pairPool" where
  "pool_done a ks pp =
     (case discard ks (pp_heap pp a) of
        (Ret _, ks', p) \<Rightarrow>
          (Ret (), ks', pp\<lparr>pp_heap := (pp_heap pp)(a := p), usedCount := usedCount pp - 1,
                          unused := unused pp @ [a]\<rparr>)
      | (Fail e, ks', p) \<Rightarrow> (Fail e, ks', pp\<lparr>pp_heap := (pp_heap pp)(a := p)\<rparr>)
      | (Panic s, ks', p) \<Rightarrow> (Panic s, ks', pp\<lparr>pp_heap := (pp_heap pp)(a := p)\<rparr>))"

definition pool_drop :: "nat \<Rightarrow> pairPool \<Rightarrow> pairPool" where
  "pool_drop a pp =
     pp\<lparr>pp_heap := (pp_heap pp)(a := pair_Close (pp_heap pp a)), usedCount := usedCount pp - 1\<rparr>"

definition pool_clear :: "pairPool \<Rightarrow> pairPool" where
  "pool_clear pp =
     pp\<lparr>pp_heap := (\<lambda>a. if a \<in> set (unused pp) then pair_Close (pp_heap pp a) else pp_heap pp a),
        unused := []\<rparr>"

definition pool_used :: "pairPool \<Rightarrow> int" where
  "pool_used pp = usedCount pp"

definition pool_total :: "pairPool \<Rightarrow> int" where
  "pool_total pp = usedCount pp + int (length (unused pp))"

text \<open>
  The pool under its usage rule: \<open>held\<close> are the pairs handed out; only a held pair is used,
  returned or dropped, and \<open>failed\<close> counts the calls to \<open>get\<close> that returned an error.
\<close>

inductive pairs_reach :: "pairPool \<Rightarrow> nat set \<Rightarrow> nat \<Rightarrow> bool" where
  start: "pairs_reach newSplicePairPool {} 0"
| get: "pairs_reach pp held failed \<Longrightarrow> pool_get ks pp = (Ret a, ks', pp') \<Longrightarrow>
    pairs_reach pp' (insert a held) failed"
| get_fails: "pairs_reach pp held failed \<Longrightarrow> pool_get ks pp = (Fail e, ks', pp') \<Longrightarrow>
    pairs_reach pp' held (Suc failed)"
| use: "pairs_reach pp held failed \<Longrightarrow> a \<in> held \<Longrightarrow> pr_open p = pr_open (pp_heap pp a) \<Longrightarrow>
    pairs_reach (pp\<lparr>pp_heap := (pp_heap pp)(a := p)\<rparr>) held failed"
| give_back: "pairs_reach pp held failed \<Longrightarrow> a \<in> held \<Longrightarrow> pool_done a ks pp = (Ret (), ks', pp') \<Longrightarrow>
    pairs_reach pp' (held - {a}) failed"
| drop_pair: "pairs_reach pp held failed \<Longrightarrow> a \<in> held \<Longrightarrow>
    pairs_reach (pool_drop a pp) (held - {a}) failed"
| clear: "pairs_reach pp held failed \<Longrightarrow> pairs_reach (pool_clear pp) held failed"

definition pairs_inv :: "pairPool \<Rightarrow> nat set \<Rightarrow> nat \<Rightarrow> bool" where
  "pairs_inv pp held failed \<longleftrightarrow> distinct (unused pp) \<and> finite held \<and>
     set (unused pp) \<inter> held = {} \<and> set (unused pp) \<union> held \<subseteq> {..<pp_next pp} \<and>
     usedCount pp = int (card held) + int failed \<and>
     (\<forall>a \<in> set (unused pp) \<union> held. pr_open (pp_heap pp a))"

section \<open>Copying files\<close>

text \<open>
  \<open>SpliceCopy\<close>: load up to the pipe's size from the source, write what was loaded, stop at a
  short load, at a short write or at an error. The source is the bytes of the file that are
  left, \<open>dst\<close> what has been written. A failed \<open>splice\<close> returns \<open>-1\<close> bytes with its
  error, and the code adds that to the total before it looks at the error. Each round takes
  bytes from the source or ends, which bounds the loop.
\<close>

function SpliceCopy :: "kernel \<Rightarrow> byte list \<Rightarrow> byte list \<Rightarrow> int \<Rightarrow> Pair \<Rightarrow>
    (int \<times> goerr option) \<times> kernel \<times> byte list \<times> Pair" where
  "SpliceCopy ks src dst tot p =
     (case LoadFrom (pr_size p) ks src p of
        (Fail e, ks1, _, p1) \<Rightarrow> ((tot, Some e), ks1, dst, p1)
      | (Panic s, ks1, _, p1) \<Rightarrow> ((tot, Some (Errorf s)), ks1, dst, p1)
      | (Ret n, ks1, src1, p1) \<Rightarrow>
          if n = 0 then ((tot, None), ks1, dst, p1)
          else case WriteTo n ks1 p1 of
              (Fail e, ks2, p2) \<Rightarrow> ((tot - 1, Some e), ks2, dst, p2)
            | (Panic s, ks2, p2) \<Rightarrow> ((tot - 1, Some (Errorf s)), ks2, dst, p2)
            | (Ret bs, ks2, p2) \<Rightarrow>
                if length bs < n then ((tot + int (length bs), None), ks2, dst @ bs, p2)
                else if int n < pr_size p2 then ((tot + int (length bs), None), ks2, dst @ bs, p2)
                else SpliceCopy ks2 src1 (dst @ bs) (tot + int (length bs)) p2)"
  by pat_completeness auto
termination
proof (relation "measure (\<lambda>(ks, src, dst, tot, p). length src)", goal_cases)
  case 1
  show ?case by simp
next
  case (2 ks src dst tot p)
  then show ?case
    by (auto simp: LoadFrom_def Let_def split: if_splits outcome.splits prod.splits)
qed

declare SpliceCopy.simps [simp del]

text \<open>
  \<open>CopyFds\<close>: a pair from the pool, grown if the kernel allows it, the copy, and the pair
  back to the pool. The result of \<open>Grow\<close> and the number of bytes are ignored.
\<close>

definition CopyFds :: "spliceEnv \<Rightarrow> kernel \<Rightarrow> byte list \<Rightarrow> byte list \<Rightarrow> pairPool \<Rightarrow>
    unit outcome \<times> kernel \<times> byte list \<times> pairPool" where
  "CopyFds env ks src dst pp =
     (case pool_get ks pp of
        (Fail e, ks1, pp1) \<Rightarrow> (Fail e, ks1, dst, pp1)
      | (Panic s, ks1, pp1) \<Rightarrow> (Panic s, ks1, dst, pp1)
      | (Ret a, ks1, pp1) \<Rightarrow>
          (case Grow env (256 * 1024) ks1 (pp_heap pp1 a) of
             (_, ks2, p) \<Rightarrow>
               (case SpliceCopy ks2 src dst 0 p of
                  ((_, e), ks3, dst', p') \<Rightarrow>
                    (case pool_done a ks3 (pp1\<lparr>pp_heap := (pp_heap pp1)(a := p')\<rparr>) of
                       (Ret _, ks4, pp2) \<Rightarrow>
                         (case e of None \<Rightarrow> Ret () | Some err \<Rightarrow> Fail err, ks4, dst', pp2)
                     | (Fail err, ks4, pp2) \<Rightarrow> (Fail err, ks4, dst', pp2)
                     | (Panic s, ks4, pp2) \<Rightarrow> (Panic s, ks4, dst', pp2)))))"

section \<open>Growing a pair\<close>

lemma Grow_Ret:
  assumes "Grow env n ks p = (Ret u, ks', p')" "pr_size p < n"
  shows "\<exists>k. ks = KOk k # ks' \<and> p' = p\<lparr>pr_size := int k\<rparr> \<and> n \<le> maxPipeSize env"
  using assms
  by (cases ks) (auto simp: Grow_def ksize_def split: if_splits kres.splits)

lemma Grow_stays: "n \<le> pr_size p \<Longrightarrow> Grow env n ks p = (Ret (), ks, p)"
  by (simp add: Grow_def)

text \<open>
  The kernel's contract for \<open>F_SETPIPE_SZ\<close>: it answers with the new size, which is at least
  the requested one. \<open>honoured ks s\<close> says so for the requests \<open>MaxGrow\<close> makes, twice the
  current size each time.
\<close>

fun honoured :: "kernel \<Rightarrow> int \<Rightarrow> bool" where
  "honoured [] s = True"
| "honoured (KOk n # ks) s = (2 * s \<le> int n \<and> honoured ks (int n))"
| "honoured (_ # ks) s = True"

lemma MaxGrow_bound:
  assumes "0 < pr_size p" "honoured ks (pr_size p)"
  shows "\<exists>ks' p'. MaxGrow env ks p = Some (ks', p') \<and> pr_size p \<le> pr_size p' \<and>
     fst (Grow env (2 * pr_size p') [] p') \<noteq> Ret () \<and> length ks' \<le> length ks \<and>
     (length ks - length ks' \<le> 1 \<or> pr_size p * 2 ^ (length ks - length ks' - 1) \<le> maxPipeSize env)"
  using assms
proof (induction ks arbitrary: p rule: length_induct)
  case (1 ks)
  let ?n = "2 * pr_size p"
  obtain x ks1 p1 where G: "Grow env ?n ks p = (x, ks1, p1)" by (cases "Grow env ?n ks p")
  have lt: "pr_size p < ?n" using "1.prems" by simp
  show ?case
  proof (cases x)
    case (Ret u)
    with G Grow_Ret [OF _ lt] obtain k where
      k: "ks = KOk k # ks1" "p1 = p\<lparr>pr_size := int k\<rparr>" "?n \<le> maxPipeSize env" by blast
    with "1.prems" have h: "0 < pr_size p1" "honoured ks1 (pr_size p1)" "?n \<le> pr_size p1" by auto
    from "1.IH" k(1) h(1,2) obtain ks' p' where
      IH: "MaxGrow env ks1 p1 = Some (ks', p')" "pr_size p1 \<le> pr_size p'"
      "fst (Grow env (2 * pr_size p') [] p') \<noteq> Ret ()" "length ks' \<le> length ks1"
      "length ks1 - length ks' \<le> 1 \<or> pr_size p1 * 2 ^ (length ks1 - length ks' - 1) \<le> maxPipeSize env"
      by (metis impossible_Cons linorder_not_le)
    have "MaxGrow env ks p = Some (ks', p')"
      using G Ret IH(1) by (simp add: MaxGrow.simps [of env ks p])
    moreover have "pr_size p * 2 ^ (length ks - length ks' - 1) \<le> maxPipeSize env"
      if c: "\<not> length ks - length ks' \<le> 1"
    proof (cases "length ks1 - length ks' \<le> 1")
      case True
      with c k(1) have "length ks - length ks' - 1 = 1" by simp
      with k(3) show ?thesis by (simp add: mult.commute)
    next
      case False
      with k(1) have e: "length ks - length ks' - 1 = Suc (length ks1 - length ks' - 1)" by simp
      have "?n * 2 ^ (length ks1 - length ks' - 1) \<le> pr_size p1 * 2 ^ (length ks1 - length ks' - 1)"
        using h(3) by (rule mult_right_mono) simp
      also have "\<dots> \<le> maxPipeSize env" using IH(5) False by blast
      finally show ?thesis unfolding e by simp
    qed
    ultimately show ?thesis using IH h k(1) lt by (intro exI [of _ ks'] exI [of _ p']) auto
  next
    case (Fail e)
    with G have "MaxGrow env ks p = Some (ks1, p1)" by (simp add: MaxGrow.simps [of env ks p])
    moreover from G Fail lt have "p1 = p" "length ks1 \<le> length ks" "length ks - length ks1 \<le> 1"
      "fst (Grow env ?n [] p) \<noteq> Ret ()"
      by (cases ks; auto simp: Grow_def ksize_def split: if_splits kres.splits)+
    ultimately show ?thesis by auto
  next
    case (Panic s)
    with G lt show ?thesis
      by (cases ks) (auto simp: Grow_def ksize_def split: if_splits kres.splits)
  qed
qed



section \<open>The pool\<close>

lemma butlast_snoc_last: "xs \<noteq> [] \<Longrightarrow> distinct xs \<Longrightarrow> set (butlast xs) = set xs - {last xs}"
  by (induction xs rule: rev_induct) auto

lemma int_card_remove: "finite A \<Longrightarrow> a \<in> A \<Longrightarrow> int (card A - Suc 0) = int (card A) - 1"
  using card_gt_0_iff [of A] by auto

lemma newSplicePair_open: "newSplicePair ks = (Ret p, ks') \<Longrightarrow> pr_open p \<and> pr_bytes p = []"
  by (auto simp: newSplicePair_def split: outcome.splits prod.splits)

lemma pool_get_inv:
  assumes inv: "pairs_inv pp held failed" and G: "pool_get ks pp = (Ret a, ks', pp')"
  shows "a \<notin> held \<and> pr_open (pp_heap pp' a) \<and> pairs_inv pp' (insert a held) failed"
proof (cases "unused pp = []")
  case True
  with G obtain p where p: "newSplicePair ks = (Ret p, ks')" "a = pp_next pp"
    "pp' = pp\<lparr>usedCount := usedCount pp + 1, pp_heap := (pp_heap pp)(pp_next pp := p),
             pp_next := Suc (pp_next pp)\<rparr>"
    by (auto simp: pool_get_def Let_def split: outcome.splits prod.splits)
  moreover have "pp_next pp \<notin> held" using inv by (auto simp: pairs_inv_def)
  ultimately show ?thesis
    using inv newSplicePair_open [OF p(1)] True by (auto simp: pairs_inv_def less_SucI)
next
  case False
  with G have p: "a = last (unused pp)"
    "pp' = pp\<lparr>usedCount := usedCount pp + 1, unused := butlast (unused pp)\<rparr>"
    by (auto simp: pool_get_def Let_def)
  have l: "last (unused pp) \<in> set (unused pp)" using False by simp
  with inv have "last (unused pp) \<notin> held" by (auto simp: pairs_inv_def)
  with l p inv butlast_snoc_last [OF False] distinct_butlast show ?thesis
    by (auto simp: pairs_inv_def)
qed

lemma discard_open: "discard ks p = (Ret u, ks', p') \<Longrightarrow> pr_open p' = pr_open p"
  by (auto simp: discard_def WriteTo_def Let_def split: outcome.splits prod.splits if_splits)

lemma pool_done_Ret:
  assumes "pool_done a ks pp = (Ret (), ks', pp')"
  obtains p where "pr_open p = pr_open (pp_heap pp a)"
    "pp' = pp\<lparr>pp_heap := (pp_heap pp)(a := p), usedCount := usedCount pp - 1, unused := unused pp @ [a]\<rparr>"
proof -
  obtain x k p where D: "discard ks (pp_heap pp a) = (x, k, p)" by (cases "discard ks (pp_heap pp a)")
  with assms have "x = Ret ()" by (cases x) (auto simp: pool_done_def)
  with assms D discard_open [of ks "pp_heap pp a"] that [of p] show ?thesis by (simp add: pool_done_def)
qed

lemma pool_done_unused:
  assumes "pool_done a ks pp = (Ret (), ks', pp')"
  shows "unused pp' = unused pp @ [a]" "usedCount pp' = usedCount pp - 1"
  by (rule pool_done_Ret [OF assms], simp)+

lemma pairs_reach_inv: "pairs_reach pp held failed \<Longrightarrow> pairs_inv pp held failed"
proof (induction rule: pairs_reach.induct)
  case start
  show ?case by (simp add: pairs_inv_def newSplicePairPool_def)
next
  case (get pp held failed ks a ks' pp')
  then show ?case using pool_get_inv by blast
next
  case (get_fails pp held failed ks e ks' pp')
  then show ?case
    by (auto simp: pairs_inv_def pool_get_def Let_def split: if_splits outcome.splits prod.splits)
next
  case (use pp held failed a p)
  then show ?case by (auto simp: pairs_inv_def)
next
  case (give_back pp held failed a ks ks' pp')
  obtain p where "pr_open p = pr_open (pp_heap pp a)" "pp' = pp\<lparr>pp_heap := (pp_heap pp)(a := p),
      usedCount := usedCount pp - 1, unused := unused pp @ [a]\<rparr>"
    by (rule pool_done_Ret [OF give_back.hyps(3)])
  with give_back show ?case by (auto simp: pairs_inv_def int_card_remove)
next
  case (drop_pair pp held failed a)
  then show ?case
    by (auto simp: pairs_inv_def pool_drop_def int_card_remove)
next
  case (clear pp held failed)
  then show ?case by (auto simp: pairs_inv_def pool_clear_def)
qed



text \<open>
  Returning the same pair twice breaks this: when \<open>Done\<close> succeeds both times, the next
  two calls to \<open>get\<close> return the same pair, so two streams share one pipe, and \<open>Used()\<close>
  has been lowered twice.
\<close>

lemma pool_double_done_shares:
  assumes "pool_done a ks pp = (Ret (), ks1, pp1)" and "pool_done a ks1 pp1 = (Ret (), ks2, pp2)"
  shows "\<exists>pp3 pp4. pool_get ks2 pp2 = (Ret a, ks2, pp3) \<and> pool_get ks2 pp3 = (Ret a, ks2, pp4) \<and>
    pool_used pp2 = pool_used pp - 2"
proof -
  from pool_done_unused [OF assms(1)] pool_done_unused [OF assms(2)] show ?thesis
    by (simp add: pool_get_def pool_used_def Let_def butlast_append)
qed

lemma pool_double_done_shares_witness:
  "\<exists>pp2 pp3 pp4. pool_get [] pp2 = (Ret 0, [], pp3) \<and> pool_get [] pp3 = (Ret 0, [], pp4)"
proof -
  let ?pp = newSplicePairPool
  let ?ks = "[KOk 0, KErr EAGAIN]" and ?pp1 = "snd (snd (pool_done 0 [KOk 0, KErr EAGAIN] ?pp))"
  let ?pp2 = "snd (snd (pool_done 0 [KErr EAGAIN] ?pp1))"
  have "pool_done 0 ?ks ?pp = (Ret (), [KErr EAGAIN], ?pp1)"
    "pool_done 0 [KErr EAGAIN] ?pp1 = (Ret (), [], ?pp2)"
    by (simp_all add: pool_done_def discard_def WriteTo_def ksize_def newSplicePairPool_def)
  from pool_double_done_shares [OF this] show ?thesis by blast
qed

section \<open>Copying\<close>

lemma LoadFrom_Ret:
  assumes "LoadFrom sz ks src p = (Ret n, ks', src', p')"
  shows "n \<le> length src \<and> src' = drop n src \<and> pr_bytes p' = pr_bytes p @ take n src \<and>
    pr_size p' = pr_size p \<and> length ks' < length ks"
proof -
  from assms obtain k where "\<not> pr_size p < sz" "ksize ks = (Ret k, ks')"
    by (auto simp: LoadFrom_def Let_def split: if_splits outcome.splits prod.splits)
  then show ?thesis using assms
    by (cases ks) (auto simp: LoadFrom_def Let_def ksize_def split: kres.splits)
qed

lemma LoadFrom_le: "LoadFrom sz ks src p = (Ret n, ks', src', p') \<Longrightarrow> n \<le> nat sz"
  by (auto simp: LoadFrom_def Let_def split: if_splits outcome.splits prod.splits)

lemma LoadFrom_progress:
  assumes "LoadFrom sz ks src p = (Ret n, ks', src', p')" "KOk 0 \<notin> set ks" "src \<noteq> []" "0 < sz"
  shows "0 < n"
  using assms
  by (cases ks) (auto simp: LoadFrom_def ksize_def Let_def split: if_splits kres.splits)

lemma LoadFrom_kernel: "LoadFrom sz ks src p = (x, ks', src', p') \<Longrightarrow> set ks' \<subseteq> set ks"
  by (cases ks) (auto simp: LoadFrom_def ksize_def Let_def split: if_splits kres.splits)

lemma LoadFrom_Fail: "LoadFrom sz ks src p = (Fail e, ks', src', p') \<Longrightarrow> src' = src \<and> p' = p"
  by (auto simp: LoadFrom_def Let_def split: if_splits outcome.splits prod.splits)

lemma WriteTo_progress:
  assumes "WriteTo n ks p = (Ret bs, ks', p')" "KOk 0 \<notin> set ks" "pr_bytes p \<noteq> []" "0 < n"
  shows "bs \<noteq> []"
  using assms
  by (cases ks) (auto simp: WriteTo_def ksize_def Let_def min_def split: kres.splits if_splits)

lemma WriteTo_kernel: "WriteTo n ks p = (x, ks', p') \<Longrightarrow> set ks' \<subseteq> set ks"
  by (cases ks) (auto simp: WriteTo_def ksize_def Let_def split: kres.splits)

lemma WriteTo_Fail: "WriteTo n ks p = (Fail e, ks', p') \<Longrightarrow> p' = p"
  by (auto simp: WriteTo_def Let_def split: outcome.splits prod.splits)

lemma ksize_no_panic [simp]: "ksize ks \<noteq> (Panic s, z)"
  by (cases ks) (auto simp: ksize_def split: kres.splits)

lemma LoadFrom_no_panic [simp]: "LoadFrom sz ks src p \<noteq> (Panic s, z)"
  by (auto simp: LoadFrom_def Let_def split: outcome.splits prod.splits)

lemma WriteTo_no_panic [simp]: "WriteTo n ks p \<noteq> (Panic s, z)"
  by (auto simp: WriteTo_def Let_def split: outcome.splits prod.splits)

lemma WriteTo_Ret:
  assumes "WriteTo n ks p = (Ret bs, ks', p')"
  shows "bs = take (length bs) (pr_bytes p) \<and> length bs \<le> n \<and>
    pr_bytes p' = drop (length bs) (pr_bytes p) \<and> pr_size p' = pr_size p"
  using assms by (auto simp: WriteTo_def Let_def split: outcome.splits prod.splits)

lemma SpliceCopy_prefix:
  assumes "SpliceCopy ks src dst tot p = ((t, e), ks', dst', p')" "pr_bytes p = []"
  shows "\<exists>m \<le> length src. dst' = dst @ take m src \<and>
    (t = tot + int m \<or> e \<noteq> None \<and> t = tot + int m - 1)"
  using assms
proof (induction ks src dst tot p arbitrary: t rule: SpliceCopy.induct)
  case (1 ks src dst tot p)
  obtain x ks1 src1 p1 where L: "LoadFrom (pr_size p) ks src p = (x, ks1, src1, p1)"
    by (cases "LoadFrom (pr_size p) ks src p")
  note S = "1.prems"(1) [unfolded SpliceCopy.simps [of ks src dst tot p] L]
  show ?case
  proof (cases "\<exists>n. x = Ret n \<and> n \<noteq> 0")
    case False
    then show ?thesis using S by (cases x) auto
  next
    case True
    then obtain n where n: "x = Ret n" "n \<noteq> 0" by blast
    note L' = L [unfolded n(1)]
    note lf = LoadFrom_Ret [OF L']
    obtain y ks2 p2 where W: "WriteTo n ks1 p1 = (y, ks2, p2)" by (cases "WriteTo n ks1 p1")
    show ?thesis
    proof (cases y)
      case (Ret bs)
      note W' = W [unfolded Ret]
      note wt = WriteTo_Ret [OF W']
      have p1: "pr_bytes p1 = take n src" using lf "1.prems"(2) by simp
      show ?thesis
      proof (cases "length bs < n \<or> int n < pr_size p2")
        case True
        then have "dst' = dst @ bs" "t = tot + int (length bs)" using S n W Ret by (auto split: if_splits)
        moreover have "bs = take (length bs) src" using wt p1 by (metis min.absorb1 take_take)
        ultimately show ?thesis using wt lf by (metis order_trans)
      next
        case False
        then have len: "length bs = n" using wt by simp
        have bs: "bs = take n src" using wt p1 len by (metis take_take min.idem)
        have "SpliceCopy ks2 src1 (dst @ bs) (tot + int (length bs)) p2 = ((t, e), ks', dst', p')"
          using S n W Ret False by simp
        moreover have "pr_bytes p2 = []" using wt p1 len lf by simp
        ultimately have "\<exists>m \<le> length src1. dst' = (dst @ bs) @ take m src1 \<and>
            (t = tot + int (length bs) + int m \<or> e \<noteq> None \<and> t = tot + int (length bs) + int m - 1)"
          using "1.IH" [OF L [symmetric] n(1) refl refl n(2) W [symmetric] Ret refl] False
          by auto
        then obtain m where m: "m \<le> length src1" "dst' = (dst @ bs) @ take m src1" 
            "t = tot + int (length bs) + int m \<or> e \<noteq> None \<and> t = tot + int (length bs) + int m - 1"
          by blast
        have "dst' = dst @ take (n + m) src" using m(2) bs lf by (simp add: take_add)
        with m len lf show ?thesis by (intro exI [of _ "n + m"]) auto
      qed
    qed (use S n W in \<open>auto intro!: exI [of _ 0]\<close>)
  qed
qed

text \<open>
  A kernel that moves as much as it is asked to: every answer is at least the pipe's size.
\<close>

definition moves_all :: "int \<Rightarrow> kernel \<Rightarrow> bool" where
  "moves_all sz ks \<longleftrightarrow> (\<forall>k \<in> set ks. case k of KOk m \<Rightarrow> sz \<le> int m | _ \<Rightarrow> False)"

lemma moves_all_Cons:
  "moves_all sz (k # ks) \<longleftrightarrow> (\<exists>m. k = KOk m \<and> sz \<le> int m) \<and> moves_all sz ks"
  by (auto simp: moves_all_def split: kres.splits)

lemma SpliceCopy_all:
  assumes "0 < pr_size p" "pr_bytes p = []" "moves_all (pr_size p) ks" "2 * length src < length ks"
  shows "\<exists>ks' p'. SpliceCopy ks src dst tot p = ((tot + int (length src), None), ks', dst @ src, p') \<and>
    moves_all (pr_size p) ks' \<and> length ks \<le> length ks' + 2 * length src + 1"
  using assms
proof (induction src arbitrary: ks dst tot p rule: length_induct)
  case (1 src)
  define n where "n = min (nat (pr_size p)) (length src)"
  obtain k ks1 where ks: "ks = k # ks1" using "1.prems"(4) by (cases ks) auto
  obtain m where k: "k = KOk m" "nat (pr_size p) \<le> m" and all1: "moves_all (pr_size p) ks1"
    using "1.prems"(3) ks by (auto simp: moves_all_Cons)
  define p1 where "p1 = p\<lparr>pr_bytes := take n src\<rparr>"
  have L: "LoadFrom (pr_size p) ks src p = (Ret n, ks1, drop n src, p1)"
    using k(2) "1.prems"(2) by (simp add: LoadFrom_def ks k(1) ksize_def n_def p1_def min_def Let_def)
  show ?case
  proof (cases "src = []")
    case True
    then have "n = 0" by (simp add: n_def)
    then show ?thesis using L True all1 by (simp add: SpliceCopy.simps [of ks]) (simp add: ks)
  next
    case False
    then have n0: "0 < n" using "1.prems"(1) by (simp add: n_def)
    have "2 < length ks" using False "1.prems"(4) by (cases src) auto
    then obtain k2 ks2 where ks1: "ks1 = k2 # ks2" using ks by (cases ks1) auto
    obtain m2 where k2: "k2 = KOk m2" "n \<le> m2" and all2: "moves_all (pr_size p) ks2"
      using all1 ks1 by (auto simp: moves_all_Cons n_def)
    have len: "length (take n src) = n" by (simp add: n_def)
    have W: "WriteTo n ks1 p1 = (Ret (take n src), ks2, p)"
      using k2(2) len "1.prems"(2)
      by (simp add: WriteTo_def ks1 k2(1) ksize_def p1_def Let_def min_absorb2)
    show ?thesis
    proof (cases "int n < pr_size p")
      case True
      then have "n = length src" by (simp add: n_def split: if_splits)
      with True show ?thesis using L W n0 all2 by (simp add: SpliceCopy.simps [of ks]) (simp add: ks ks1 Suc_le_eq)
    next
      case full: False
      have "n \<le> length src" by (simp add: n_def)
      then have "2 * length (drop n src) < length ks2" using "1.prems"(4) n0 ks ks1 by simp
      moreover have "length (drop n src) < length src" using n0 False by simp
      ultimately obtain ks' p' where "SpliceCopy ks2 (drop n src) (dst @ take n src) (tot + int n) p =
          ((tot + int n + int (length (drop n src)), None), ks', (dst @ take n src) @ drop n src, p')"
        "moves_all (pr_size p) ks'" "length ks2 \<le> length ks' + 2 * length (drop n src) + 1"
        using "1.IH" "1.prems"(1,2) all2 by blast
      moreover have "n \<le> length src" by (simp add: n_def)
      moreover have "length ks = length ks2 + 2" by (simp add: ks ks1 Suc_le_eq)
      ultimately show ?thesis using L W n0 full by (simp add: SpliceCopy.simps [of ks])
    qed
  qed
qed

text \<open>
  \<open>SpliceCopy\<close> writes a prefix of the source and reports its length (one less when a
  write failed); with a kernel that moves what it is asked to, it copies the whole source,
  returns its length and no error.
\<close>

lemma SpliceCopy_copies:
  assumes "0 < pr_size p" "pr_bytes p = []"
  shows "(SpliceCopy ks src [] 0 p = ((t, e), ks', dst', p') \<longrightarrow>
      (\<exists>m \<le> length src. dst' = take m src \<and> (t = int m \<or> e \<noteq> None \<and> t = int m - 1))) \<and>
    (moves_all (pr_size p) ks \<and> 2 * length src < length ks \<longrightarrow>
      (\<exists>ks' p'. SpliceCopy ks src [] 0 p = ((int (length src), None), ks', src, p')))"
proof -
  have "\<exists>m \<le> length src. dst' = take m src \<and> (t = int m \<or> e \<noteq> None \<and> t = int m - 1)"
    if "SpliceCopy ks src [] 0 p = ((t, e), ks', dst', p')"
    using SpliceCopy_prefix [OF that assms(2)] by simp
  moreover have "\<exists>ks' p'. SpliceCopy ks src [] 0 p = ((int (length src), None), ks', src, p')"
    if "moves_all (pr_size p) ks \<and> 2 * length src < length ks"
    using SpliceCopy_all [OF assms, of ks src "[]" 0] that by auto
  ultimately show ?thesis by blast
qed

lemma SpliceCopy_copies_witness:
  "\<exists>ks' p'. SpliceCopy (replicate 8 (KOk 4)) [1, 2, 3] [] 0
      \<lparr>pr_r = 3, pr_w = 4, pr_size = 2, pr_bytes = [], pr_open = True\<rparr> = ((3, None), ks', [1, 2, 3], p')"
proof -
  let ?p = "\<lparr>pr_r = 3, pr_w = 4, pr_size = 2, pr_bytes = [], pr_open = True\<rparr>"
  have "0 < pr_size ?p" "pr_bytes ?p = []" by simp_all
  from SpliceCopy_copies [OF this, of "replicate 8 (KOk 4)" "[1, 2, 3]" 0 None "[]" "[]" ?p] show ?thesis
    by (simp add: moves_all_def)
qed

text \<open>
  A short write is not reported: \<open>SpliceCopy\<close> returns fewer bytes than it read and no
  error, and the bytes that were loaded but not written stay in the pipe.
\<close>

lemma SpliceCopy_short_write:
  "SpliceCopy [KOk 3, KOk 2] [1, 2, 3] [] 0
      \<lparr>pr_r = 3, pr_w = 4, pr_size = 8, pr_bytes = [], pr_open = True\<rparr> =
   ((2, None), [], [1, 2], \<lparr>pr_r = 3, pr_w = 4, pr_size = 8, pr_bytes = [3], pr_open = True\<rparr>)"
  by (simp add: SpliceCopy.simps LoadFrom_def WriteTo_def ksize_def)

end
