(* ===== verification/Body_Splice.thy ===== *)
theory Body_Splice
  imports Splice_Pool Byte_Buffer
begin

text \<open>
  Message bodies and their zero-copy path, \<^verbatim>\<open>src/body.go\<close>. A body is read from an
  \<open>io.ReadCloser\<close> whose dynamic type decides how it is sent: a pipe, a file, a connection
  or a buffer is spliced through a pipe pair, anything else is copied.

  The pool of pairs, the package variables, the page size and the kernel's answers form the
  world \<open>spliceWorld\<close> that the operations thread. \<open>sw_rawok\<close> is whether
  \<open>SyscallConn()\<close> of the connections in use succeeds.
\<close>

section \<open>State\<close>

datatype reader_kind = KindPipe | KindFile | KindConn | KindBuffer | KindOther

text \<open>
  A body reader: what \<open>Read\<close> delivers, and for the splice path the file's bytes, the
  buffer's slices or the pipe's pair (a pointer that may be nil). \<open>br_closed\<close> counts the
  calls to \<open>Close\<close> of a reader that is not a pipe.
\<close>

record bodyReader =
  br_kind :: reader_kind
  br_src :: reader
  br_file :: "byte list"
  br_iov :: "byte list list"
  br_pair :: "nat option"
  br_closed :: nat

record Body =
  b_Offset :: uint64
  b_Size :: uint64
  b_Reader :: "bodyReader option"
  b_NotClose :: bool

record spliceWorld =
  sw_env :: spliceEnv
  sw_page :: int
  sw_rawok :: bool
  sw_pool :: pairPool
  sw_kernel :: kernel

definition emptyBody :: Body where
  "emptyBody = \<lparr>b_Offset = 0, b_Size = 0, b_Reader = None, b_NotClose = False\<rparr>"

definition body_Reset :: "Body \<Rightarrow> Body" where
  "body_Reset b = b\<lparr>b_Offset := 0, b_Size := 0, b_Reader := None, b_NotClose := False\<rparr>"

section \<open>Operations\<close>

text \<open>\<open>(*Pipe).Close\<close> gives the pair back to the pool; the pointer stays in the pipe.\<close>

definition pipe_Close :: "nat option \<Rightarrow> spliceWorld \<Rightarrow> unit outcome \<times> spliceWorld" where
  "pipe_Close pr wd =
     (case pr of
        None \<Rightarrow> (Ret (), wd)
      | Some a \<Rightarrow>
          (case pool_done a (sw_kernel wd) (sw_pool wd) of
             (x, ks, pp) \<Rightarrow> (x, wd\<lparr>sw_kernel := ks, sw_pool := pp\<rparr>)))"

definition reader_Close :: "bodyReader \<Rightarrow> spliceWorld \<Rightarrow> unit outcome \<times> bodyReader \<times> spliceWorld" where
  "reader_Close r wd =
     (if br_kind r = KindPipe
      then (case pipe_Close (br_pair r) wd of (x, wd') \<Rightarrow> (x, r, wd'))
      else (Ret (), r\<lparr>br_closed := Suc (br_closed r)\<rparr>, wd))"

definition body_Close :: "Body \<Rightarrow> spliceWorld \<Rightarrow> unit outcome \<times> Body \<times> spliceWorld" where
  "body_Close b wd =
     (case b_Reader b of
        None \<Rightarrow> (Ret (), b, wd)
      | Some r \<Rightarrow>
          if b_NotClose b then (Ret (), b, wd)
          else (case reader_Close r wd of (x, r', wd') \<Rightarrow> (x, b\<lparr>b_Reader := Some r'\<rparr>, wd')))"

text \<open>
  \<open>alignSize\<close> on the machine's \<open>int\<close>: Go's \<open>%\<close> takes the sign of the dividend, and the
  sum wraps at 64 bits.
\<close>

definition wrap64 :: "int \<Rightarrow> int" where
  "wrap64 x = sint (word_of_int x :: uint64)"

definition go_rem :: "int \<Rightarrow> int \<Rightarrow> int" where
  "go_rem a b = sgn a * (\<bar>a\<bar> mod \<bar>b\<bar>)"

definition alignSize :: "int \<Rightarrow> int \<Rightarrow> int" where
  "alignSize page sz = wrap64 (wrap64 (sz + page) - go_rem sz page)"

text \<open>
  The common start of \<open>PipeFile\<close>, \<open>PipeConn\<close> and \<open>PipeBuffer\<close>: take a pair and grow
  it to twice the aligned size. When \<open>Grow\<close> fails the pair is neither returned nor dropped.
\<close>

definition get_grown :: "int \<Rightarrow> spliceWorld \<Rightarrow> nat outcome \<times> spliceWorld" where
  "get_grown sz wd =
     (case pool_get (sw_kernel wd) (sw_pool wd) of
        (Fail e, ks, pp) \<Rightarrow> (Fail (Wrap e ''get pipe pair''), wd\<lparr>sw_kernel := ks, sw_pool := pp\<rparr>)
      | (Panic s, ks, pp) \<Rightarrow> (Panic s, wd\<lparr>sw_kernel := ks, sw_pool := pp\<rparr>)
      | (Ret a, ks, pp) \<Rightarrow>
          (case Grow (sw_env wd) (wrap64 (alignSize (sw_page wd) sz * 2)) ks (pp_heap pp a) of
             (Ret _, ks', p) \<Rightarrow>
               (Ret a, wd\<lparr>sw_kernel := ks', sw_pool := pp\<lparr>pp_heap := (pp_heap pp)(a := p)\<rparr>\<rparr>)
           | (Fail e, ks', p) \<Rightarrow>
               (Fail (Wrap e ''grow pipe pair''),
                wd\<lparr>sw_kernel := ks', sw_pool := pp\<lparr>pp_heap := (pp_heap pp)(a := p)\<rparr>\<rparr>)
           | (Panic s, ks', p) \<Rightarrow>
               (Panic s, wd\<lparr>sw_kernel := ks', sw_pool := pp\<lparr>pp_heap := (pp_heap pp)(a := p)\<rparr>\<rparr>)))"

text \<open>
  \<open>PipeFile\<close>: one load at the body's offset; how much it moved is ignored. Refusing a
  negative offset is up to the kernel, so it is one of its answers.
\<close>

definition PipeFile :: "byte list \<Rightarrow> int \<Rightarrow> int \<Rightarrow> spliceWorld \<Rightarrow> nat outcome \<times> spliceWorld" where
  "PipeFile file offset sz wd =
     (case get_grown sz wd of
        (Ret a, wd1) \<Rightarrow>
          (case LoadFrom sz (sw_kernel wd1) (drop (nat offset) file) (pp_heap (sw_pool wd1) a) of
             (x, ks, _, p) \<Rightarrow>
               (case x of Ret _ \<Rightarrow> Ret a | Fail e \<Rightarrow> Fail (Wrap e ''pair load file'') | Panic s \<Rightarrow> Panic s,
                wd1\<lparr>sw_kernel := ks,
                    sw_pool := (sw_pool wd1)\<lparr>pp_heap := (pp_heap (sw_pool wd1))(a := p)\<rparr>\<rparr>))
      | x \<Rightarrow> x)"

text \<open>
  The loop of \<open>PipeConn\<close>: splice from the connection until \<open>size\<close> bytes are in the pipe.
  \<open>EINTR\<close> and \<open>EAGAIN\<close> try again (after waiting for the descriptor), another error
  ends it, and so does a call that moves nothing, with no error. \<open>src\<close> is what the
  connection still delivers.
\<close>

function load_loop :: "int \<Rightarrow> kernel \<Rightarrow> nat \<Rightarrow> byte list \<Rightarrow> Pair \<Rightarrow>
    goerr option \<times> kernel \<times> nat \<times> byte list \<times> Pair" where
  "load_loop sz ks loaded src p =
     (if int loaded = sz then (None, ks, loaded, src, p)
      else case LoadFrom (sz - int loaded) ks src p of
          (Ret n, ks', src', p') \<Rightarrow>
            if 0 < n then load_loop sz ks' (loaded + n) src' p'
            else (None, ks', loaded, src', p')
        | (Fail e, ks', src', p') \<Rightarrow>
            if e = Errno EINTR \<or> e = Errno EAGAIN then load_loop sz ks' loaded src' p'
            else (Some e, ks', loaded, src', p')
        | (Panic s, ks', src', p') \<Rightarrow> (Some (Errorf s), ks', loaded, src', p'))"
  by pat_completeness auto
termination
proof (relation "measure (\<lambda>(sz, ks, loaded, src, p). length ks)", goal_cases)
  case 1
  show ?case by simp
next
  case (2 sz ks loaded src p x y n ks' rest src' p')
  then have "LoadFrom (sz - int loaded) ks src p = (Ret n, ks', src', p')" by simp
  from LoadFrom_Ret [OF this] show ?case by simp
next
  case (3 sz ks loaded src p)
  then show ?case
    by (cases ks) (auto simp: LoadFrom_def ksize_def Let_def
        split: if_splits outcome.splits prod.splits kres.splits)
qed

declare load_loop.simps [simp del]

definition PipeConn :: "int \<Rightarrow> byte list \<Rightarrow> spliceWorld \<Rightarrow> nat outcome \<times> byte list \<times> spliceWorld" where
  "PipeConn sz src wd =
     (case get_grown sz wd of
        (Ret a, wd1) \<Rightarrow>
          if \<not> sw_rawok wd1 then (Fail (Wrap (Errno EINVAL) ''get raw conn''), src, wd1)
          else (case load_loop sz (sw_kernel wd1) 0 src (pp_heap (sw_pool wd1) a) of
             (e, ks, _, src', p) \<Rightarrow>
               (case e of None \<Rightarrow> Ret a | Some e \<Rightarrow> Fail (Wrap e ''pair load file''),
                src',
                wd1\<lparr>sw_kernel := ks,
                    sw_pool := (sw_pool wd1)\<lparr>pp_heap := (pp_heap (sw_pool wd1))(a := p)\<rparr>\<rparr>))
      | (Fail e, wd1) \<Rightarrow> (Fail e, src, wd1)
      | (Panic s, wd1) \<Rightarrow> (Panic s, src, wd1))"

text \<open>The loop of \<open>PipeBuffer\<close>: one \<open>write\<close> per slice; how much it wrote is ignored.\<close>

fun write_iov :: "byte list list \<Rightarrow> kernel \<Rightarrow> Pair \<Rightarrow> goerr option \<times> kernel \<times> Pair" where
  "write_iov [] ks p = (None, ks, p)"
| "write_iov (xs # xss) ks p =
     (case ksize ks of
        (Ret n, ks') \<Rightarrow> write_iov xss ks' (p\<lparr>pr_bytes := pr_bytes p @ take n xs\<rparr>)
      | (Fail e, ks') \<Rightarrow> (Some e, ks', p)
      | (Panic s, ks') \<Rightarrow> (Some (Errorf s), ks', p))"

definition PipeBuffer :: "byte list list \<Rightarrow> int \<Rightarrow> spliceWorld \<Rightarrow> nat outcome \<times> spliceWorld" where
  "PipeBuffer iov sz wd =
     (case get_grown sz wd of
        (Ret a, wd1) \<Rightarrow>
          (case write_iov iov (sw_kernel wd1) (pp_heap (sw_pool wd1) a) of
             (e, ks, p) \<Rightarrow>
               (case e of None \<Rightarrow> Ret a | Some e \<Rightarrow> Fail (Wrap e ''pair load buffer''),
                wd1\<lparr>sw_kernel := ks,
                    sw_pool := (sw_pool wd1)\<lparr>pp_heap := (pp_heap (sw_pool wd1))(a := p)\<rparr>\<rparr>))
      | x \<Rightarrow> x)"

text \<open>
  The loop of \<open>spliceTo\<close>: splice from the pipe to the connection until the body's size is
  reached. It has the same exits as the loading loop.
\<close>

function splice_out :: "nat \<Rightarrow> kernel \<Rightarrow> nat \<Rightarrow> Pair \<Rightarrow> writer \<Rightarrow>
    goerr option \<times> kernel \<times> nat \<times> Pair \<times> writer" where
  "splice_out sz ks written p w =
     (if written = sz then (None, ks, written, p, w)
      else case WriteTo (sz - written) ks p of
          (Ret bs, ks', p') \<Rightarrow>
            if bs \<noteq> [] then
              splice_out sz ks' (written + length bs) p' (w\<lparr>wsent := wsent w @ bs\<rparr>)
            else (None, ks', written, p', w)
        | (Fail e, ks', p') \<Rightarrow>
            if e = Errno EINTR \<or> e = Errno EAGAIN then splice_out sz ks' written p' w
            else (Some e, ks', written, p', w)
        | (Panic s, ks', p') \<Rightarrow> (Some (Errorf s), ks', written, p', w))"
  by pat_completeness auto
termination
proof (relation "measure (\<lambda>(sz, ks, written, p, w). length ks)", goal_cases)
  case 1
  show ?case by simp
next
  case (2 sz ks written p w)
  then show ?case
    by (cases ks) (auto simp: WriteTo_def ksize_def Let_def split: outcome.splits prod.splits kres.splits)
next
  case (3 sz ks written p w)
  then show ?case
    by (cases ks) (auto simp: WriteTo_def ksize_def Let_def split: outcome.splits prod.splits kres.splits)
qed

declare splice_out.simps [simp del]

text \<open>The pipe a body is sent through, by the dynamic type of its reader.\<close>

definition body_pipe :: "Body \<Rightarrow> bodyReader \<Rightarrow> spliceWorld \<Rightarrow>
    nat option outcome \<times> bodyReader \<times> spliceWorld" where
  "body_pipe b r wd =
     (case br_kind r of
        KindPipe \<Rightarrow> (Ret (br_pair r), r, wd)
      | KindFile \<Rightarrow>
          (case PipeFile (br_file r) (int64_of (b_Offset b)) (int64_of (b_Size b)) wd of
             (Ret a, wd') \<Rightarrow> (Ret (Some a), r, wd')
           | (Fail e, wd') \<Rightarrow> (Fail e, r, wd') | (Panic s, wd') \<Rightarrow> (Panic s, r, wd'))
      | KindConn \<Rightarrow>
          (case PipeConn (int64_of (b_Size b)) (rbytes (br_src r)) wd of
             (x, src, wd') \<Rightarrow>
               (case x of Ret a \<Rightarrow> Ret (Some a) | Fail e \<Rightarrow> Fail e | Panic s \<Rightarrow> Panic s,
                r\<lparr>br_src := (br_src r)\<lparr>rchunks := [src]\<rparr>\<rparr>, wd'))
      | KindBuffer \<Rightarrow>
          (case PipeBuffer (br_iov r) (int64_of (b_Size b)) wd of
             (Ret a, wd') \<Rightarrow> (Ret (Some a), r, wd')
           | (Fail e, wd') \<Rightarrow> (Fail e, r, wd') | (Panic s, wd') \<Rightarrow> (Panic s, r, wd'))
      | KindOther \<Rightarrow> (Fail (Errorf ''not spliceable''), r, wd))"

text \<open>
  \<open>spliceTo\<close>: whether the body was spliced, the error, and the states after it. A failure
  to load is answered by \<open>(false, nil)\<close>, so that the caller copies instead. The deferred
  \<open>pipe.Close()\<close> runs on every path that reached the loop.
\<close>

definition spliceTo :: "Body \<Rightarrow> writer \<Rightarrow> spliceWorld \<Rightarrow>
    (bool \<times> goerr option) outcome \<times> Body \<times> writer \<times> spliceWorld" where
  "spliceTo b w wd =
     (if \<not> wconn w \<or> \<not> sw_rawok wd then (Ret (False, None), b, w, wd)
      else case b_Reader b of
          None \<Rightarrow> (Ret (False, None), b, w, wd)
        | Some r \<Rightarrow>
            (case body_pipe b r wd of
               (Panic s, r', wd1) \<Rightarrow> (Panic s, b\<lparr>b_Reader := Some r'\<rparr>, w, wd1)
             | (Fail _, r', wd1) \<Rightarrow> (Ret (False, None), b\<lparr>b_Reader := Some r'\<rparr>, w, wd1)
             | (Ret None, r', wd1) \<Rightarrow> (Ret (True, if b_Size b = 0 then None else Some EOF), b\<lparr>b_Reader := Some r'\<rparr>, w, wd1)
             | (Ret (Some a), r', wd1) \<Rightarrow>
                 (case splice_out (unat (b_Size b)) (sw_kernel wd1) 0 (pp_heap (sw_pool wd1) a) w of
                    (e, ks, _, p, w') \<Rightarrow>
                      (case pipe_Close (Some a)
                          (wd1\<lparr>sw_kernel := ks,
                               sw_pool := (sw_pool wd1)\<lparr>pp_heap := (pp_heap (sw_pool wd1))(a := p)\<rparr>\<rparr>) of
                         (Panic s, wd2) \<Rightarrow> (Panic s, b\<lparr>b_Reader := Some r'\<rparr>, w', wd2)
                       | (_, wd2) \<Rightarrow> (Ret (True, e), b\<lparr>b_Reader := Some r'\<rparr>, w', wd2)))))"

section \<open>Sizes\<close>

lemma wrap64_id: "- (2 ^ 63) \<le> x \<Longrightarrow> x < 2 ^ 63 \<Longrightarrow> wrap64 x = x"
  by (simp add: wrap64_def signed_of_int signed_take_bit_int_eq_self)

text \<open>
  \<open>alignSize\<close> returns a multiple of the page size strictly above the size (a whole page
  more when the size is already aligned), as long as the sum fits into 63 bits.
\<close>

lemma alignSize_bounds:
  assumes "0 \<le> sz" "0 < page" "sz + page < 2 ^ 63"
  shows "page dvd alignSize page sz \<and> sz < alignSize page sz \<and> alignSize page sz \<le> sz + page"
proof -
  have r: "go_rem sz page = sz mod page"
    using assms by (cases "sz = 0") (auto simp: go_rem_def)
  have m: "0 \<le> sz mod page" "sz mod page < page" using assms by simp_all
  have "wrap64 (sz + page) = sz + page" using assms by (intro wrap64_id) auto
  moreover have "wrap64 (sz + page - sz mod page) = sz + page - sz mod page"
    using assms m by (intro wrap64_id) auto
  ultimately have a: "alignSize page sz = sz + page - sz mod page" by (simp add: alignSize_def r)
  have "page dvd sz - sz mod page" by (simp add: minus_mod_eq_mult_div)
  then have "page dvd (sz - sz mod page) + page" by simp
  then show ?thesis using m by (simp add: a algebra_simps)
qed

lemma alignSize_bounds_witness:
  "(4096 :: int) dvd alignSize 4096 4096 \<and> 4096 < alignSize 4096 4096 \<and> alignSize 4096 4096 \<le> 8192"
  using alignSize_bounds [of 4096 4096] by simp

section \<open>The loops conserve bytes\<close>

lemma load_loop_done: "load_loop (int l) ks l src p = (None, ks, l, src, p)"
  by (simp add: load_loop.simps [of "int l"])

lemma load_loop_spec:
  assumes "load_loop sz ks l src p = (e, ks', l', src', p')" "int l \<le> sz"
  shows "l \<le> l' \<and> int l' \<le> sz \<and> l' - l \<le> length src \<and> src' = drop (l' - l) src \<and>
    pr_bytes p' = pr_bytes p @ take (l' - l) src \<and> pr_size p' = pr_size p \<and> set ks' \<subseteq> set ks \<and>
    (e = None \<and> KOk 0 \<notin> set ks \<and> sz \<le> int (l + length src) \<longrightarrow> int l' = sz)"
  using assms
proof (induction sz ks l src p rule: load_loop.induct)
  case (1 sz ks l src p)
  show ?case
  proof (cases "int l = sz")
    case True
    with "1.prems" show ?thesis by (auto simp: load_loop.simps [of sz ks])
  next
    case False
    obtain x ks1 src1 p1 where L: "LoadFrom (sz - int l) ks src p = (x, ks1, src1, p1)"
      by (cases "LoadFrom (sz - int l) ks src p")
    note S = "1.prems"(1) [unfolded load_loop.simps [of sz ks] L]
    note K = LoadFrom_kernel [OF L]
    show ?thesis
    proof (cases x)
      case (Ret n)
      note L' = L [unfolded Ret]
      note lf = LoadFrom_Ret [OF L'] LoadFrom_le [OF L']
      have ge: "int (l + n) \<le> sz" using lf "1.prems"(2) by auto
      show ?thesis
      proof (cases "0 < n")
        case True
        with S False Ret have S': "load_loop sz ks1 (l + n) src1 p1 = (e, ks', l', src', p')" by simp
        note IH = "1.IH"(1) [OF False L [symmetric] Ret refl refl True S' ge]
        have sp: "take (l' - l) src = take n src @ take (l' - (l + n)) (drop n src)"
          "drop (l' - l) src = drop (l' - (l + n)) (drop n src)"
          using IH take_add [of n "l' - (l + n)" src] by auto
        from IH lf K sp show ?thesis by (auto simp: subset_iff)
      next
        case n0: False
        have "\<not> (KOk 0 \<notin> set ks \<and> sz \<le> int (l + length src))"
          using LoadFrom_progress [OF L'] n0 False "1.prems"(2) by (cases "src = []") auto
        with S False Ret n0 lf K "1.prems"(2) show ?thesis by auto
      qed
    next
      case (Fail err)
      note lf = LoadFrom_Fail [OF L [unfolded Fail]]
      show ?thesis
      proof (cases "err = Errno EINTR \<or> err = Errno EAGAIN")
        case True
        with S False Fail have S': "load_loop sz ks1 l src1 p1 = (e, ks', l', src', p')" by simp
        note IH = "1.IH"(2) [OF False L [symmetric] Fail refl refl True S' "1.prems"(2)]
        from IH lf K show ?thesis by (auto simp: subset_iff)
      next
        case no: False
        with S False Fail lf K "1.prems"(2) show ?thesis by auto
      qed
    next
      case (Panic s)
      with L show ?thesis by simp
    qed
  qed
qed

lemma splice_out_spec:
  assumes "splice_out sz ks l p w = (e, ks', l', p', w')" "l \<le> sz"
  shows "l \<le> l' \<and> l' \<le> sz \<and> l' - l \<le> length (pr_bytes p) \<and>
    wsent w' = wsent w @ take (l' - l) (pr_bytes p) \<and> pr_bytes p' = drop (l' - l) (pr_bytes p) \<and>
    wlimit w' = wlimit w \<and> werr w' = werr w \<and> wconn w' = wconn w \<and> pr_open p' = pr_open p \<and>
    (e = None \<and> KOk 0 \<notin> set ks \<and> sz \<le> l + length (pr_bytes p) \<longrightarrow> l' = sz)"
  using assms
proof (induction sz ks l p w rule: splice_out.induct)
  case (1 sz ks l p w)
  show ?case
  proof (cases "l = sz")
    case True
    with "1.prems" show ?thesis by (auto simp: splice_out.simps [of sz ks])
  next
    case False
    obtain x ks1 p1 where W: "WriteTo (sz - l) ks p = (x, ks1, p1)" by (cases "WriteTo (sz - l) ks p")
    note S = "1.prems"(1) [unfolded splice_out.simps [of sz ks] W]
    note K = WriteTo_kernel [OF W]
    show ?thesis
    proof (cases x)
      case (Ret bs)
      note W' = W [unfolded Ret]
      note wt = WriteTo_Ret [OF W']
      have op: "pr_open p1 = pr_open p"
        using W' by (auto simp: WriteTo_def Let_def split: outcome.splits prod.splits)
      have ge: "l + length bs \<le> sz" using wt "1.prems"(2) by auto
      have lb: "length bs \<le> length (pr_bytes p)"
        using wt by (metis length_take min.cobounded1)
      show ?thesis
      proof (cases "bs \<noteq> []")
        case True
        with S False Ret have S': "splice_out sz ks1 (l + length bs) p1 (w\<lparr>wsent := wsent w @ bs\<rparr>) =
            (e, ks', l', p', w')" by simp
        note IH = "1.IH"(1) [OF False W [symmetric] Ret refl True S' ge]
        have tk: "take (l' - l) (pr_bytes p) = bs @ take (l' - (l + length bs)) (pr_bytes p1)"
          using IH wt take_add [of "length bs" "l' - (l + length bs)" "pr_bytes p"] by auto
        have dr: "drop (l' - l) (pr_bytes p) = drop (l' - (l + length bs)) (pr_bytes p1)"
          using IH wt by auto
        have len: "length (pr_bytes p1) = length (pr_bytes p) - length bs" using wt by simp
        from IH K tk dr len op lb show ?thesis by (auto simp: subset_iff)
      next
        case no: False
        have "\<not> (KOk 0 \<notin> set ks \<and> sz \<le> l + length (pr_bytes p))"
          using WriteTo_progress [OF W'] no False "1.prems"(2) by (cases "pr_bytes p = []") auto
        with S False Ret no wt op "1.prems"(2) show ?thesis by auto
      qed
    next
      case (Fail err)
      note wt = WriteTo_Fail [OF W [unfolded Fail]]
      show ?thesis
      proof (cases "err = Errno EINTR \<or> err = Errno EAGAIN")
        case True
        with S False Fail have S': "splice_out sz ks1 l p1 w = (e, ks', l', p', w')" by simp
        note IH = "1.IH"(2) [OF False W [symmetric] Fail refl True S' "1.prems"(2)]
        from IH wt K show ?thesis by (auto simp: subset_iff)
      next
        case no: False
        with S False Fail wt "1.prems"(2) show ?thesis by auto
      qed
    next
      case (Panic s)
      with W show ?thesis by simp
    qed
  qed
qed

section \<open>Loading a connection, sending a body\<close>

text \<open>No pooled pair holds bytes of an earlier use.\<close>

definition pool_clean :: "pairPool \<Rightarrow> bool" where
  "pool_clean pp \<longleftrightarrow> (\<forall>a \<in> set (unused pp). pr_bytes (pp_heap pp a) = [])"

lemma kcall_kernel: "kcall ks = (k, ks') \<Longrightarrow> set ks' \<subseteq> set ks"
  by (cases ks) auto

lemma ksize_kernel: "ksize ks = (x, ks') \<Longrightarrow> set ks' \<subseteq> set ks"
  by (cases ks) (auto simp: ksize_def split: kres.splits)

lemma newSplicePair_kernel: "newSplicePair ks = (x, ks') \<Longrightarrow> set ks' \<subseteq> set ks"
  by (auto simp: newSplicePair_def osPipe_def
      split: outcome.splits prod.splits kres.splits dest!: kcall_kernel ksize_kernel)

lemma pool_get_clean:
  assumes "pool_clean pp" "pool_get ks pp = (Ret a, ks', pp')"
  shows "pr_bytes (pp_heap pp' a) = [] \<and> set ks' \<subseteq> set ks"
proof (cases "unused pp = []")
  case True
  with assms(2) obtain p where "newSplicePair ks = (Ret p, ks')" "pp_heap pp' a = p"
    by (auto simp: pool_get_def Let_def split: outcome.splits prod.splits)
  with newSplicePair_open newSplicePair_kernel show ?thesis by blast
next
  case False
  with assms show ?thesis by (auto simp: pool_get_def pool_clean_def Let_def)
qed

lemma Grow_bytes: "Grow env n ks p = (x, ks', p') \<Longrightarrow> pr_bytes p' = pr_bytes p \<and> set ks' \<subseteq> set ks"
  by (auto simp: Grow_def split: if_splits outcome.splits prod.splits dest!: ksize_kernel)

lemma get_grown_clean:
  assumes "pool_clean (sw_pool wd)" "get_grown sz wd = (Ret a, wd1)"
  shows "pr_bytes (pp_heap (sw_pool wd1) a) = [] \<and> set (sw_kernel wd1) \<subseteq> set (sw_kernel wd) \<and>
    sw_rawok wd1 = sw_rawok wd"
proof -
  from assms(2) obtain ks pp where
    G: "pool_get (sw_kernel wd) (sw_pool wd) = (Ret a, ks, pp)"
    by (auto simp: get_grown_def split: outcome.splits prod.splits)
  obtain x ks' p where
    R: "Grow (sw_env wd) (wrap64 (alignSize (sw_page wd) sz * 2)) ks (pp_heap pp a) = (x, ks', p)"
    by (cases "Grow (sw_env wd) (wrap64 (alignSize (sw_page wd) sz * 2)) ks (pp_heap pp a)")
  from pool_get_clean [OF assms(1) G] Grow_bytes [OF R] assms(2) G R show ?thesis
    by (cases x) (auto simp: get_grown_def)
qed




end
