(* ===== verification/Message_Encoder.thy ===== *)
theory Message_Encoder
  imports Wire_Format Byte_Buffer Body_Splice Conn_Stats
begin

text \<open>
  The sending side of a connection, \<^verbatim>\<open>src/encoding.go\<close>: type \<open>messageEncoder\<close>. Start
  lines and headers are gathered in a buffer; a message with a body flushes the buffer and
  sends the body behind it, spliced when possible and copied otherwise.

  The buffer is taken from the pool by \<open>newMessageEncoder\<close>; until \<open>Close\<close> it is the
  encoder's own (\<open>Byte_Buffer.bufferAllocator_fresh\<close>), so the encoder carries it as a value
  together with its address. \<open>H\<close> and \<open>reg\<close> are the header types and their registry,
  \<open>grw\<close> the growth of byte buffers.
\<close>

section \<open>Messages\<close>

record 'h wireRequest =
  rq_Service :: uint32
  rq_ID :: uint64
  rq_Headers :: "'h option"
  rq_Body :: Body

record 'h wireResponse =
  rs_ID :: uint64
  rs_Headers :: "'h option"
  rs_Body :: Body
  rs_Error :: "byte list"

section \<open>The encoder\<close>

record messageEncoder =
  me_w :: writer
  me_addr :: nat
  me_buf :: bbuf
  me_stat :: ConnStats

definition headerBufferSize :: nat where "headerBufferSize = 4 * 2 ^ 10"

definition newMessageEncoder :: "growth \<Rightarrow> nat option \<Rightarrow> writer \<Rightarrow> ConnStats \<Rightarrow> bufPool \<Rightarrow>
    messageEncoder outcome \<times> bufPool" where
  "newMessageEncoder grw ch w s st =
     (case bufferAllocator grw ch (int headerBufferSize) st of
        (Ret a, st') \<Rightarrow> (Ret \<lparr>me_w = w, me_addr = a, me_buf = bp_heap st' a, me_stat = s\<rparr>, st')
      | (Fail e, st') \<Rightarrow> (Fail e, st')
      | (Panic s, st') \<Rightarrow> (Panic s, st'))"

definition encoder_Close :: "messageEncoder \<Rightarrow> bufPool \<Rightarrow> bufPool" where
  "encoder_Close e st =
     buffer_Close (me_addr e) (st\<lparr>bp_heap := (bp_heap st)(me_addr e := me_buf e)\<rparr>)"

definition Flush :: "messageEncoder \<Rightarrow> unit outcome \<times> messageEncoder" where
  "Flush e =
     (if bb_data (me_buf e) = [] then (Ret (), e)
      else case bb_WriteTo (me_buf e) (me_w e) of
          (Ret n, b, w) \<Rightarrow>
            (Ret (), e\<lparr>me_w := w, me_buf := bb_Reset b,
                      me_stat := addHeadWritten (word_of_nat n) (me_stat e)\<rparr>)
        | (Fail err, b, w) \<Rightarrow>
            (Fail (Wrap err ''flush encoder''),
             e\<lparr>me_w := w, me_buf := bb_Reset b, me_stat := incWriteErrors (me_stat e)\<rparr>)
        | (Panic s, b, w) \<Rightarrow> (Panic s, e\<lparr>me_w := w, me_buf := bb_Reset b\<rparr>))"

text \<open>
  What \<open>Read\<close> of a body reader delivers. A pipe is read through its descriptor, which is
  non-blocking: behind its bytes there is \<open>EAGAIN\<close>, and a pipe without a pair is at its end.
\<close>

definition body_src :: "bodyReader \<Rightarrow> spliceWorld \<Rightarrow> reader" where
  "body_src r wd =
     (if br_kind r = KindPipe
      then (case br_pair r of
              None \<Rightarrow> \<lparr>rchunks = [], rerr = EOF\<rparr>
            | Some a \<Rightarrow> \<lparr>rchunks = [pr_bytes (pp_heap (sw_pool wd) a)], rerr = Errno EAGAIN\<rparr>)
      else br_src r)"

definition body_src_put :: "reader \<Rightarrow> bodyReader \<Rightarrow> spliceWorld \<Rightarrow> bodyReader \<times> spliceWorld" where
  "body_src_put q r wd =
     (if br_kind r = KindPipe
      then (case br_pair r of
              None \<Rightarrow> (r, wd)
            | Some a \<Rightarrow>
                (r, wd\<lparr>sw_pool := (sw_pool wd)\<lparr>pp_heap := (pp_heap (sw_pool wd))
                         (a := (pp_heap (sw_pool wd) a)\<lparr>pr_bytes := rbytes q\<rparr>)\<rparr>\<rparr>))
      else (r\<lparr>br_src := q\<rparr>, wd))"

text \<open>The deferred \<open>body.Close()\<close>: its error is dropped, its panic is not.\<close>

definition defer_Close :: "unit outcome \<Rightarrow> Body \<Rightarrow> messageEncoder \<Rightarrow> spliceWorld \<Rightarrow>
    unit outcome \<times> Body \<times> messageEncoder \<times> spliceWorld" where
  "defer_Close x b e wd =
     (case body_Close b wd of
        (Panic s, b', wd') \<Rightarrow> (Panic s, b', e, wd')
      | (_, b', wd') \<Rightarrow> (x, b', e, wd'))"

text \<open>The copy of \<open>encode\<close> for a body that was not spliced, up to \<open>Size\<close> as an \<open>int64\<close>.\<close>

definition encode_copy :: "bodyReader \<Rightarrow> Body \<Rightarrow> messageEncoder \<Rightarrow> spliceWorld \<Rightarrow>
    unit outcome \<times> Body \<times> messageEncoder \<times> spliceWorld" where
  "encode_copy r b e wd =
     (case CopyN conn_Write (int64_of (b_Size b)) (body_src r wd) (me_w e) of
        (x, q, w) \<Rightarrow>
          (case body_src_put q r wd of
             (r', wd') \<Rightarrow>
               (let b' = b\<lparr>b_Reader := Some r'\<rparr>; e' = e\<lparr>me_w := w\<rparr> in
                case x of
                  Ret nc \<Rightarrow>
                    (Ret (), b', e'\<lparr>me_stat := incWriteCalls (addBodyWritten (word_of_nat nc) (me_stat e))\<rparr>, wd')
                | Fail err \<Rightarrow> (Fail err, b', e'\<lparr>me_stat := incWriteErrors (me_stat e)\<rparr>, wd')
                | Panic s \<Rightarrow> (Panic s, b', e', wd'))))"

definition encode :: "Body \<Rightarrow> messageEncoder \<Rightarrow> spliceWorld \<Rightarrow>
    unit outcome \<times> Body \<times> messageEncoder \<times> spliceWorld" where
  "encode b e wd =
     (case b_Reader b of
        Some _ \<Rightarrow>
          if b_Size b \<noteq> 0 then
            (case Flush e of
               (Ret _, e1) \<Rightarrow>
                 (case spliceTo b (me_w e1) wd of
                    (Panic s, b1, w1, wd1) \<Rightarrow> defer_Close (Panic s) b1 (e1\<lparr>me_w := w1\<rparr>) wd1
                  | (Fail err, b1, w1, wd1) \<Rightarrow> defer_Close (Fail err) b1 (e1\<lparr>me_w := w1\<rparr>) wd1
                  | (Ret (spliced, Some err), b1, w1, wd1) \<Rightarrow>
                      defer_Close (Fail (Wrap err ''splice body'')) b1 (e1\<lparr>me_w := w1\<rparr>) wd1
                  | (Ret (True, None), b1, w1, wd1) \<Rightarrow>
                      defer_Close (Ret ()) b1
                        (e1\<lparr>me_w := w1, me_stat := incWriteCalls (addBodyWritten (b_Size b) (me_stat e1))\<rparr>) wd1
                  | (Ret (False, None), b1, w1, wd1) \<Rightarrow>
                      (case b_Reader b1 of
                         None \<Rightarrow> (Panic ''nil pointer dereference'', b1, e1\<lparr>me_w := w1\<rparr>, wd1)
                       | Some r \<Rightarrow>
                           (case encode_copy r b1 (e1\<lparr>me_w := w1\<rparr>) wd1 of
                              (x, b2, e2, wd2) \<Rightarrow> defer_Close x b2 e2 wd2)))
             | (x, e1) \<Rightarrow> (x, b, e1, wd))
          else (Ret (), b, e\<lparr>me_stat := incWriteCalls (me_stat e)\<rparr>, wd)
      | None \<Rightarrow> (Ret (), b, e\<lparr>me_stat := incWriteCalls (me_stat e)\<rparr>, wd))"

text \<open>\<open>Headers.Encode(e.headerBuffer)\<close>: the pieces in order, then the count it returns.\<close>

fun bb_pieces :: "growth \<Rightarrow> byte list list \<Rightarrow> bbuf \<Rightarrow> bbuf" where
  "bb_pieces grw [] b = b"
| "bb_pieces grw (p # ps) b = bb_pieces grw ps (snd (bb_Write grw p b))"

definition put_headers :: "('h, 'ty) headers_impl \<Rightarrow> ('h, 'ty) registry \<Rightarrow> growth \<Rightarrow> 'h option \<Rightarrow> bbuf \<Rightarrow>
    nat outcome \<times> bbuf" where
  "put_headers H reg grw h b =
     (case h of
        None \<Rightarrow> (Ret 0, b)
      | Some v \<Rightarrow>
          if indexHeaders H reg h = 0 then (Ret 0, b)
          else (case hEncode H v of
                  (ps, Ret n) \<Rightarrow> (Ret n, bb_pieces grw ps b)
                | (ps, Fail err) \<Rightarrow> (Fail (Wrap err ''encode headers''), bb_pieces grw ps b)
                | (ps, Panic s) \<Rightarrow> (Panic s, bb_pieces grw ps b)))"

text \<open>
  \<open>encodeRequestHeaders\<close>: a placeholder of zeros, a slice of the array at its position, the
  headers, and then the start line written through that slice.
\<close>

definition encodeRequestHeaders :: "('h, 'ty) headers_impl \<Rightarrow> ('h, 'ty) registry \<Rightarrow> growth \<Rightarrow>
    'h wireRequest \<Rightarrow> messageEncoder \<Rightarrow> unit outcome \<times> messageEncoder" where
  "encodeRequestHeaders H reg grw req e =
     (let startLineIndex = length (bb_data (me_buf e));
          b1 = snd (bb_Write grw (replicate requestStartLineSize 0) (me_buf e));
          startLineBuf = bb_slice_at startLineIndex b1;
          headerIndex = indexHeaders H reg (rq_Headers req)
      in case put_headers H reg grw (rq_Headers req) b1 of
           (Ret headerSize, b2) \<Rightarrow>
             (Ret (), e\<lparr>me_buf := bb_poke startLineBuf
                (put_request \<lparr>q_Service = rq_Service req, q_HeaderType = headerIndex,
                   q_HeaderSize = word_of_nat headerSize, q_ID = rq_ID req,
                   q_BodySize = b_Size (rq_Body req)\<rparr>) b2\<rparr>)
         | (Fail err, b2) \<Rightarrow> (Fail err, e\<lparr>me_buf := b2\<rparr>)
         | (Panic s, b2) \<Rightarrow> (Panic s, e\<lparr>me_buf := b2\<rparr>))"

definition encodeResponseHeaders :: "('h, 'ty) headers_impl \<Rightarrow> ('h, 'ty) registry \<Rightarrow> growth \<Rightarrow>
    'h wireResponse \<Rightarrow> messageEncoder \<Rightarrow> unit outcome \<times> messageEncoder" where
  "encodeResponseHeaders H reg grw resp e =
     (let startLineIndex = length (bb_data (me_buf e));
          b1 = snd (bb_Write grw (replicate responseStartLineSize 0) (me_buf e));
          startLineBuf = bb_slice_at startLineIndex b1;
          headerIndex = indexHeaders H reg (rs_Headers resp);
          respErr = rs_Error resp
      in case put_headers H reg grw (rs_Headers resp) b1 of
           (Ret headerSize, b2) \<Rightarrow>
             (let b3 = bb_poke startLineBuf
                (put_response \<lparr>p_ErrorSize = word_of_nat (length respErr), p_HeaderType = headerIndex,
                   p_HeaderSize = word_of_nat headerSize, p_ID = rs_ID resp,
                   p_BodySize = b_Size (rs_Body resp)\<rparr>) b2
              in (Ret (), e\<lparr>me_buf := (if respErr \<noteq> [] then snd (bb_Write grw respErr b3) else b3)\<rparr>))
         | (Fail err, b2) \<Rightarrow> (Fail err, e\<lparr>me_buf := b2\<rparr>)
         | (Panic s, b2) \<Rightarrow> (Panic s, e\<lparr>me_buf := b2\<rparr>))"

text \<open>The common frame of \<open>EncodeRequest\<close> and \<open>EncodeResponse\<close> around the header encoder.\<close>

definition flush_if :: "bool \<Rightarrow> messageEncoder \<Rightarrow> unit outcome \<times> messageEncoder" where
  "flush_if c e = (if c then Flush e else (Ret (), e))"

definition EncodeRequest :: "('h, 'ty) headers_impl \<Rightarrow> ('h, 'ty) registry \<Rightarrow> growth \<Rightarrow>
    'h wireRequest \<Rightarrow> messageEncoder \<Rightarrow> spliceWorld \<Rightarrow>
    unit outcome \<times> 'h wireRequest \<times> messageEncoder \<times> spliceWorld" where
  "EncodeRequest H reg grw req e wd =
     (case flush_if (b_Size (rq_Body req) > 0 \<and> b_Reader (rq_Body req) \<noteq> None) e of
        (Ret _, e1) \<Rightarrow>
          (case encodeRequestHeaders H reg grw req e1 of
             (Ret _, e2) \<Rightarrow>
               (case flush_if (headerBufferSize \<le> length (bb_data (me_buf e2))) e2 of
                  (Ret _, e3) \<Rightarrow>
                    (case encode (rq_Body req) e3 wd of
                       (x, b, e4, wd') \<Rightarrow> (x, req\<lparr>rq_Body := b\<rparr>, e4, wd'))
                | (x, e3) \<Rightarrow> (x, req, e3, wd))
           | (Fail err, e2) \<Rightarrow> (Fail err, req, e2\<lparr>me_stat := incWriteErrors (me_stat e2)\<rparr>, wd)
           | (Panic s, e2) \<Rightarrow> (Panic s, req, e2, wd))
      | (x, e1) \<Rightarrow> (x, req, e1, wd))"

definition EncodeResponse :: "('h, 'ty) headers_impl \<Rightarrow> ('h, 'ty) registry \<Rightarrow> growth \<Rightarrow>
    'h wireResponse \<Rightarrow> messageEncoder \<Rightarrow> spliceWorld \<Rightarrow>
    unit outcome \<times> 'h wireResponse \<times> messageEncoder \<times> spliceWorld" where
  "EncodeResponse H reg grw resp e wd =
     (case flush_if (b_Size (rs_Body resp) > 0 \<and> b_Reader (rs_Body resp) \<noteq> None) e of
        (Ret _, e1) \<Rightarrow>
          (case encodeResponseHeaders H reg grw resp e1 of
             (Ret _, e2) \<Rightarrow>
               (case flush_if (headerBufferSize \<le> length (bb_data (me_buf e2))) e2 of
                  (Ret _, e3) \<Rightarrow>
                    (case encode (rs_Body resp) e3 wd of
                       (x, b, e4, wd') \<Rightarrow> (x, resp\<lparr>rs_Body := b\<rparr>, e4, wd'))
                | (x, e3) \<Rightarrow> (x, resp, e3, wd))
           | (Fail err, e2) \<Rightarrow> (Fail err, resp, e2\<lparr>me_stat := incWriteErrors (me_stat e2)\<rparr>, wd)
           | (Panic s, e2) \<Rightarrow> (Panic s, resp, e2, wd))
      | (x, e1) \<Rightarrow> (x, resp, e1, wd))"

section \<open>What a message is on the wire\<close>

definition header_bytes :: "('h, 'ty) headers_impl \<Rightarrow> ('h, 'ty) registry \<Rightarrow> 'h option \<Rightarrow> byte list" where
  "header_bytes H reg h =
     (case h of None \<Rightarrow> []
      | Some v \<Rightarrow> if indexHeaders H reg h = 0 then [] else concat (fst (hEncode H v)))"

definition header_encodes :: "('h, 'ty) headers_impl \<Rightarrow> ('h, 'ty) registry \<Rightarrow> 'h option \<Rightarrow> bool" where
  "header_encodes H reg h \<longleftrightarrow>
     (case h of None \<Rightarrow> True
      | Some v \<Rightarrow> indexHeaders H reg h = 0 \<or> snd (hEncode H v) = Ret (length (concat (fst (hEncode H v)))))"

definition request_line :: "('h, 'ty) headers_impl \<Rightarrow> ('h, 'ty) registry \<Rightarrow> 'h wireRequest \<Rightarrow> requestStartLine" where
  "request_line H reg req =
     \<lparr>q_Service = rq_Service req, q_HeaderType = indexHeaders H reg (rq_Headers req),
      q_HeaderSize = word_of_nat (length (header_bytes H reg (rq_Headers req))), q_ID = rq_ID req,
      q_BodySize = b_Size (rq_Body req)\<rparr>"

definition response_line :: "('h, 'ty) headers_impl \<Rightarrow> ('h, 'ty) registry \<Rightarrow> 'h wireResponse \<Rightarrow> responseStartLine" where
  "response_line H reg resp =
     \<lparr>p_ErrorSize = word_of_nat (length (rs_Error resp)), p_HeaderType = indexHeaders H reg (rs_Headers resp),
      p_HeaderSize = word_of_nat (length (header_bytes H reg (rs_Headers resp))), p_ID = rs_ID resp,
      p_BodySize = b_Size (rs_Body resp)\<rparr>"

definition request_head :: "('h, 'ty) headers_impl \<Rightarrow> ('h, 'ty) registry \<Rightarrow> 'h wireRequest \<Rightarrow> byte list" where
  "request_head H reg req = put_request (request_line H reg req) @ header_bytes H reg (rq_Headers req)"

definition response_head :: "('h, 'ty) headers_impl \<Rightarrow> ('h, 'ty) registry \<Rightarrow> 'h wireResponse \<Rightarrow> byte list" where
  "response_head H reg resp =
     put_response (response_line H reg resp) @ header_bytes H reg (rs_Headers resp) @ rs_Error resp"

text \<open>
  A body that is sent by copying, and its bytes. A body of size 0 sends nothing whatever its
  reader; a size without a reader is not allowed here.
\<close>

definition copied_body :: "Body \<Rightarrow> writer \<Rightarrow> spliceWorld \<Rightarrow> bool" where
  "copied_body b w wd \<longleftrightarrow> b_Size b = 0 \<or>
     (case b_Reader b of None \<Rightarrow> False
      | Some r \<Rightarrow> br_kind r \<noteq> KindPipe \<and> (\<not> wconn w \<or> \<not> sw_rawok wd \<or> br_kind r = KindOther) \<and>
          unat (b_Size b) < 2 ^ 63 \<and> unat (b_Size b) \<le> length (rbytes (br_src r)))"

definition body_bytes :: "Body \<Rightarrow> byte list" where
  "body_bytes b =
     (case b_Reader b of None \<Rightarrow> [] | Some r \<Rightarrow> take (unat (b_Size b)) (rbytes (br_src r)))"

text \<open>The stream a peer sees once the buffer is flushed, and the head bytes accounted for.\<close>

definition stream :: "messageEncoder \<Rightarrow> byte list" where
  "stream e = wsent (me_w e) @ bb_data (me_buf e)"

definition head_count :: "messageEncoder \<Rightarrow> uint64" where
  "head_count e = HeadWritten (me_stat e) + word_of_nat (length (bb_data (me_buf e)))"

text \<open>The connection takes what is buffered and \<open>k\<close> more bytes.\<close>

definition enc_room :: "nat \<Rightarrow> messageEncoder \<Rightarrow> bool" where
  "enc_room k e \<longleftrightarrow> conn_room (length (bb_data (me_buf e)) + k) (me_w e)"

text \<open>
  The abstract step of an encoder: it appends a head and a body to the stream, and the
  counters move with the bytes. The buffer does not shrink and gathers at most the head.
\<close>

definition sends :: "byte list \<Rightarrow> byte list \<Rightarrow> messageEncoder \<Rightarrow> messageEncoder \<Rightarrow> bool" where
  "sends hs bs e e' \<longleftrightarrow>
     stream e' = stream e @ hs @ bs \<and> head_count e' = head_count e + word_of_nat (length hs) \<and>
     BodyWritten (me_stat e') = BodyWritten (me_stat e) + word_of_nat (length bs) \<and>
     WriteErrors (me_stat e') = WriteErrors (me_stat e) \<and>
     wconn (me_w e') = wconn (me_w e) \<and> bb_wf (me_buf e') \<and>
     bb_cap (me_buf e) \<le> bb_cap (me_buf e') \<and>
     length (bb_data (me_buf e')) \<le> length (bb_data (me_buf e)) + length hs \<and>
     (\<forall>k. enc_room (k + length hs + length bs) e \<longrightarrow> enc_room k e')"

section \<open>Writing a head\<close>

lemma bb_pieces_data [simp]: "bb_data (bb_pieces grw ps b) = bb_data b @ concat ps"
  by (induction ps arbitrary: b) simp_all

lemma bb_Write_cap:
  assumes "bb_wf b" "\<And>n c. n \<le> grw n c"
  shows "bb_cap b \<le> bb_cap (snd (bb_Write grw p b))"
  using assms(2) [of "length (bb_data b) + length p" "bb_cap b"] assms(1)
  by (auto simp: bb_Write_def bb_grow_def Let_def bb_wf_def)

lemma bb_pieces_arr:
  assumes "bb_wf b" "\<And>n c. n \<le> grw n c"
  shows "bb_wf (bb_pieces grw ps b) \<and> bb_arr b \<le> bb_arr (bb_pieces grw ps b) \<and>
    bb_cap b \<le> bb_cap (bb_pieces grw ps b) \<and>
    (bb_arr (bb_pieces grw ps b) = bb_arr b \<longleftrightarrow> length (bb_data b) + length (concat ps) \<le> bb_cap b)"
  using assms(1)
proof (induction ps arbitrary: b)
  case Nil
  then show ?case by (simp add: bb_wf_def)
next
  case (Cons p ps)
  let ?b = "snd (bb_Write grw p b)"
  have wf: "bb_wf ?b" by (rule bb_Write_wf [OF Cons.prems assms(2)])
  note IH = Cons.IH [OF wf]
  note le = bb_Write_cap [where grw = grw, OF Cons.prems assms(2), of p]
  show ?case
  proof (cases "length (bb_data b) + length p \<le> bb_cap b")
    case True
    with IH le show ?thesis by (simp add: bb_Write_fits add.assoc)
  next
    case False
    then have "bb_arr ?b = Suc (bb_arr b)" using bb_Write_moves [OF _ Cons.prems] by simp
    with IH False le show ?thesis by simp
  qed
qed

text \<open>
  A start line written through a slice that was taken before the header pieces: it arrives
  exactly when the pieces did not make the buffer move.
\<close>

lemma poke_data:
  fixes line :: "byte list"
  assumes "bb_wf b" "\<And>n c. n \<le> grw n c"
  defines "b1 \<equiv> snd (bb_Write grw (replicate (length line) 0) b)"
  shows "bb_data (bb_poke (bb_slice_at (length (bb_data b)) b1) line (bb_pieces grw ps b1)) =
      bb_data b @ (if length (bb_data b) + length line + length (concat ps) \<le> bb_cap b1
                   then line else replicate (length line) 0) @ concat ps"
    and "bb_wf (bb_poke (bb_slice_at (length (bb_data b)) b1) line (bb_pieces grw ps b1))"
    and "bb_cap b \<le> bb_cap (bb_poke (bb_slice_at (length (bb_data b)) b1) line (bb_pieces grw ps b1))"
proof -
  have wf: "bb_wf b1" unfolding b1_def by (rule bb_Write_wf [OF assms(1,2)])
  have d: "bb_data b1 = bb_data b @ replicate (length line) 0" by (simp add: b1_def)
  note A = bb_pieces_arr [where grw = grw, OF wf assms(2), where ps = ps]
  show "bb_data (bb_poke (bb_slice_at (length (bb_data b)) b1) line (bb_pieces grw ps b1)) =
      bb_data b @ (if length (bb_data b) + length line + length (concat ps) \<le> bb_cap b1
                   then line else replicate (length line) 0) @ concat ps"
    using A d by (auto simp: bb_poke_def bb_slice_at_def)
  show "bb_wf (bb_poke (bb_slice_at (length (bb_data b)) b1) line (bb_pieces grw ps b1))"
    using A d by (auto simp: bb_poke_def bb_slice_at_def bb_wf_def)
  have "bb_cap b \<le> bb_cap b1"
    unfolding b1_def by (rule bb_Write_cap [where grw = grw, OF assms(1,2)])
  then show "bb_cap b \<le> bb_cap (bb_poke (bb_slice_at (length (bb_data b)) b1) line (bb_pieces grw ps b1))"
    using A by (auto simp: bb_poke_def)
qed

lemma put_headers_ok:
  assumes "header_encodes H reg h"
  shows "\<exists>ps. put_headers H reg grw h b = (Ret (length (header_bytes H reg h)), bb_pieces grw ps b) \<and>
    concat ps = header_bytes H reg h"
proof (cases "h = None \<or> indexHeaders H reg h = 0")
  case True
  then show ?thesis
    by (intro exI [of _ "[]"]) (auto simp: put_headers_def header_bytes_def split: option.splits)
next
  case False
  then obtain v where h: "h = Some v" and i: "indexHeaders H reg h \<noteq> 0" by auto
  obtain ps x where E: "hEncode H v = (ps, x)" by (cases "hEncode H v")
  from assms h i E show ?thesis
    by (intro exI [of _ ps]) (simp add: put_headers_def header_bytes_def header_encodes_def)
qed

text \<open>Whether the head of a message, with \<open>n\<close> header bytes, is written without a move.\<close>

definition head_fits :: "growth \<Rightarrow> nat \<Rightarrow> bbuf \<Rightarrow> bool" where
  "head_fits grw n b \<longleftrightarrow>
     length (bb_data b) + 28 + n \<le> bb_cap (snd (bb_Write grw (replicate 28 0) b))"

lemma encodeRequestHeaders_spec:
  assumes "bb_wf (me_buf e)" "\<And>n c. n \<le> grw n c" "header_encodes H reg (rq_Headers req)"
  shows "\<exists>b. encodeRequestHeaders H reg grw req e = (Ret (), e\<lparr>me_buf := b\<rparr>) \<and> bb_wf b \<and>
    bb_cap (me_buf e) \<le> bb_cap b \<and>
    bb_data b = bb_data (me_buf e) @
      (if head_fits grw (length (header_bytes H reg (rq_Headers req))) (me_buf e)
       then put_request (request_line H reg req) else replicate 28 0) @
      header_bytes H reg (rq_Headers req)"
proof -
  obtain ps where P: "put_headers H reg grw (rq_Headers req)
      (snd (bb_Write grw (replicate requestStartLineSize 0) (me_buf e))) =
      (Ret (length (header_bytes H reg (rq_Headers req))),
       bb_pieces grw ps (snd (bb_Write grw (replicate requestStartLineSize 0) (me_buf e))))"
    and c: "concat ps = header_bytes H reg (rq_Headers req)"
    using put_headers_ok [OF assms(3)] by blast
  let ?b = "bb_poke (bb_slice_at (length (bb_data (me_buf e)))
      (snd (bb_Write grw (replicate requestStartLineSize 0) (me_buf e))))
      (put_request (request_line H reg req))
      (bb_pieces grw ps (snd (bb_Write grw (replicate requestStartLineSize 0) (me_buf e))))"
  note D = poke_data [where grw = grw and ps = ps and line = "put_request (request_line H reg req)",
      OF assms(1,2), unfolded length_put]
  from P have "encodeRequestHeaders H reg grw req e = (Ret (), e\<lparr>me_buf := ?b\<rparr>)"
    by (simp add: encodeRequestHeaders_def Let_def request_line_def)
  with D c show ?thesis
    by (intro exI [of _ ?b]) (simp add: requestStartLineSize_def head_fits_def)
qed

lemma encodeResponseHeaders_spec:
  assumes "bb_wf (me_buf e)" "\<And>n c. n \<le> grw n c" "header_encodes H reg (rs_Headers resp)"
  shows "\<exists>b. encodeResponseHeaders H reg grw resp e = (Ret (), e\<lparr>me_buf := b\<rparr>) \<and> bb_wf b \<and>
    bb_cap (me_buf e) \<le> bb_cap b \<and>
    bb_data b = bb_data (me_buf e) @
      (if head_fits grw (length (header_bytes H reg (rs_Headers resp))) (me_buf e)
       then put_response (response_line H reg resp) else replicate 28 0) @
      header_bytes H reg (rs_Headers resp) @ rs_Error resp"
proof -
  obtain ps where P: "put_headers H reg grw (rs_Headers resp)
      (snd (bb_Write grw (replicate responseStartLineSize 0) (me_buf e))) =
      (Ret (length (header_bytes H reg (rs_Headers resp))),
       bb_pieces grw ps (snd (bb_Write grw (replicate responseStartLineSize 0) (me_buf e))))"
    and c: "concat ps = header_bytes H reg (rs_Headers resp)"
    using put_headers_ok [OF assms(3)] by blast
  let ?b = "bb_poke (bb_slice_at (length (bb_data (me_buf e)))
      (snd (bb_Write grw (replicate responseStartLineSize 0) (me_buf e))))
      (put_response (response_line H reg resp))
      (bb_pieces grw ps (snd (bb_Write grw (replicate responseStartLineSize 0) (me_buf e))))"
  let ?c = "if rs_Error resp \<noteq> [] then snd (bb_Write grw (rs_Error resp) ?b) else ?b"
  note D = poke_data [where grw = grw and ps = ps and line = "put_response (response_line H reg resp)",
      OF assms(1,2), unfolded length_put]
  from P have "encodeResponseHeaders H reg grw resp e = (Ret (), e\<lparr>me_buf := ?c\<rparr>)"
    by (simp add: encodeResponseHeaders_def Let_def response_line_def)
  moreover have "bb_wf ?c" "bb_cap (me_buf e) \<le> bb_cap ?c"
    using D(2,3) bb_Write_wf [where grw = grw, OF D(2) assms(2)]
      bb_Write_cap [where grw = grw, OF D(2) assms(2), of "rs_Error resp"] by simp_all
  ultimately show ?thesis using D c
    by (intro exI [of _ ?c]) (simp add: responseStartLineSize_def head_fits_def)
qed

text \<open>
  What the header encoders append to the buffer, for every header type and every state
  of the buffer: the start line, the header bytes and the error text if the header bytes fit
  into the array that holds the placeholder, and 28 zero bytes in place of the start line
  otherwise.
\<close>

lemma encode_heads_append:
  assumes "bb_wf (me_buf e)" "\<And>n c. n \<le> grw n c"
    "header_encodes H reg (rq_Headers req)" "header_encodes H reg (rs_Headers resp)"
  shows "\<exists>b c. encodeRequestHeaders H reg grw req e = (Ret (), e\<lparr>me_buf := b\<rparr>) \<and>
    encodeResponseHeaders H reg grw resp e = (Ret (), e\<lparr>me_buf := c\<rparr>) \<and>
    bb_data b = bb_data (me_buf e) @
      (if head_fits grw (length (header_bytes H reg (rq_Headers req))) (me_buf e)
       then put_request (request_line H reg req) else replicate 28 0) @
      header_bytes H reg (rq_Headers req) \<and>
    bb_data c = bb_data (me_buf e) @
      (if head_fits grw (length (header_bytes H reg (rs_Headers resp))) (me_buf e)
       then put_response (response_line H reg resp) else replicate 28 0) @
      header_bytes H reg (rs_Headers resp) @ rs_Error resp"
  using encodeRequestHeaders_spec [where grw = grw, OF assms(1,2,3)]
    encodeResponseHeaders_spec [where grw = grw, OF assms(1,2,4)] by metis

section \<open>Flushing and bodies\<close>

lemma sends_refl: "bb_wf (me_buf e) \<Longrightarrow> sends [] [] e e"
  by (simp add: sends_def)

lemma sends_trans:
  assumes "sends hs [] e e'" "sends hs' bs e' e''"
  shows "sends (hs @ hs') bs e e''"
proof -
  have "enc_room k e''" if "enc_room (k + length (hs @ hs') + length bs) e" for k
  proof -
    from that have "enc_room (k + length hs' + length bs + length hs + length []) e"
      by (simp add: ac_simps)
    with assms(1) have "enc_room (k + length hs' + length bs) e'" unfolding sends_def by blast
    with assms(2) show ?thesis unfolding sends_def by blast
  qed
  with assms show ?thesis by (simp add: sends_def)
qed

lemma bb_Reset_idem [simp]: "bb_Reset (bb_Reset b) = bb_Reset b"
  by (simp add: bb_Reset_def)

lemma Flush_sends:
  assumes "enc_room k e" "bb_wf (me_buf e)"
  shows "\<exists>e'. Flush e = (Ret (), e') \<and> sends [] [] e e' \<and> bb_data (me_buf e') = [] \<and>
    me_buf e' = bb_Reset (me_buf e) \<and> WriteCalls (me_stat e') = WriteCalls (me_stat e)"
proof (cases "bb_data (me_buf e) = []")
  case True
  then have "me_buf e = bb_Reset (me_buf e)" by (cases "me_buf e") (simp add: bb_Reset_def)
  with True assms(2) show ?thesis by (auto simp: Flush_def sends_refl)
next
  case False
  let ?p = "bb_data (me_buf e)"
  obtain w where W: "conn_Write ?p (me_w e) = (Ret (length ?p), w)"
    using conn_Write_room [of "length ?p + k" "me_w e" ?p] assms(1) by (auto simp: enc_room_def)
  let ?e = "e\<lparr>me_w := w, me_buf := bb_Reset (bb_Reset (me_buf e)),
      me_stat := addHeadWritten (word_of_nat (length ?p)) (me_stat e)\<rparr>"
  have F: "Flush e = (Ret (), ?e)" using False W by (simp add: Flush_def bb_WriteTo_def)
  have c: "wsent w = wsent (me_w e) @ ?p" "wconn w = wconn (me_w e)"
    using W by (auto simp: conn_Write_def split: option.splits if_splits)
  have r: "conn_room j w" if "conn_room (length ?p + j) (me_w e)" for j
    using conn_Write_room [OF that, of ?p] W by auto
  have "sends [] [] e ?e"
    using c r by (auto simp: sends_def stream_def head_count_def addHeadWritten_def enc_room_def bb_wf_def)
  with F show ?thesis by (intro exI [of _ ?e]) (simp add: addHeadWritten_def)
qed

lemma spliceTo_declines:
  assumes "copied_body b w wd" "b_Size b \<noteq> 0"
  shows "spliceTo b w wd = (Ret (False, None), b, w, wd)"
  using assms
  by (auto simp: copied_body_def spliceTo_def body_pipe_def split: option.splits reader_kind.splits)

lemma int64_of_small: "unat x < 2 ^ 63 \<Longrightarrow> int64_of x = int (unat x)"
proof -
  assume a: "unat x < 2 ^ 63"
  have "int (unat x) < 2 ^ 63" using a by (metis of_nat_less_iff of_nat_numeral of_nat_power)
  then have "uint x < 2 ^ 63" by simp
  moreover have "- (2 ^ 63) \<le> uint x" by (rule order_trans [OF _ unsigned_greater_eq]) simp
  ultimately show "int64_of x = int (unat x)"
    by (simp add: int64_of_def sint_uint signed_take_bit_int_eq_self)
qed

interpretation typed_conn: byte_sink conn_Write wsent "\<lambda>k w. conn_room k w \<and> wconn w = c" for c
  by unfold_locales (use conn_Write_room in blast)

lemma CopyN_conn:
  assumes "conn_room n w" "n \<le> length (rbytes r)"
  shows "\<exists>q w'. CopyN conn_Write (int n) r w = (Ret n, q, w') \<and>
    wsent w' = wsent w @ take n (rbytes r) \<and> wconn w' = wconn w \<and>
    (\<forall>j. conn_room (j + n) w \<longrightarrow> conn_room j w')"
proof -
  obtain q w' where C: "copy_loop conn_Write n r w = (Ret n, q, w')"
      "wsent w' = wsent w @ take n (rbytes r)" "wconn w' = wconn w"
    using typed_conn.copy_loop_room [of n w "wconn w" n r] assms by auto
  moreover have "conn_room j w'" if "conn_room (j + n) w" for j
    using conn.copy_loop_room [OF that, of n r] C(1) assms(2) by auto
  ultimately show ?thesis by (auto simp: CopyN_def)
qed

lemma encode_sends:
  assumes cb: "copied_body b (me_w e) wd" and room: "enc_room (length (body_bytes b)) e"
    and wf: "bb_wf (me_buf e)"
  shows "\<exists>b' e'. encode b e wd = (Ret (), b', e', wd) \<and> sends [] (body_bytes b) e e' \<and>
    WriteCalls (me_stat e') = WriteCalls (me_stat e) + 1"
proof (cases "b_Size b = 0")
  case True
  then have "body_bytes b = []" by (simp add: body_bytes_def split: option.splits)
  moreover have "encode b e wd = (Ret (), b, e\<lparr>me_stat := incWriteCalls (me_stat e)\<rparr>, wd)"
    using True by (simp add: encode_def split: option.splits)
  ultimately show ?thesis
    using wf by (auto simp: sends_def stream_def head_count_def incWriteCalls_def enc_room_def)
next
  case False
  with cb obtain r where R: "b_Reader b = Some r" and k: "br_kind r \<noteq> KindPipe"
    and lt: "unat (b_Size b) < 2 ^ 63" and en: "unat (b_Size b) \<le> length (rbytes (br_src r))"
    by (auto simp: copied_body_def split: option.splits)
  let ?n = "unat (b_Size b)"
  have bb: "body_bytes b = take ?n (rbytes (br_src r))" using R by (simp add: body_bytes_def)
  obtain e1 where F: "Flush e = (Ret (), e1)" and S: "sends [] [] e e1" and d: "bb_data (me_buf e1) = []"
    and wc: "WriteCalls (me_stat e1) = WriteCalls (me_stat e)"
    using Flush_sends [OF room wf] by blast
  have "wconn (me_w e1) = wconn (me_w e)" using S by (simp add: sends_def)
  with cb have cb1: "copied_body b (me_w e1) wd" by (simp add: copied_body_def split: option.splits)
  note sp = spliceTo_declines [OF cb1 False]
  have room1: "conn_room j (me_w e1)" if "enc_room j e" for j
    using S d that by (auto simp: sends_def enc_room_def)
  have rn: "conn_room ?n (me_w e1)" using room1 [OF room] bb en by simp
  from CopyN_conn [OF rn en] obtain q w where
    C: "CopyN conn_Write (int ?n) (br_src r) (me_w e1) = (Ret ?n, q, w)"
    and w: "wsent w = wsent (me_w e1) @ body_bytes b"
    and keep: "wconn w = wconn (me_w e1)" "\<And>j. conn_room (j + ?n) (me_w e1) \<Longrightarrow> conn_room j w"
    by (auto simp: bb)
  let ?e = "e1\<lparr>me_w := w, me_stat := incWriteCalls (addBodyWritten (word_of_nat ?n) (me_stat e1))\<rparr>"
  have "\<exists>b'. encode b e wd = (Ret (), b', ?e, wd)"
    using R False F sp C k int64_of_small [OF lt]
    by (auto simp: encode_def encode_copy_def body_src_def body_src_put_def defer_Close_def
        body_Close_def reader_Close_def)
  moreover have "sends [] (body_bytes b) e ?e"
    using S d w keep room1 en
    by (auto simp: sends_def stream_def head_count_def incWriteCalls_def addBodyWritten_def enc_room_def bb)
  ultimately show ?thesis using wc by (auto simp: incWriteCalls_def addBodyWritten_def)
qed

section \<open>Messages\<close>

lemma flush_if_sends:
  assumes "enc_room k e" "bb_wf (me_buf e)"
  shows "\<exists>e'. flush_if c e = (Ret (), e') \<and> sends [] [] e e' \<and>
    me_buf e' = (if c then bb_Reset (me_buf e) else me_buf e) \<and>
    WriteCalls (me_stat e') = WriteCalls (me_stat e)"
  using Flush_sends [OF assms] sends_refl [OF assms(2)] by (cases c) (auto simp: flush_if_def)

lemma append_sends:
  assumes "bb_wf b" "bb_cap (me_buf e) \<le> bb_cap b" "bb_data b = bb_data (me_buf e) @ hs"
  shows "sends hs [] e (e\<lparr>me_buf := b\<rparr>)"
  using assms by (auto simp: sends_def stream_def head_count_def enc_room_def ac_simps)

text \<open>
  The steps both kinds of messages take, for any header encoder \<open>hdr\<close> that appends \<open>hs\<close>
  to the buffer it is given.
\<close>

lemma message_steps:
  assumes wf: "bb_wf (me_buf e)" and room: "enc_room (length hs + length (body_bytes b)) e"
    and cb: "copied_body b (me_w e) wd"
    and hdr: "\<And>e1. me_buf e1 = (if c then bb_Reset (me_buf e) else me_buf e) \<Longrightarrow> bb_wf (me_buf e1) \<Longrightarrow>
      \<exists>b1. hdr e1 = (Ret (), e1\<lparr>me_buf := b1\<rparr>) \<and> bb_wf b1 \<and>
        bb_cap (me_buf e1) \<le> bb_cap b1 \<and> bb_data b1 = bb_data (me_buf e1) @ hs"
  shows "\<exists>e1 e2 e3 b' e4. flush_if c e = (Ret (), e1) \<and> hdr e1 = (Ret (), e2) \<and>
    flush_if (headerBufferSize \<le> length (bb_data (me_buf e2))) e2 = (Ret (), e3) \<and>
    encode b e3 wd = (Ret (), b', e4, wd) \<and> sends hs (body_bytes b) e e4 \<and>
    WriteCalls (me_stat e4) = WriteCalls (me_stat e) + 1"
proof -
  obtain e1 where F1: "flush_if c e = (Ret (), e1)" and S1: "sends [] [] e e1"
    and b1: "me_buf e1 = (if c then bb_Reset (me_buf e) else me_buf e)"
    and c1: "WriteCalls (me_stat e1) = WriteCalls (me_stat e)"
    using flush_if_sends [OF room wf] by blast
  have wf1: "bb_wf (me_buf e1)" using S1 by (simp add: sends_def)
  from hdr [OF b1 wf1] obtain b2 where h: "hdr e1 = (Ret (), e1\<lparr>me_buf := b2\<rparr>)" "bb_wf b2"
    "bb_cap (me_buf e1) \<le> bb_cap b2" "bb_data b2 = bb_data (me_buf e1) @ hs" by blast
  let ?e2 = "e1\<lparr>me_buf := b2\<rparr>"
  have S2: "sends hs [] e ?e2" using sends_trans [OF S1 append_sends [OF h(2-4)]] by simp
  have room2: "enc_room (length (body_bytes b)) ?e2"
    using S2 room by (auto simp: sends_def add.commute)
  have wf2: "bb_wf (me_buf ?e2)" using h(2) by simp
  obtain e3 where F3: "flush_if (headerBufferSize \<le> length (bb_data (me_buf ?e2))) ?e2 = (Ret (), e3)"
    and S3: "sends [] [] ?e2 e3" and c3: "WriteCalls (me_stat e3) = WriteCalls (me_stat ?e2)"
    using flush_if_sends [OF room2 wf2] by blast
  have S23: "sends hs [] e e3" using sends_trans [OF S2 S3] by simp
  have "wconn (me_w e3) = wconn (me_w e)" using S23 by (simp add: sends_def)
  with cb have cb3: "copied_body b (me_w e3) wd" by (simp add: copied_body_def split: option.splits)
  have "enc_room (length (body_bytes b)) e3" "bb_wf (me_buf e3)"
    using S3 room2 by (auto simp: sends_def)
  from encode_sends [OF cb3 this] obtain b' e4 where
    E: "encode b e3 wd = (Ret (), b', e4, wd)" "sends [] (body_bytes b) e3 e4"
    "WriteCalls (me_stat e4) = WriteCalls (me_stat e3) + 1" by blast
  have "sends hs (body_bytes b) e e4" using sends_trans [OF S23 E(2)] by simp
  moreover have "WriteCalls (me_stat e4) = WriteCalls (me_stat e) + 1" using E(3) c1 c3 by simp
  ultimately show ?thesis using F1 h(1) F3 E(1) by blast
qed

text \<open>The buffer a head is written to: flushed first when the message has a body.\<close>

definition head_buf :: "Body \<Rightarrow> bbuf \<Rightarrow> bbuf" where
  "head_buf b buf = (if b_Size b > 0 \<and> b_Reader b \<noteq> None then bb_Reset buf else buf)"

lemma EncodeRequest_spec:
  assumes "bb_wf (me_buf e)" "\<And>n c. n \<le> grw n c" "header_encodes H reg (rq_Headers req)"
    and fits: "head_fits grw (length (header_bytes H reg (rq_Headers req))) (head_buf (rq_Body req) (me_buf e))"
    and "copied_body (rq_Body req) (me_w e) wd"
    and "enc_room (length (request_head H reg req) + length (body_bytes (rq_Body req))) e"
  shows "\<exists>req' e'. EncodeRequest H reg grw req e wd = (Ret (), req', e', wd) \<and>
    sends (request_head H reg req) (body_bytes (rq_Body req)) e e' \<and>
    WriteCalls (me_stat e') = WriteCalls (me_stat e) + 1"
proof -
  let ?c = "b_Size (rq_Body req) > 0 \<and> b_Reader (rq_Body req) \<noteq> None"
  have hdr: "\<exists>b1. encodeRequestHeaders H reg grw req e1 = (Ret (), e1\<lparr>me_buf := b1\<rparr>) \<and> bb_wf b1 \<and>
      bb_cap (me_buf e1) \<le> bb_cap b1 \<and> bb_data b1 = bb_data (me_buf e1) @ request_head H reg req"
    if "me_buf e1 = (if ?c then bb_Reset (me_buf e) else me_buf e)" "bb_wf (me_buf e1)" for e1
    using encodeRequestHeaders_spec [where grw = grw, OF that(2) assms(2,3)] fits that(1)
    by (simp add: head_buf_def request_head_def)
  from message_steps [where hdr = "encodeRequestHeaders H reg grw req" and c = ?c,
      OF assms(1,6,5) hdr] show ?thesis
    by (auto simp: EncodeRequest_def)
qed

lemma EncodeResponse_spec:
  assumes "bb_wf (me_buf e)" "\<And>n c. n \<le> grw n c" "header_encodes H reg (rs_Headers resp)"
    and fits: "head_fits grw (length (header_bytes H reg (rs_Headers resp))) (head_buf (rs_Body resp) (me_buf e))"
    and "copied_body (rs_Body resp) (me_w e) wd"
    and "enc_room (length (response_head H reg resp) + length (body_bytes (rs_Body resp))) e"
  shows "\<exists>resp' e'. EncodeResponse H reg grw resp e wd = (Ret (), resp', e', wd) \<and>
    sends (response_head H reg resp) (body_bytes (rs_Body resp)) e e' \<and>
    WriteCalls (me_stat e') = WriteCalls (me_stat e) + 1"
proof -
  let ?c = "b_Size (rs_Body resp) > 0 \<and> b_Reader (rs_Body resp) \<noteq> None"
  have hdr: "\<exists>b1. encodeResponseHeaders H reg grw resp e1 = (Ret (), e1\<lparr>me_buf := b1\<rparr>) \<and> bb_wf b1 \<and>
      bb_cap (me_buf e1) \<le> bb_cap b1 \<and> bb_data b1 = bb_data (me_buf e1) @ response_head H reg resp"
    if "me_buf e1 = (if ?c then bb_Reset (me_buf e) else me_buf e)" "bb_wf (me_buf e1)" for e1
    using encodeResponseHeaders_spec [where grw = grw, OF that(2) assms(2,3)] fits that(1)
    by (simp add: head_buf_def response_head_def)
  from message_steps [where hdr = "encodeResponseHeaders H reg grw resp" and c = ?c,
      OF assms(1,6,5) hdr] show ?thesis
    by (auto simp: EncodeResponse_def)
qed



text \<open>
  C31. The start line of a request is lost when the header does not fit behind the
  placeholder: the request is reported as sent, and 28 zero bytes and the header stand in the
  stream. With the 4096-byte header buffer this is the state after 113 buffered requests that
  carry an eight-byte header and no body.
\<close>

theorem EncodeRequest_loses_start_line:
  assumes "bb_wf (me_buf e)" "\<And>n c. n \<le> grw n c" "enc_room 36 e"
    and "length (bb_data (me_buf e)) + 28 \<le> bb_cap (me_buf e)"
    and "bb_cap (me_buf e) < length (bb_data (me_buf e)) + 36"
  shows "\<exists>req' e'. EncodeRequest testH testRegistry grw
      \<lparr>rq_Service = svc, rq_ID = i, rq_Headers = Some (RequestHeaders k), rq_Body = emptyBody\<rparr> e wd =
      (Ret (), req', e', wd) \<and> stream e' = stream e @ replicate 28 0 @ PutUint64 k"
proof -
  let ?req = "\<lparr>rq_Service = svc, rq_ID = i, rq_Headers = Some (RequestHeaders k), rq_Body = emptyBody\<rparr>"
  have hb: "header_bytes testH testRegistry (Some (RequestHeaders k)) = PutUint64 k"
    "header_encodes testH testRegistry (Some (RequestHeaders k))"
    by (simp_all add: header_bytes_def header_encodes_def testH_def testRegistry_def RegisterHeaders_def
        initRegistry_def indexHeaders_def)
  have nofit: "\<not> head_fits grw 8 (me_buf e)"
    using assms(4,5) by (simp add: head_fits_def bb_Write_fits)
  from encodeRequestHeaders_spec [where grw = grw and H = testH and reg = testRegistry and req = ?req,
      OF assms(1,2)] hb nofit obtain b where
    E: "encodeRequestHeaders testH testRegistry grw ?req e = (Ret (), e\<lparr>me_buf := b\<rparr>)"
    "bb_wf b" "bb_cap (me_buf e) \<le> bb_cap b" "bb_data b = bb_data (me_buf e) @ replicate 28 0 @ PutUint64 k"
    by auto
  let ?hs = "replicate 28 0 @ PutUint64 k"
  from append_sends [OF E(2-4)] assms(3) have S: "sends ?hs [] e (e\<lparr>me_buf := b\<rparr>)"
    and room: "enc_room 0 (e\<lparr>me_buf := b\<rparr>)" by (auto simp: sends_def)
  from flush_if_sends [OF room, of "headerBufferSize \<le> length (bb_data b)"] E(2) obtain e3 where
    F: "flush_if (headerBufferSize \<le> length (bb_data b)) (e\<lparr>me_buf := b\<rparr>) = (Ret (), e3)"
    "sends [] [] (e\<lparr>me_buf := b\<rparr>) e3" by auto
  have "stream e3 = stream e @ ?hs" using S F(2) by (simp add: sends_def)
  then show ?thesis
    using E(1) F(1)
    by (simp add: EncodeRequest_def flush_if_def [of False] encode_def emptyBody_def stream_def)
qed

section \<open>Witnesses\<close>

definition demoEncoder :: "nat \<Rightarrow> byte list \<Rightarrow> messageEncoder" where
  "demoEncoder cap bs = \<lparr>me_w = \<lparr>wsent = [], wlimit = None, werr = Errno EPIPE, wconn = False\<rparr>,
     me_addr = 0, me_buf = \<lparr>bb_arr = 0, bb_data = bs, bb_cap = cap\<rparr>, me_stat = zeroStats\<rparr>"

definition demoBody :: "byte list list \<Rightarrow> uint64 \<Rightarrow> Body" where
  "demoBody cs n = emptyBody\<lparr>b_Size := n, b_Reader := Some
     \<lparr>br_kind = KindOther, br_src = \<lparr>rchunks = cs, rerr = EOF\<rparr>, br_file = [], br_iov = [],
      br_pair = None, br_closed = 0\<rparr>\<rparr>"

definition demoWorld :: spliceWorld where
  "demoWorld = \<lparr>sw_env = \<lparr>resizable = True, maxPipeSize = 1048576\<rparr>, sw_page = 4096, sw_rawok = True,
     sw_pool = newSplicePairPool, sw_kernel = []\<rparr>"

lemmas demo_defs = demoEncoder_def demoBody_def demoWorld_def emptyBody_def header_bytes_def
  header_encodes_def testH_def testRegistry_def RegisterHeaders_def initRegistry_def indexHeaders_def

lemma demo_wf [simp]:
  "bb_wf (me_buf (demoEncoder cap bs)) \<longleftrightarrow> length bs \<le> cap" "enc_room k (demoEncoder cap bs)"
  by (simp_all add: demoEncoder_def bb_wf_def enc_room_def conn_room_def)

lemma demo_stream: "stream (demoEncoder cap bs) = bs"
  by (simp add: demoEncoder_def stream_def)

lemma demo_key:
  "header_bytes testH testRegistry (Some (RequestHeaders k)) = PutUint64 k"
  "header_encodes testH testRegistry (Some (RequestHeaders k))"
  by (simp_all add: demo_defs)

lemma demo_copied:
  "copied_body (demoBody cs n) (me_w (demoEncoder cap bs)) wd \<longleftrightarrow>
     n = 0 \<or> unat n < 2 ^ 63 \<and> unat n \<le> length (concat cs)"
  by (simp add: copied_body_def demoBody_def demoEncoder_def emptyBody_def rbytes_def)

lemma encode_heads_append_witness:
  "\<exists>b. encodeRequestHeaders testH testRegistry (\<lambda>n c. n)
      \<lparr>rq_Service = 1, rq_ID = 2, rq_Headers = Some (RequestHeaders 3), rq_Body = emptyBody\<rparr>
      (demoEncoder 64 [9]) = (Ret (), (demoEncoder 64 [9])\<lparr>me_buf := b\<rparr>) \<and> length (bb_data b) = 37"
proof -
  let ?req = "\<lparr>rq_Service = 1, rq_ID = 2, rq_Headers = Some (RequestHeaders 3), rq_Body = emptyBody\<rparr>"
  let ?resp = "\<lparr>rs_ID = 2, rs_Headers = Some (RequestHeaders 3), rs_Body = emptyBody, rs_Error = []\<rparr>"
  have "bb_wf (me_buf (demoEncoder 64 [9]))" by simp
  from encode_heads_append [where grw = "\<lambda>n c. n" and req = ?req and resp = ?resp and H = testH
      and reg = testRegistry, OF this] show ?thesis
    by (auto simp: demo_key demoEncoder_def requestStartLineSize_def)
qed



theorem EncodeRequest_loses_start_line_witness:
  "\<exists>req' e'. EncodeRequest testH testRegistry (\<lambda>n c. n)
      \<lparr>rq_Service = 1, rq_ID = 114, rq_Headers = Some (RequestHeaders 3), rq_Body = emptyBody\<rparr>
      (demoEncoder 4096 (replicate (113 * 36) 1)) demoWorld = (Ret (), req', e', demoWorld) \<and>
    stream e' = replicate (113 * 36) 1 @ replicate 28 0 @ PutUint64 3"
  using EncodeRequest_loses_start_line [of "demoEncoder 4096 (replicate (113 * 36) 1)" "\<lambda>n c. n" 1 114 3 demoWorld]
  by (simp add: demo_stream) (simp add: demoEncoder_def)

end
