(* ===== verification/Message_Decoder.thy ===== *)
theory Message_Decoder
  imports Message_Encoder Ring_Buffer
begin

text \<open>
  The receiving side of a connection, \<^verbatim>\<open>src/encoding.go\<close>: type \<open>messageDecoder\<close>. A
  message is read as its start line, the error text of a response, the header bytes (staged
  in the ring buffer) and the body (spliced into a pipe, or copied into a pooled buffer).

  The main result is that decoding inverts encoding: \<open>DecodeRequest_inverts\<close> and
  \<open>DecodeResponse_inverts\<close>. The header types are a parameter with the laws of the locale
  \<open>registered_codec\<close>.
\<close>

section \<open>State\<close>

text \<open>
  What a decoded body is: \<open>noopBody\<close>, a pipe (its pair) or a pooled buffer (its address).
\<close>

datatype decoded = NoopBody | PipeBody nat | BufBody nat

text \<open>
  The fields of \<open>wireRequest\<close> and \<open>wireResponse\<close> the decoder fills. The caller passes the
  struct in, and fields the decoder does not assign keep their values. After a failure both
  callers abandon the struct, so the headers it holds then are not tracked.
\<close>

record 'h inRequest =
  iq_Service :: uint32
  iq_ID :: uint64
  iq_Headers :: "'h option"
  iq_Size :: uint64
  iq_Reader :: "decoded option"

record 'h inResponse =
  is_ID :: uint64
  is_Headers :: "'h option"
  is_Size :: uint64
  is_Reader :: "decoded option"
  is_Error :: "byte list"

text \<open>\<open>md_conn\<close>: whether the reader implements \<open>IsConn\<close>.\<close>

record messageDecoder =
  md_closeBody :: bool
  md_r :: reader
  md_conn :: bool
  md_ring :: ringBuffer
  md_stat :: ConnStats

text \<open>The state around the decoder: the buffer pool and the world of the splice path.\<close>

type_synonym pools = "bufPool \<times> spliceWorld"

definition newMessageDecoder :: "reader \<Rightarrow> bool \<Rightarrow> ConnStats \<Rightarrow> bool \<Rightarrow> messageDecoder" where
  "newMessageDecoder r conn s closeBody =
     \<lparr>md_closeBody = closeBody, md_r = r, md_conn = conn,
      md_ring = newRingBuffer headerBufferSize, md_stat = s\<rparr>"

section \<open>Bodies\<close>

definition spliceBody :: "int \<Rightarrow> messageDecoder \<Rightarrow> spliceWorld \<Rightarrow>
    nat option outcome \<times> messageDecoder \<times> spliceWorld" where
  "spliceBody sz d wd =
     (if sz = 0 then (Ret None, d, wd)
      else if \<not> md_conn d then (Ret None, d, wd)
      else case PipeConn sz (rbytes (md_r d)) wd of
          (x, src, wd') \<Rightarrow>
            (case x of Ret a \<Rightarrow> Ret (Some a) | Fail e \<Rightarrow> Fail e | Panic s \<Rightarrow> Panic s,
             d\<lparr>md_r := (md_r d)\<lparr>rchunks := [src]\<rparr>\<rparr>, wd'))"

text \<open>The deferred close of \<open>decodeBody\<close>: with \<open>closeBody\<close> the body is closed and still returned.\<close>

definition close_decoded :: "decoded \<Rightarrow> messageDecoder \<Rightarrow> pools \<Rightarrow>
    decoded outcome \<times> messageDecoder \<times> pools" where
  "close_decoded body d st =
     (if \<not> md_closeBody d then (Ret body, d, st)
      else case body of
          NoopBody \<Rightarrow> (Ret body, d, st)
        | BufBody a \<Rightarrow> (Ret body, d, (buffer_Close a (fst st), snd st))
        | PipeBody a \<Rightarrow>
            (case pipe_Close (Some a) (snd st) of
               (Panic s, wd) \<Rightarrow> (Panic s, d, (fst st, wd))
             | (_, wd) \<Rightarrow> (Ret body, d, (fst st, wd))))"

definition decodeBody :: "growth \<Rightarrow> nat option \<Rightarrow> int \<Rightarrow> messageDecoder \<Rightarrow> pools \<Rightarrow>
    decoded outcome \<times> messageDecoder \<times> pools" where
  "decodeBody grw ch sz d st =
     (if sz = 0 then close_decoded NoopBody d st
      else case spliceBody sz d (snd st) of
          (Panic s, d1, wd1) \<Rightarrow> (Panic s, d1, (fst st, wd1))
        | (Ret (Some a), d1, wd1) \<Rightarrow>
            close_decoded (PipeBody a) (d1\<lparr>md_stat := addBodyRead (word_of_int sz) (md_stat d1)\<rparr>) (fst st, wd1)
        | (_, d1, wd1) \<Rightarrow>
            (case bufferAllocator grw ch sz (fst st) of
               (Panic s, bp) \<Rightarrow> (Panic s, d1, (bp, wd1))
             | (Fail e, bp) \<Rightarrow> (Fail e, d1, (bp, wd1))
             | (Ret a, bp) \<Rightarrow>
                 (case CopyN (bb_Write grw) sz (md_r d1) (bp_heap bp a) of
                    (x, r, b) \<Rightarrow>
                      (let d2 = d1\<lparr>md_r := r\<rparr>; bp2 = bp\<lparr>bp_heap := (bp_heap bp)(a := b)\<rparr> in
                       case x of
                         Ret n \<Rightarrow>
                           close_decoded (BufBody a)
                             (d2\<lparr>md_stat := addBodyRead (word_of_nat n) (md_stat d2)\<rparr>) (bp2, wd1)
                       | Fail e \<Rightarrow> (Fail e, d2, (buffer_Close a bp2, wd1))
                       | Panic s \<Rightarrow> (Panic s, d2, (bp2, wd1))))))"

section \<open>Messages\<close>

text \<open>
  \<open>binary.Read\<close> of a start line: 28 bytes by \<open>io.ReadFull\<close>.
\<close>

definition read_line :: "nat \<Rightarrow> messageDecoder \<Rightarrow> byte list outcome \<times> messageDecoder" where
  "read_line n d =
     (case ReadFull n (md_r d) of
        (Ret bs, r) \<Rightarrow> (Ret bs, d\<lparr>md_r := r, md_stat := addHeadRead (word_of_nat n) (md_stat d)\<rparr>)
      | (Fail e, r) \<Rightarrow> (Fail e, d\<lparr>md_r := r, md_stat := incReadErrors (md_stat d)\<rparr>)
      | (Panic s, r) \<Rightarrow> (Panic s, d\<lparr>md_r := r\<rparr>))"

text \<open>
  The header part, the same for requests and responses: the constructor of the type, and if
  there are header bytes, \<open>CopyN\<close> into the ring buffer, \<open>TrySlice\<close> and \<open>Decode\<close>.
  \<open>wrap\<close> is what the caller does to an error of the copy.
\<close>

definition decodeHeaders :: "('h, 'ty) headers_impl \<Rightarrow> ('h, 'ty) registry \<Rightarrow> (goerr \<Rightarrow> goerr) \<Rightarrow>
    uint32 \<Rightarrow> uint32 \<Rightarrow> messageDecoder \<Rightarrow> 'h option outcome \<times> messageDecoder" where
  "decodeHeaders H reg wrap ty sz d =
     (case newHeaders reg ty of
        Panic s \<Rightarrow> (Panic s, d)
      | Fail e \<Rightarrow> (Fail e, d)
      | Ret None \<Rightarrow> (Ret None, d)
      | Ret (Some c) \<Rightarrow>
          if sz = 0 then (Ret (Some c), d)
          else (case CopyN ring_Write (int (unat sz)) (md_r d) (md_ring d) of
              (Panic s, r, b) \<Rightarrow> (Panic s, d\<lparr>md_r := r, md_ring := b\<rparr>)
            | (Fail e, r, b) \<Rightarrow>
                (Fail (wrap e), d\<lparr>md_r := r, md_ring := b, md_stat := incReadErrors (md_stat d)\<rparr>)
            | (Ret _, r, b) \<Rightarrow>
                (let st = addHeadRead (ucast sz) (md_stat d) in
                 case TrySlice (unat sz) b of
                   (Panic s, b') \<Rightarrow> (Panic s, d\<lparr>md_r := r, md_ring := b', md_stat := st\<rparr>)
                 | (Fail e, b') \<Rightarrow> (Fail e, d\<lparr>md_r := r, md_ring := b', md_stat := st\<rparr>)
                 | (Ret (buf, _), b') \<Rightarrow>
                     (case hDecode H c buf of
                        Ret h \<Rightarrow> (Ret (Some h), d\<lparr>md_r := r, md_ring := b', md_stat := st\<rparr>)
                      | Fail e \<Rightarrow> (Fail e, d\<lparr>md_r := r, md_ring := b', md_stat := incReadErrors st\<rparr>)
                      | Panic s \<Rightarrow> (Panic s, d\<lparr>md_r := r, md_ring := b', md_stat := st\<rparr>)))))"

definition DecodeRequest :: "('h, 'ty) headers_impl \<Rightarrow> ('h, 'ty) registry \<Rightarrow> growth \<Rightarrow> nat option \<Rightarrow>
    'h inRequest \<Rightarrow> messageDecoder \<Rightarrow> pools \<Rightarrow>
    unit outcome \<times> 'h inRequest \<times> messageDecoder \<times> pools" where
  "DecodeRequest H reg grw ch req d st =
     (case read_line requestStartLineSize d of
        (Fail e, d1) \<Rightarrow> (Fail e, req, d1, st)
      | (Panic s, d1) \<Rightarrow> (Panic s, req, d1, st)
      | (Ret bs, d1) \<Rightarrow>
          (let l = get_request bs;
               req1 = req\<lparr>iq_ID := q_ID l, iq_Service := q_Service l, iq_Size := q_BodySize l\<rparr>
           in case decodeHeaders H reg (\<lambda>e. e) (q_HeaderType l) (q_HeaderSize l) d1 of
                (Fail e, d2) \<Rightarrow> (Fail e, req1, d2, st)
              | (Panic s, d2) \<Rightarrow> (Panic s, req1, d2, st)
              | (Ret h, d2) \<Rightarrow>
                  (let req2 = req1\<lparr>iq_Headers := h\<rparr> in
                   case decodeBody grw ch (int64_of (q_BodySize l)) d2 st of
                     (Fail e, d3, st') \<Rightarrow> (Fail e, req2, d3, st')
                   | (Panic s, d3, st') \<Rightarrow> (Panic s, req2, d3, st')
                   | (Ret body, d3, st') \<Rightarrow>
                       (Ret (), req2\<lparr>iq_Reader := Some body\<rparr>,
                        d3\<lparr>md_stat := incReadCalls (md_stat d3)\<rparr>, st'))))"

text \<open>The error text of a response, read before its headers.\<close>

definition readError :: "uint32 \<Rightarrow> 'h inResponse \<Rightarrow> messageDecoder \<Rightarrow>
    unit outcome \<times> 'h inResponse \<times> messageDecoder" where
  "readError sz resp d =
     (if sz = 0 then (Ret (), resp, d)
      else case ReadFull (unat sz) (md_r d) of
          (Ret bs, r) \<Rightarrow>
            (Ret (), resp\<lparr>is_Error := bs\<rparr>, d\<lparr>md_r := r, md_stat := addHeadRead (ucast sz) (md_stat d)\<rparr>)
        | (Fail e, r) \<Rightarrow>
            (Fail (Wrap e ''read response error''), resp,
             d\<lparr>md_r := r, md_stat := incReadErrors (md_stat d)\<rparr>)
        | (Panic s, r) \<Rightarrow> (Panic s, resp, d\<lparr>md_r := r\<rparr>))"

definition DecodeResponse :: "('h, 'ty) headers_impl \<Rightarrow> ('h, 'ty) registry \<Rightarrow> growth \<Rightarrow> nat option \<Rightarrow>
    'h inResponse \<Rightarrow> messageDecoder \<Rightarrow> pools \<Rightarrow>
    unit outcome \<times> 'h inResponse \<times> messageDecoder \<times> pools" where
  "DecodeResponse H reg grw ch resp d st =
     (case read_line responseStartLineSize d of
        (Fail e, d1) \<Rightarrow> (Fail e, resp, d1, st)
      | (Panic s, d1) \<Rightarrow> (Panic s, resp, d1, st)
      | (Ret bs, d1) \<Rightarrow>
          (let l = get_response bs;
               resp1 = resp\<lparr>is_ID := p_ID l, is_Size := p_BodySize l\<rparr>
           in case readError (p_ErrorSize l) resp1 d1 of
                (Fail e, resp2, d2) \<Rightarrow> (Fail e, resp2, d2, st)
              | (Panic s, resp2, d2) \<Rightarrow> (Panic s, resp2, d2, st)
              | (Ret _, resp2, d2) \<Rightarrow>
                  (case decodeHeaders H reg (\<lambda>e. Wrap e ''read response headers'')
                      (p_HeaderType l) (p_HeaderSize l) d2 of
                     (Fail e, d3) \<Rightarrow> (Fail e, resp2, d3, st)
                   | (Panic s, d3) \<Rightarrow> (Panic s, resp2, d3, st)
                   | (Ret h, d3) \<Rightarrow>
                       (let resp3 = resp2\<lparr>is_Headers := h\<rparr> in
                        case decodeBody grw ch (int64_of (p_BodySize l)) d3 st of
                          (Fail e, d4, st') \<Rightarrow> (Fail e, resp3, d4, st')
                        | (Panic s, d4, st') \<Rightarrow> (Panic s, resp3, d4, st')
                        | (Ret body, d4, st') \<Rightarrow>
                            (Ret (), resp3\<lparr>is_Reader := Some body\<rparr>,
                             d4\<lparr>md_stat := incReadCalls (md_stat d4)\<rparr>, st')))))"

section \<open>Reading moves forward\<close>

text \<open>Reads never split a stream into more pieces than it had.\<close>

lemma Read_chunks: "Read n r = (bs, e, r') \<Longrightarrow> length (rchunks r') \<le> length (rchunks r)"
  by (auto simp: Read_def split: list.splits if_splits)

lemma read_loop_chunks: "read_loop n r = (bs, e, r') \<Longrightarrow> length (rchunks r') \<le> length (rchunks r)"
proof (induction n r arbitrary: bs e r' rule: read_loop.induct)
  case (1 n r)
  obtain b x q where R: "Read n r = (b, x, q)" by (cases "Read n r")
  note C = Read_chunks [OF R]
  show ?case
  proof (cases "n = 0 \<or> x \<noteq> None")
    case True
    with "1.prems" R C show ?thesis by (auto simp: read_loop.simps [of n r] split: if_splits)
  next
    case False
    obtain b' e' q' where L: "read_loop (n - length b) q = (b', e', q')"
      by (cases "read_loop (n - length b) q")
    have "length (rchunks q') \<le> length (rchunks q)"
      using "1.IH" [of b "(x, q)" x q, unfolded R] False L by auto
    with "1.prems" R C False L show ?thesis by (simp add: read_loop.simps [of n r])
  qed
qed

lemma copy_loop_chunks: "copy_loop wr n r d = (x, r', d') \<Longrightarrow> length (rchunks r') \<le> length (rchunks r)"
proof (induction n r arbitrary: d x r' d' rule: read_induct)
  case (step n r)
  obtain b e q where R: "Read (min 32768 n) r = (b, e, q)" by (cases "Read (min 32768 n) r")
  note C = Read_chunks [OF R]
  show ?case
  proof (cases "n = 0 \<or> e \<noteq> None")
    case True
    with step.prems R C show ?thesis by (auto simp: copy_loop.simps [of wr n] split: if_splits)
  next
    case False
    with R have n: "0 < n" and R': "Read (min 32768 n) r = (b, None, q)" by simp_all
    show ?thesis
    proof (cases "b = []")
      case True
      with step.prems R' n have "copy_loop wr n q d = (x, r', d')"
        using copy_loop_empty by metis
      with step.IH [of n q] Read_ok(4) [OF R' True] n C show ?thesis by fastforce
    next
      case b: False
      obtain y w where W: "wr b d = (y, w)" by (cases "wr b d")
      show ?thesis
      proof (cases "y = Ret (length b)")
        case True
        obtain x1 r1 d1 where L: "copy_loop wr (n - length b) q w = (x1, r1, d1)"
          by (cases "copy_loop wr (n - length b) q w")
        have "length (rchunks r1) \<le> length (rchunks q)"
          using step.IH [OF _ L] n b by simp
        with step.prems copy_loop_step [where wr = wr and d = d and d' = w, OF n R' b] W True L C
        show ?thesis by (cases x1) auto
      next
        case False
        with step.prems R' n b W C show ?thesis
          by (auto simp: copy_loop.simps [of wr n] split: outcome.splits if_splits)
      qed
    qed
  qed
qed

lemma ReadFull_chunks: "ReadFull n r = (x, r') \<Longrightarrow> length (rchunks r') \<le> length (rchunks r)"
  by (auto simp: ReadFull_def split: prod.splits option.splits dest: read_loop_chunks)

lemma CopyN_chunks: "CopyN wr n r d = (x, r', d') \<Longrightarrow> length (rchunks r') \<le> length (rchunks r)"
  by (auto simp: CopyN_def split: prod.splits outcome.splits dest: copy_loop_chunks)

text \<open>
  \<open>consumes k d d'\<close>: between two states the decoder has taken \<open>k\<close> bytes of its stream
  without an error.
\<close>

definition consumes :: "nat \<Rightarrow> messageDecoder \<Rightarrow> messageDecoder \<Rightarrow> bool" where
  "consumes k d d' \<longleftrightarrow> k \<le> length (rbytes (md_r d)) \<and>
     rbytes (md_r d') = drop k (rbytes (md_r d)) \<and> rerr (md_r d') = rerr (md_r d) \<and>
     length (rchunks (md_r d')) \<le> length (rchunks (md_r d)) \<and>
     md_conn d' = md_conn d \<and> md_closeBody d' = md_closeBody d \<and>
     ReadErrors (md_stat d') = ReadErrors (md_stat d)"

lemma consumes_trans: "consumes j d d' \<Longrightarrow> consumes k d' d'' \<Longrightarrow> consumes (j + k) d d''"
  by (auto simp: consumes_def add.commute)

lemma consumes_0: "consumes 0 d d"
  by (simp add: consumes_def)

lemma read_line_ok:
  assumes "n \<le> length (rbytes (md_r d))"
  shows "\<exists>d'. read_line n d = (Ret (take n (rbytes (md_r d))), d') \<and> consumes n d d' \<and>
    md_ring d' = md_ring d \<and> HeadRead (md_stat d') = HeadRead (md_stat d) + word_of_nat n \<and>
    BodyRead (md_stat d') = BodyRead (md_stat d)"
proof -
  from ReadFull_enough [OF assms] obtain r where
    R: "ReadFull n (md_r d) = (Ret (take n (rbytes (md_r d))), r)" "rbytes r = drop n (rbytes (md_r d))"
    "rerr r = rerr (md_r d)" by blast
  with assms ReadFull_chunks [OF R(1)] show ?thesis
    by (simp add: read_line_def consumes_def addHeadRead_def)
qed

section \<open>Headers\<close>

text \<open>
  The ring buffer is empty between messages, and \<open>n\<close> header bytes can be staged: they fit
  before the end of the slice, or they arrive in one piece.
\<close>

definition ring_idle :: "messageDecoder \<Rightarrow> bool" where
  "ring_idle d \<longleftrightarrow> ring_wf (md_ring d) \<and> ring_list (md_ring d) = []"

definition stageable :: "nat \<Rightarrow> messageDecoder \<Rightarrow> bool" where
  "stageable n d \<longleftrightarrow> ring_idle d \<and>
     (ring_room n (md_ring d) \<or> n \<le> 32768 \<and> length (rchunks (md_r d)) \<le> 1)"

lemma stageable_stages:
  assumes "stageable k d" "0 < k" "k \<le> length (rbytes (md_r d))"
  shows "\<exists>r b f b'. CopyN ring_Write (int k) (md_r d) (md_ring d) = (Ret k, r, b) \<and>
    rbytes r = drop k (rbytes (md_r d)) \<and> rerr r = rerr (md_r d) \<and>
    TrySlice k b = (Ret (take k (rbytes (md_r d)), f), b') \<and> ring_list b' = [] \<and> ring_wf b'"
proof (cases "ring_room k (md_ring d)")
  case True
  with ring.stage [OF True _ refl assms(3)] assms(1) show ?thesis
    by (auto simp: stageable_def ring_idle_def)
next
  case False
  with assms have le: "k \<le> 32768" "length (rchunks (md_r d)) \<le> 1" by (auto simp: stageable_def)
  from assms(2,3) le(2) obtain c where c: "rchunks (md_r d) = [c]" "k \<le> length c"
    by (cases "rchunks (md_r d)") (auto simp: rbytes_def)
  from stage_piece [OF _ _ c(1) assms(2) le(1) c(2) refl] assms(1) show ?thesis
    by (auto simp: stageable_def ring_idle_def)
qed

text \<open>What the receiver gets of a header: values of unregistered types are not sent.\<close>

definition recv_headers :: "('h, 'ty) headers_impl \<Rightarrow> ('h, 'ty) registry \<Rightarrow> 'h option \<Rightarrow> 'h option" where
  "recv_headers H reg h = (if indexHeaders H reg h = 0 then None else h)"

text \<open>A header that can be sent: none, of an unregistered type, or valid with some bytes.\<close>

definition header_ok :: "('h, 'ty) headers_impl \<Rightarrow> ('h, 'ty) registry \<Rightarrow> ('h \<Rightarrow> bool) \<Rightarrow> 'h option \<Rightarrow> bool" where
  "header_ok H reg valid h \<longleftrightarrow>
     (case h of None \<Rightarrow> True
      | Some v \<Rightarrow> indexHeaders H reg h = 0 \<or>
          valid v \<and> header_bytes H reg h \<noteq> [] \<and> length (header_bytes H reg h) < 2 ^ 32)"

context registered_codec
begin

lemma header_ok_encodes: "header_ok H reg valid h \<Longrightarrow> header_encodes H reg h"
  using encode by (auto simp: header_ok_def header_encodes_def split: option.splits) fastforce

lemma decodeHeaders_ok:
  assumes ok: "header_ok H reg valid h" and st: "stageable (length (header_bytes H reg h)) d"
    and bs: "rbytes (md_r d) = header_bytes H reg h @ rest"
  shows "\<exists>d'. decodeHeaders H reg wrap (indexHeaders H reg h) (word_of_nat (length (header_bytes H reg h))) d =
      (Ret (recv_headers H reg h), d') \<and> consumes (length (header_bytes H reg h)) d d' \<and> ring_idle d' \<and>
    HeadRead (md_stat d') = HeadRead (md_stat d) + word_of_nat (length (header_bytes H reg h)) \<and>
    BodyRead (md_stat d') = BodyRead (md_stat d)"
proof (cases "indexHeaders H reg h = 0")
  case True
  then have "header_bytes H reg h = []" by (cases h) (simp_all add: header_bytes_def)
  with True st show ?thesis
    by (simp add: decodeHeaders_def newHeaders_0 [OF reg_wf] recv_headers_def consumes_0 stageable_def)
next
  case False
  then obtain v where h: "h = Some v" by (cases h) auto
  let ?hb = "header_bytes H reg h"
  from ok h False have v: "valid v" "?hb \<noteq> []" and len: "length ?hb < 2 ^ 32"
    by (auto simp: header_ok_def)
  from header_roundtrip [OF v(1) False [unfolded h]] h False obtain c where
    N: "newHeaders reg (indexHeaders H reg h) = Ret (Some c)" and D: "hDecode H c ?hb = Ret v"
    by (auto simp: header_bytes_def)
  have u: "unat (word_of_nat (length ?hb) :: uint32) = length ?hb"
    using unat_word_of_nat_32 [OF len] .
  then have nz: "(word_of_nat (length ?hb) :: uint32) \<noteq> 0" using v(2) by force
  have uc: "ucast (word_of_nat (length ?hb) :: uint32) = (word_of_nat (length ?hb) :: uint64)"
    using len by (simp add: unsigned_of_nat take_bit_nat_eq_self)
  have le: "length ?hb \<le> length (rbytes (md_r d))" using bs by simp
  from stageable_stages [OF st _ le] v(2) bs obtain r b f b' where
    S: "CopyN ring_Write (int (length ?hb)) (md_r d) (md_ring d) = (Ret (length ?hb), r, b)"
      "rbytes r = drop (length ?hb) (rbytes (md_r d))" "rerr r = rerr (md_r d)"
      "TrySlice (length ?hb) b = (Ret (?hb, f), b')" "ring_list b' = []" "ring_wf b'"
    by auto
  have "consumes (length ?hb) d (d\<lparr>md_r := r, md_ring := b',
      md_stat := addHeadRead (word_of_nat (length ?hb)) (md_stat d)\<rparr>)"
    using S(2,3) le CopyN_chunks [OF S(1)] by (simp add: consumes_def addHeadRead_def)
  with N D S nz u uc h False show ?thesis
    by (simp add: decodeHeaders_def recv_headers_def ring_idle_def addHeadRead_def)
qed

end

section \<open>Bodies\<close>

definition decoded_bytes :: "decoded \<Rightarrow> pools \<Rightarrow> byte list" where
  "decoded_bytes body st =
     (case body of NoopBody \<Rightarrow> [] | BufBody a \<Rightarrow> bb_data (bp_heap (fst st) a)
      | PipeBody a \<Rightarrow> pr_bytes (pp_heap (sw_pool (snd st)) a))"

text \<open>
  The buffers handed out so far stay as they are, and a new body's buffer joins them.
\<close>

definition keeps :: "nat set \<Rightarrow> pools \<Rightarrow> pools \<Rightarrow> bool" where
  "keeps live st st' \<longleftrightarrow> snd st' = snd st \<and> (\<exists>live'. live \<subseteq> live' \<and> pool_inv (fst st') live') \<and>
     (\<forall>a \<in> live. bp_heap (fst st') a = bp_heap (fst st) a)"

text \<open>The buffer of a body is among those that stay as they are from now on.\<close>

definition body_held :: "nat set \<Rightarrow> decoded \<Rightarrow> pools \<Rightarrow> bool" where
  "body_held live body st \<longleftrightarrow> (\<exists>live'. live \<subseteq> live' \<and> pool_inv (fst st) live' \<and>
     (case body of NoopBody \<Rightarrow> True | BufBody a \<Rightarrow> a \<in> live' | PipeBody a \<Rightarrow> False))"

lemma pool_Get_others: "pool_Get ch st = (a, st') \<Longrightarrow> b \<noteq> a \<Longrightarrow> bp_heap st' b = bp_heap st b"
  by (auto simp: pool_Get_def split: option.splits if_splits)

lemma bufferAllocator_succeeds:
  "\<exists>a st'. bufferAllocator grw ch (int n) st = (Ret a, st')"
  by (simp add: bufferAllocator_def bb_Grow_def split: prod.splits)

lemma decodeBody_copies:
  assumes inv: "pool_inv (fst st) live" and c: "\<not> md_conn d" "\<not> md_closeBody d"
    and n: "n \<le> length (rbytes (md_r d))" "n < 2 ^ 63"
  shows "\<exists>body d' st'. decodeBody grw ch (int n) d st = (Ret body, d', st') \<and>
    decoded_bytes body st' = take n (rbytes (md_r d)) \<and> consumes n d d' \<and> md_ring d' = md_ring d \<and>
    HeadRead (md_stat d') = HeadRead (md_stat d) \<and>
    BodyRead (md_stat d') = BodyRead (md_stat d) + word_of_nat n \<and> keeps live st st' \<and> body_held live body st'"
proof (cases "n = 0")
  case True
  with c inv show ?thesis
    by (auto simp: decodeBody_def close_decoded_def decoded_bytes_def consumes_0 keeps_def body_held_def)
next
  case False
  obtain a bp where A: "bufferAllocator grw ch (int n) (fst st) = (Ret a, bp)"
    using bufferAllocator_succeeds by blast
  obtain bp1 where G: "pool_Get ch (fst st) = (a, bp1)"
    and bp: "bp = bp1\<lparr>bp_heap := (bp_heap bp1)(a := bb_grow grw (nat (int n)) (bp_heap bp1 a))\<rparr>"
    by (rule bufferAllocator_Ret [OF A])
  note I = pool_Get_inv [OF inv G]
  have empty: "bb_data (bp_heap bp a) = []" using I bp by simp
  from bytebuf.CopyN_enough [OF _ refl n(1), where grw = grw and d = "bp_heap bp a"] empty obtain r b where
    C: "CopyN (bb_Write grw) (int n) (md_r d) (bp_heap bp a) = (Ret n, r, b)"
    "bb_data b = take n (rbytes (md_r d))" "rbytes r = drop n (rbytes (md_r d))" "rerr r = rerr (md_r d)"
    by auto
  let ?bp = "bp\<lparr>bp_heap := (bp_heap bp)(a := b)\<rparr>"
  let ?d = "d\<lparr>md_r := r, md_stat := addBodyRead (word_of_nat n) (md_stat d)\<rparr>"
  have D: "decodeBody grw ch (int n) d st = (Ret (BufBody a), ?d, (?bp, snd st))"
    using False c A C(1) by (simp add: decodeBody_def spliceBody_def close_decoded_def)
  have "?bp = bp1\<lparr>bp_heap := (bp_heap bp1)(a := b)\<rparr>" using bp by simp
  then have "pool_inv ?bp (insert a live)" using pool_inv_use [of bp1 "insert a live" a b] I by simp
  then have "keeps live st (?bp, snd st)" "body_held live (BufBody a) (?bp, snd st)"
    using I bp pool_Get_others [OF G] by (auto simp: keeps_def body_held_def)
  with D C n CopyN_chunks [OF C(1)] show ?thesis
    by (simp add: consumes_def addBodyRead_def decoded_bytes_def)
qed

section \<open>Decoding inverts encoding\<close>

lemma readError_ok:
  assumes "rbytes (md_r d) = er @ rest" "length er < 2 ^ 32"
  shows "\<exists>d'. (\<forall>resp. readError (word_of_nat (length er)) resp d =
      (Ret (), resp\<lparr>is_Error := (if er = [] then is_Error resp else er)\<rparr>, d')) \<and>
    consumes (length er) d d' \<and> md_ring d' = md_ring d \<and>
    HeadRead (md_stat d') = HeadRead (md_stat d) + word_of_nat (length er) \<and>
    BodyRead (md_stat d') = BodyRead (md_stat d)"
proof (cases "er = []")
  case True
  then show ?thesis by (auto simp: readError_def consumes_0)
next
  case False
  have u: "unat (word_of_nat (length er) :: uint32) = length er"
    using unat_word_of_nat_32 [OF assms(2)] .
  then have nz: "(word_of_nat (length er) :: uint32) \<noteq> 0" using False by force
  have uc: "ucast (word_of_nat (length er) :: uint32) = (word_of_nat (length er) :: uint64)"
    using assms(2) by (simp add: unsigned_of_nat take_bit_nat_eq_self)
  have "length er \<le> length (rbytes (md_r d))" using assms(1) by simp
  from ReadFull_enough [OF this] assms(1) obtain r where
    R: "ReadFull (length er) (md_r d) = (Ret er, r)" "rbytes r = drop (length er) (rbytes (md_r d))"
    "rerr r = rerr (md_r d)" by auto
  from R assms(1) ReadFull_chunks [OF R(1)] False nz u uc show ?thesis
    by (simp add: readError_def consumes_def addHeadRead_def)
qed


text \<open>A message body whose size the wire can carry.\<close>

definition body_ok :: "Body \<Rightarrow> bool" where
  "body_ok b \<longleftrightarrow> unat (b_Size b) < 2 ^ 63 \<and> length (body_bytes b) = unat (b_Size b)"

context registered_codec
begin

lemma DecodeRequest_ok:
  assumes hd: "header_ok H reg valid (rq_Headers req)" and bd: "body_ok (rq_Body req)"
    and inv: "pool_inv (fst st) live" and c: "\<not> md_conn d" "\<not> md_closeBody d"
    and sg: "stageable (length (header_bytes H reg (rq_Headers req))) d"
    and bs: "rbytes (md_r d) = request_head H reg req @ body_bytes (rq_Body req) @ rest"
  shows "\<exists>in' d' st' body. DecodeRequest H reg grw ch inq d st = (Ret (), in', d', st') \<and>
    iq_Service in' = rq_Service req \<and> iq_ID in' = rq_ID req \<and>
    iq_Headers in' = recv_headers H reg (rq_Headers req) \<and> iq_Size in' = b_Size (rq_Body req) \<and>
    iq_Reader in' = Some body \<and> decoded_bytes body st' = body_bytes (rq_Body req) \<and>
    consumes (length (request_head H reg req) + length (body_bytes (rq_Body req))) d d' \<and>
    ring_idle d' \<and> keeps live st st' \<and>
    HeadRead (md_stat d') = HeadRead (md_stat d) + word_of_nat (length (request_head H reg req)) \<and>
    BodyRead (md_stat d') = BodyRead (md_stat d) + b_Size (rq_Body req)"
proof -
  let ?hb = "header_bytes H reg (rq_Headers req)" and ?n = "unat (b_Size (rq_Body req))"
  have bs': "rbytes (md_r d) = put_request (request_line H reg req) @ ?hb @ body_bytes (rq_Body req) @ rest"
    using bs by (simp add: request_head_def)
  have "requestStartLineSize \<le> length (rbytes (md_r d))" using bs' by simp
  from read_line_ok [OF this] bs' obtain d1 where
    L: "read_line requestStartLineSize d = (Ret (put_request (request_line H reg req)), d1)"
    and c1: "consumes requestStartLineSize d d1" and r1: "md_ring d1 = md_ring d"
    and h1: "HeadRead (md_stat d1) = HeadRead (md_stat d) + word_of_nat requestStartLineSize"
      "BodyRead (md_stat d1) = BodyRead (md_stat d)" by auto
  have b1: "rbytes (md_r d1) = ?hb @ body_bytes (rq_Body req) @ rest"
    using c1 bs' by (simp add: consumes_def)
  have sg1: "stageable (length ?hb) d1"
    using sg c1 r1 by (auto simp: stageable_def ring_idle_def consumes_def)
  from decodeHeaders_ok [OF hd sg1 b1] obtain d2 where
    D: "decodeHeaders H reg (\<lambda>e. e) (indexHeaders H reg (rq_Headers req)) (word_of_nat (length ?hb)) d1 =
        (Ret (recv_headers H reg (rq_Headers req)), d2)"
    and c2: "consumes (length ?hb) d1 d2" and r2: "ring_idle d2"
    and h2: "HeadRead (md_stat d2) = HeadRead (md_stat d1) + word_of_nat (length ?hb)"
      "BodyRead (md_stat d2) = BodyRead (md_stat d1)" by blast
  have b2: "rbytes (md_r d2) = body_bytes (rq_Body req) @ rest"
    using c2 b1 by (simp add: consumes_def)
  have cc: "\<not> md_conn d2" "\<not> md_closeBody d2" using c c1 c2 by (auto simp: consumes_def)
  have n: "?n \<le> length (rbytes (md_r d2))" "?n < 2 ^ 63"
    and tk: "take ?n (rbytes (md_r d2)) = body_bytes (rq_Body req)"
    using bd b2 by (simp_all add: body_ok_def)
  from decodeBody_copies [OF inv cc n, of grw ch] tk obtain body d3 st' where
    B: "decodeBody grw ch (int ?n) d2 st = (Ret body, d3, st')"
    "decoded_bytes body st' = body_bytes (rq_Body req)" "consumes ?n d2 d3" "md_ring d3 = md_ring d2"
    "HeadRead (md_stat d3) = HeadRead (md_stat d2)"
    "BodyRead (md_stat d3) = BodyRead (md_stat d2) + word_of_nat ?n" "keeps live st st'" by auto
  have "consumes (length (request_head H reg req) + length (body_bytes (rq_Body req))) d d3"
    using consumes_trans [OF consumes_trans [OF c1 c2] B(3)] bd
    by (simp add: request_head_def body_ok_def)
  then have "consumes (length (request_head H reg req) + length (body_bytes (rq_Body req))) d
      (d3\<lparr>md_stat := incReadCalls (md_stat d3)\<rparr>)"
    by (simp add: consumes_def incReadCalls_def)
  with L D B(1,2,5,6,7) h1 h2 r2 B(4) int64_of_small [OF n(2)] show ?thesis
    by (simp add: DecodeRequest_def request_line_def ring_idle_def incReadCalls_def request_head_def)
qed

lemma DecodeResponse_ok:
  assumes hd: "header_ok H reg valid (rs_Headers resp)" and bd: "body_ok (rs_Body resp)"
    and er: "length (rs_Error resp) < 2 ^ 32"
    and inv: "pool_inv (fst st) live" and c: "\<not> md_conn d" "\<not> md_closeBody d"
    and sg: "stageable (length (header_bytes H reg (rs_Headers resp))) d"
    and bs': "rbytes (md_r d) = put_response (response_line H reg resp) @ rs_Error resp @
      header_bytes H reg (rs_Headers resp) @ body_bytes (rs_Body resp) @ rest"
  shows "\<exists>in' d' st' body. DecodeResponse H reg grw ch inr d st = (Ret (), in', d', st') \<and>
    is_ID in' = rs_ID resp \<and> is_Error in' = (if rs_Error resp = [] then is_Error inr else rs_Error resp) \<and>
    is_Headers in' = recv_headers H reg (rs_Headers resp) \<and> is_Size in' = b_Size (rs_Body resp) \<and>
    is_Reader in' = Some body \<and> decoded_bytes body st' = body_bytes (rs_Body resp) \<and>
    consumes (length (response_head H reg resp) + length (body_bytes (rs_Body resp))) d d' \<and>
    ring_idle d' \<and> keeps live st st' \<and>
    HeadRead (md_stat d') = HeadRead (md_stat d) + word_of_nat (length (response_head H reg resp)) \<and>
    BodyRead (md_stat d') = BodyRead (md_stat d) + b_Size (rs_Body resp) \<and> body_held live body st'"
proof -
  let ?hb = "header_bytes H reg (rs_Headers resp)" and ?n = "unat (b_Size (rs_Body resp))"
    and ?er = "rs_Error resp"
  have "responseStartLineSize \<le> length (rbytes (md_r d))" using bs' by simp
  from read_line_ok [OF this] bs' obtain d1 where
    L: "read_line responseStartLineSize d = (Ret (put_response (response_line H reg resp)), d1)"
    and c1: "consumes responseStartLineSize d d1" and r1: "md_ring d1 = md_ring d"
    and h1: "HeadRead (md_stat d1) = HeadRead (md_stat d) + word_of_nat responseStartLineSize"
      "BodyRead (md_stat d1) = BodyRead (md_stat d)" by auto
  have b1: "rbytes (md_r d1) = ?er @ ?hb @ body_bytes (rs_Body resp) @ rest"
    using c1 bs' by (simp add: consumes_def)
  from readError_ok [OF b1 er] obtain d2 where
    R: "\<And>x :: 'h inResponse. readError (word_of_nat (length ?er)) x d1 =
        (Ret (), x\<lparr>is_Error := (if ?er = [] then is_Error x else ?er)\<rparr>, d2)"
    and c2: "consumes (length ?er) d1 d2" and r2: "md_ring d2 = md_ring d1"
    and h2: "HeadRead (md_stat d2) = HeadRead (md_stat d1) + word_of_nat (length ?er)"
      "BodyRead (md_stat d2) = BodyRead (md_stat d1)" by blast
  have b2: "rbytes (md_r d2) = ?hb @ body_bytes (rs_Body resp) @ rest"
    using c2 b1 by (simp add: consumes_def)
  have sg2: "stageable (length ?hb) d2"
    using sg c1 r1 c2 r2 by (auto simp: stageable_def ring_idle_def consumes_def)
  from decodeHeaders_ok [OF hd sg2 b2] obtain d3 where
    D: "decodeHeaders H reg (\<lambda>e. Wrap e ''read response headers'') (indexHeaders H reg (rs_Headers resp))
        (word_of_nat (length ?hb)) d2 = (Ret (recv_headers H reg (rs_Headers resp)), d3)"
    and c3: "consumes (length ?hb) d2 d3" and r3: "ring_idle d3"
    and h3: "HeadRead (md_stat d3) = HeadRead (md_stat d2) + word_of_nat (length ?hb)"
      "BodyRead (md_stat d3) = BodyRead (md_stat d2)" by blast
  have b3: "rbytes (md_r d3) = body_bytes (rs_Body resp) @ rest"
    using c3 b2 by (simp add: consumes_def)
  have cc: "\<not> md_conn d3" "\<not> md_closeBody d3" using c c1 c2 c3 by (auto simp: consumes_def)
  have n: "?n \<le> length (rbytes (md_r d3))" "?n < 2 ^ 63"
    and tk: "take ?n (rbytes (md_r d3)) = body_bytes (rs_Body resp)"
    using bd b3 by (simp_all add: body_ok_def)
  from decodeBody_copies [OF inv cc n, of grw ch] tk obtain body d4 st' where
    B: "decodeBody grw ch (int ?n) d3 st = (Ret body, d4, st')"
    "decoded_bytes body st' = body_bytes (rs_Body resp)" "consumes ?n d3 d4" "md_ring d4 = md_ring d3"
    "HeadRead (md_stat d4) = HeadRead (md_stat d3)"
    "BodyRead (md_stat d4) = BodyRead (md_stat d3) + word_of_nat ?n" "keeps live st st'" "body_held live body st'" by auto
  have "consumes (length (response_head H reg resp) + length (body_bytes (rs_Body resp))) d d4"
    using consumes_trans [OF consumes_trans [OF consumes_trans [OF c1 c2] c3] B(3)] bd
    by (simp add: response_head_def body_ok_def ac_simps)
  then have "consumes (length (response_head H reg resp) + length (body_bytes (rs_Body resp))) d
      (d4\<lparr>md_stat := incReadCalls (md_stat d4)\<rparr>)"
    by (simp add: consumes_def incReadCalls_def)
  moreover have "DecodeResponse H reg grw ch inr d st = (Ret (), inr\<lparr>is_ID := rs_ID resp,
      is_Size := b_Size (rs_Body resp), is_Error := (if ?er = [] then is_Error inr else ?er),
      is_Headers := recv_headers H reg (rs_Headers resp), is_Reader := Some body\<rparr>,
      d4\<lparr>md_stat := incReadCalls (md_stat d4)\<rparr>, st')"
    using L R D B(1) int64_of_small [OF n(2)]
    by (simp add: DecodeResponse_def response_line_def Let_def cong: if_cong split del: if_split)
  moreover have "HeadRead (md_stat d4) = HeadRead (md_stat d) + word_of_nat (length (response_head H reg resp))"
    using B(5) h1 h2 h3 by (simp add: response_head_def ac_simps)
  ultimately show ?thesis
    using B(2,4,6-8) h1(2) h2(2) h3(2) r3
    by (intro exI conjI) (assumption | simp add: incReadCalls_def ring_idle_def)+
qed

end

text \<open>
  C17. Decoding inverts encoding of requests. If the stream starts with the head and body of a
  request as the encoder lays them out, \<open>DecodeRequest\<close> returns its service, its identifier,
  its headers and a body with exactly its bytes; it stops at the end of the message, leaves
  the ring buffer empty, does not touch any body handed out before, and counts every byte.
\<close>

theorem DecodeRequest_inverts:
  assumes "registered_codec H valid reg"
    and "header_ok H reg valid (rq_Headers req)" "body_ok (rq_Body req)"
    and "pool_inv (fst st) live" "\<not> md_conn d" "\<not> md_closeBody d"
    and "stageable (length (header_bytes H reg (rq_Headers req))) d"
    and "rbytes (md_r d) = request_head H reg req @ body_bytes (rq_Body req) @ rest"
  shows "\<exists>in' d' st' body. DecodeRequest H reg grw ch inq d st = (Ret (), in', d', st') \<and>
    iq_Service in' = rq_Service req \<and> iq_ID in' = rq_ID req \<and>
    iq_Headers in' = recv_headers H reg (rq_Headers req) \<and> iq_Size in' = b_Size (rq_Body req) \<and>
    iq_Reader in' = Some body \<and> decoded_bytes body st' = body_bytes (rq_Body req) \<and>
    rbytes (md_r d') = rest \<and> ring_idle d' \<and> keeps live st st' \<and>
    HeadRead (md_stat d') = HeadRead (md_stat d) + word_of_nat (length (request_head H reg req)) \<and>
    BodyRead (md_stat d') = BodyRead (md_stat d) + b_Size (rq_Body req)"
  using registered_codec.DecodeRequest_ok [OF assms, of grw ch inq] assms(8)
  by (fastforce simp: consumes_def)

text \<open>
  C18. The same for responses, provided the response does not carry both an error text and
  header bytes. Without an error text the caller's \<open>Error\<close> field keeps its value.
\<close>

theorem DecodeResponse_inverts:
  assumes "registered_codec H valid reg"
    and "header_ok H reg valid (rs_Headers resp)" "body_ok (rs_Body resp)"
    and "length (rs_Error resp) < 2 ^ 32" "rs_Error resp = [] \<or> header_bytes H reg (rs_Headers resp) = []"
    and "pool_inv (fst st) live" "\<not> md_conn d" "\<not> md_closeBody d"
    and "stageable (length (header_bytes H reg (rs_Headers resp))) d"
    and "rbytes (md_r d) = response_head H reg resp @ body_bytes (rs_Body resp) @ rest"
  shows "\<exists>in' d' st' body. DecodeResponse H reg grw ch inr d st = (Ret (), in', d', st') \<and>
    is_ID in' = rs_ID resp \<and> is_Error in' = (if rs_Error resp = [] then is_Error inr else rs_Error resp) \<and>
    is_Headers in' = recv_headers H reg (rs_Headers resp) \<and> is_Size in' = b_Size (rs_Body resp) \<and>
    is_Reader in' = Some body \<and> decoded_bytes body st' = body_bytes (rs_Body resp) \<and>
    rbytes (md_r d') = rest \<and> ring_idle d' \<and> keeps live st st' \<and>
    HeadRead (md_stat d') = HeadRead (md_stat d) + word_of_nat (length (response_head H reg resp)) \<and>
    BodyRead (md_stat d') = BodyRead (md_stat d) + b_Size (rs_Body resp)"
proof -
  have bs: "rbytes (md_r d) = put_response (response_line H reg resp) @ rs_Error resp @
      header_bytes H reg (rs_Headers resp) @ body_bytes (rs_Body resp) @ rest"
    using assms(5,10) by (auto simp: response_head_def)
  from registered_codec.DecodeResponse_ok [OF assms(1-4,6-9) bs, of grw ch inr] assms(10) show ?thesis
    by (fastforce simp: consumes_def)
qed

lemma PutUint64_nonempty: "PutUint64 x \<noteq> []"
  using length_Put(2) [of x] by fastforce

text \<open>
  C35. A response with an error text and header bytes is not decoded as it was sent: the
  encoder writes the header bytes first and the decoder reads the error text first. For the
  request header of the tests with key \<open>k\<close> the error text received starts with the bytes of
  the key, and the key received ends with bytes of the error text.
\<close>

theorem DecodeResponse_swaps:
  assumes "rs_Headers resp = Some (RequestHeaders k)" "body_ok (rs_Body resp)"
    and "length (rs_Error resp) < 2 ^ 32" "rs_Error resp \<noteq> []"
    and "pool_inv (fst st) live" "\<not> md_conn d" "\<not> md_closeBody d" "stageable 8 d"
    and "rbytes (md_r d) = response_head testH testRegistry resp @ body_bytes (rs_Body resp) @ rest"
  shows "\<exists>in' d' st'. DecodeResponse testH testRegistry grw ch inr d st = (Ret (), in', d', st') \<and>
    is_Error in' = take (length (rs_Error resp)) (PutUint64 k @ rs_Error resp) \<and>
    is_Headers in' = Some (RequestHeaders (Uint64 (drop (length (rs_Error resp)) (PutUint64 k @ rs_Error resp))))"
proof -
  let ?er = "take (length (rs_Error resp)) (PutUint64 k @ rs_Error resp)"
    and ?hb = "drop (length (rs_Error resp)) (PutUint64 k @ rs_Error resp)"
  let ?resp = "resp\<lparr>rs_Error := ?er, rs_Headers := Some (RequestHeaders (Uint64 ?hb))\<rparr>"
  have P: "PutUint64 (Uint64 ?hb) = ?hb" by (rule PutUint64_get) simp
  have ix: "indexHeaders testH testRegistry (Some (RequestHeaders j)) = 1" for j
    by (simp add: demo_defs)
  have ok: "header_ok testH testRegistry test_valid (rs_Headers ?resp)"
    by (simp add: header_ok_def ix demo_key PutUint64_nonempty)
  have ler: "length ?er = length (rs_Error resp)" by simp
  have line: "response_line testH testRegistry ?resp = response_line testH testRegistry resp"
    using assms(1) ler by (simp add: response_line_def demo_key ix del: length_take length_append take_append)
  have bs: "rbytes (md_r d) = put_response (response_line testH testRegistry ?resp) @ rs_Error ?resp @
      header_bytes testH testRegistry (rs_Headers ?resp) @ body_bytes (rs_Body ?resp) @ rest"
  proof -
    have "rbytes (md_r d) = put_response (response_line testH testRegistry resp) @
        (PutUint64 k @ rs_Error resp) @ body_bytes (rs_Body resp) @ rest"
      using assms(1,9) by (simp add: response_head_def demo_key)
    also have "PutUint64 k @ rs_Error resp = ?er @ ?hb" by (rule append_take_drop_id [symmetric])
    finally show ?thesis unfolding line by (simp add: demo_key P del: take_append drop_append)
  qed
  have ne: "?er \<noteq> []" using assms(4) by (metis append_is_Nil_conv length_0_conv take_eq_Nil)
  have "\<exists>in' d' st' body. DecodeResponse testH testRegistry grw ch inr d st = (Ret (), in', d', st') \<and>
      is_Error in' = ?er \<and> is_Headers in' = recv_headers testH testRegistry (rs_Headers ?resp)"
    using test.DecodeResponse_ok [OF ok _ _ assms(5-7) _ bs, of grw ch inr] assms(2,3,8) ne
    by (fastforce simp: demo_key)
  then show ?thesis by (simp add: recv_headers_def ix)
qed

section \<open>Streams that end or lie\<close>

lemma DecodeRequest_short:
  assumes "length (rbytes (md_r d)) < 28"
  shows "\<exists>d'. DecodeRequest H reg grw ch inq d st =
      (Fail (if rbytes (md_r d) \<noteq> [] \<and> rerr (md_r d) = EOF then ErrUnexpectedEOF else rerr (md_r d)),
       inq, d', st) \<and> ReadErrors (md_stat d') = ReadErrors (md_stat d) + 1"
proof -
  obtain x r where R: "ReadFull 28 (md_r d) = (x, r)" by (cases "ReadFull 28 (md_r d)")
  with ReadFull_short [OF assms] show ?thesis
    by (auto simp: DecodeRequest_def read_line_def requestStartLineSize_def incReadErrors_def)
qed

text \<open>
  A stream that ends before a whole start line: \<open>EOF\<close> at a message boundary,
  \<open>ErrUnexpectedEOF\<close> inside a start line, or the error of the connection. One read error is
  counted and the request is not touched; the server's reader treats the two end-of-file
  errors as a disconnect.
\<close>

lemma DecodeRequest_truncated:
  assumes "length (rbytes (md_r d)) < 28"
  shows "\<exists>d'. DecodeRequest H reg grw ch inq d st =
      (Fail (if rbytes (md_r d) \<noteq> [] \<and> rerr (md_r d) = EOF then ErrUnexpectedEOF else rerr (md_r d)),
       inq, d', st) \<and> ReadErrors (md_stat d') = ReadErrors (md_stat d) + 1"
  by (rule DecodeRequest_short [OF assms])

lemma CopyN_ring_split_panics:
  assumes wf: "ring_wf b" and e: "ring_list b = []" and r: "rchunks r = c1 # c2 # cs"
    and n: "c1 \<noteq> []" "c2 \<noteq> []" "length c1 + length c2 \<le> 32768"
    and cap: "length c1 + length c2 \<le> Capacity b" "Capacity b < rb_start b + length c1"
  shows "fst (CopyN ring_Write (int (length c1 + length c2)) r b) = Panic ''slice bounds out of range''"
proof -
  let ?n = "length c1 + length c2"
  have z: "rb_size b = 0" using e length_ring_list [OF wf] by simp
  then have nw: "\<not> ring_wrapped b" using wf by (simp add: ring_wrapped_def ring_wf_def)
  obtain b1 where W: "ring_Write c1 b = (Ret (length c1), b1)" "rb_size b1 = length c1"
    "rb_start b1 = rb_start b"
    using ring_write_wraps [OF wf nw, of c1] cap z by auto
  have c: "Capacity b1 = Capacity b"
    using ring_write_wraps [OF wf nw, of c1] cap z W(1) nw
    by (auto simp: Capacity_def ring_wrapped_def)
  have W2: "ring_Write c2 b1 = (Panic ''slice bounds out of range'', b1)"
    by (rule ring_write_panics) (use W(2,3) c cap in \<open>simp_all add: ring_wrapped_def\<close>)
  let ?r1 = "r\<lparr>rchunks := c2 # cs\<rparr>" and ?r2 = "r\<lparr>rchunks := cs\<rparr>"
  have R1: "Read (min 32768 ?n) r = (c1, None, ?r1)" using r n by (simp add: Read_def)
  have R2: "Read (min 32768 (length c2)) ?r1 = (c2, None, ?r2)" using n by (simp add: Read_def)
  have "copy_loop ring_Write (length c2) ?r1 b1 = (Panic ''slice bounds out of range'', ?r2, b1)"
    by (rule copy_loop_panic [where wr = ring_Write and d = b1, OF _ R2 n(2) W2]) (use n in simp)
  moreover have "copy_loop ring_Write ?n r b = (case copy_loop ring_Write (?n - length c1) ?r1 b1 of
      (Ret k, r'', d'') \<Rightarrow> (Ret (length c1 + k), r'', d'') | x \<Rightarrow> x)"
    by (rule copy_loop_step [where wr = ring_Write and d = b, OF _ R1 n(1) W(1)]) (use n in simp)
  ultimately show ?thesis by (simp add: CopyN_def nat_int_add)
qed

text \<open>
  A request whose header bytes arrive in two reads panics the decoder when the first
  part runs over the end of the ring buffer's slice, although all the bytes would fit. The
  panic ends the reader goroutine and with it the connection.
\<close>

lemma DecodeRequest_split_header_panics:
  assumes "ring_idle d" "rchunks (md_r d) = put_request l # c1 # c2 # cs"
    and "newHeaders reg (q_HeaderType l) = Ret (Some c)"
    and "unat (q_HeaderSize l) = length c1 + length c2" "c1 \<noteq> []" "c2 \<noteq> []"
    and "length c1 + length c2 \<le> 32768" "length c1 + length c2 \<le> Capacity (md_ring d)"
    and "Capacity (md_ring d) < rb_start (md_ring d) + length c1"
  shows "fst (DecodeRequest H reg grw ch inq d st) = Panic ''slice bounds out of range''"
proof -
  let ?r = "(md_r d)\<lparr>rchunks := c1 # c2 # cs\<rparr>"
  have "Read 28 (md_r d) = (put_request l, None, ?r)"
    using assms(2) by (simp add: Read_def requestStartLineSize_def)
  then have "read_loop 28 (md_r d) = (put_request l, None, ?r)"
    using read_loop_step [of 28 "md_r d" "put_request l" ?r "[]" None ?r]
    by (simp add: requestStartLineSize_def)
  then have L: "read_line 28 d =
      (Ret (put_request l), d\<lparr>md_r := ?r, md_stat := addHeadRead (word_of_nat 28) (md_stat d)\<rparr>)"
    by (simp add: read_line_def ReadFull_def)
  have nz: "q_HeaderSize l \<noteq> 0" using assms(4,5) by auto
  have "fst (CopyN ring_Write (int (length c1 + length c2)) ?r (md_ring d)) =
      Panic ''slice bounds out of range''"
    by (rule CopyN_ring_split_panics) (use assms in \<open>simp_all add: ring_idle_def\<close>)
  then obtain r b where "CopyN ring_Write (int (unat (q_HeaderSize l))) ?r (md_ring d) =
      (Panic ''slice bounds out of range'', r, b)"
    using assms(4) by (metis prod.collapse)
  with L nz assms(3) show ?thesis
    by (simp add: DecodeRequest_def requestStartLineSize_def decodeHeaders_def)
qed

section \<open>Witnesses\<close>

lemma fresh_ring: "ring_wf (newRingBuffer headerBufferSize)" "ring_list (newRingBuffer headerBufferSize) = []"
  "n \<le> 4096 \<Longrightarrow> ring_room n (newRingBuffer headerBufferSize)"
  by (simp_all add: newRingBuffer_def ring_wf_def ring_list_def ring_room_def Capacity_def headerBufferSize_def)

lemma fresh_decoder:
  "ring_idle (newMessageDecoder r conn s cl)" "n \<le> 4096 \<Longrightarrow> stageable n (newMessageDecoder r conn s cl)"
  "md_r (newMessageDecoder r conn s cl) = r" "md_conn (newMessageDecoder r conn s cl) = conn"
  "md_closeBody (newMessageDecoder r conn s cl) = cl" "md_stat (newMessageDecoder r conn s cl) = s"
  by (simp_all add: stageable_def ring_idle_def newMessageDecoder_def fresh_ring)

lemma emptyPool_inv: "pool_inv emptyPool {}"
  by (simp add: pool_inv_def emptyPool_def)

lemma demo_header_ok: "header_ok testH testRegistry test_valid (Some (RequestHeaders k))"
  by (simp add: header_ok_def demo_key PutUint64_nonempty)

lemma demo_body:
  "body_bytes (demoBody cs n) = take (unat n) (concat cs)"
  "body_ok (demoBody cs n) \<longleftrightarrow> unat n < 2 ^ 63 \<and> unat n \<le> length (concat cs)"
  by (auto simp: body_ok_def body_bytes_def demoBody_def emptyBody_def rbytes_def)

definition demoIn :: "test_headers inRequest" where
  "demoIn = \<lparr>iq_Service = 0, iq_ID = 0, iq_Headers = None, iq_Size = 0, iq_Reader = None\<rparr>"

definition demoInResp :: "test_headers inResponse" where
  "demoInResp = \<lparr>is_ID = 0, is_Headers = None, is_Size = 0, is_Reader = None, is_Error = []\<rparr>"

definition demoRequest :: "test_headers wireRequest" where
  "demoRequest = \<lparr>rq_Service = 1, rq_ID = 2, rq_Headers = Some (RequestHeaders 3),
     rq_Body = demoBody [[7, 8], [9]] 3\<rparr>"

definition demoResponse :: "byte list \<Rightarrow> test_headers wireResponse" where
  "demoResponse er = \<lparr>rs_ID = 2, rs_Headers = Some (RequestHeaders 3),
     rs_Body = demoBody [[7, 8], [9]] 3, rs_Error = er\<rparr>"

lemma demo_msgs [simp]:
  "rq_Headers demoRequest = Some (RequestHeaders 3)" "rq_Body demoRequest = demoBody [[7, 8], [9]] 3"
  "rs_Headers (demoResponse er) = Some (RequestHeaders 3)"
  "rs_Body (demoResponse er) = demoBody [[7, 8], [9]] 3" "rs_Error (demoResponse er) = er"
  "rq_ID demoRequest = 2" "rq_Service demoRequest = 1" "rs_ID (demoResponse er) = 2"
  by (simp_all add: demoRequest_def demoResponse_def)

definition demoDecoder :: "byte list list \<Rightarrow> messageDecoder" where
  "demoDecoder cs = newMessageDecoder \<lparr>rchunks = cs, rerr = EOF\<rparr> False zeroStats False"

lemma demo_decoder [simp]:
  "rbytes (md_r (demoDecoder cs)) = concat cs" "\<not> md_conn (demoDecoder cs)"
  "\<not> md_closeBody (demoDecoder cs)" "n \<le> 4096 \<Longrightarrow> stageable n (demoDecoder cs)"
  "rerr (md_r (demoDecoder cs)) = EOF"
  by (simp_all add: demoDecoder_def fresh_decoder rbytes_def)

theorem DecodeRequest_inverts_witness:
  "\<exists>in' d' st' body. DecodeRequest testH testRegistry (\<lambda>n c. n) None demoIn
      (demoDecoder [request_head testH testRegistry demoRequest @ [7], [8, 9, 1]]) (emptyPool, demoWorld) =
      (Ret (), in', d', st') \<and> iq_ID in' = 2 \<and> iq_Reader in' = Some body \<and>
      decoded_bytes body st' = [7, 8, 9] \<and> rbytes (md_r d') = [1]"
proof -
  let ?d = "demoDecoder [request_head testH testRegistry demoRequest @ [7], [8, 9, 1]]"
  have s: "stageable (length (header_bytes testH testRegistry (rq_Headers demoRequest))) ?d"
    and h: "header_ok testH testRegistry test_valid (rq_Headers demoRequest)"
    and b: "body_ok (rq_Body demoRequest)"
    by (simp_all add: demo_key demo_header_ok demo_body)
  have r: "rbytes (md_r ?d) = request_head testH testRegistry demoRequest @
      body_bytes (rq_Body demoRequest) @ [1]" by (simp add: demo_body)
  have i: "pool_inv (fst (emptyPool, demoWorld)) {}" by (simp add: emptyPool_inv)
  have c: "\<not> md_conn ?d" "\<not> md_closeBody ?d" by simp_all
  from DecodeRequest_inverts [OF test.registered_codec_axioms h b i c s r, of "\<lambda>n c. n" None demoIn]
  show ?thesis by (auto simp: demo_body)
qed

theorem DecodeResponse_inverts_witness:
  "\<exists>in' d' st' body. DecodeResponse testH testRegistry (\<lambda>n c. n) None demoInResp
      (demoDecoder [response_head testH testRegistry (demoResponse []) @ [7], [8, 9, 1]]) (emptyPool, demoWorld) =
      (Ret (), in', d', st') \<and> is_ID in' = 2 \<and> is_Reader in' = Some body \<and>
      decoded_bytes body st' = [7, 8, 9] \<and> rbytes (md_r d') = [1]"
proof -
  let ?d = "demoDecoder [response_head testH testRegistry (demoResponse []) @ [7], [8, 9, 1]]"
  have s: "stageable (length (header_bytes testH testRegistry (rs_Headers (demoResponse [])))) ?d"
    and h: "header_ok testH testRegistry test_valid (rs_Headers (demoResponse []))"
    and b: "body_ok (rs_Body (demoResponse []))"
    and e: "length (rs_Error (demoResponse [])) < 2 ^ 32" "rs_Error (demoResponse []) = [] \<or>
      header_bytes testH testRegistry (rs_Headers (demoResponse [])) = []"
    by (simp_all add: demo_key demo_header_ok demo_body)
  have r: "rbytes (md_r ?d) = response_head testH testRegistry (demoResponse []) @
      body_bytes (rs_Body (demoResponse [])) @ [1]" by (simp add: demo_body)
  have i: "pool_inv (fst (emptyPool, demoWorld)) {}" by (simp add: emptyPool_inv)
  have c: "\<not> md_conn ?d" "\<not> md_closeBody ?d" by simp_all
  from DecodeResponse_inverts [OF test.registered_codec_axioms h b e i c s r, of "\<lambda>n c. n" None demoInResp]
  show ?thesis by (auto simp: demo_body)
qed

theorem DecodeResponse_swaps_witness:
  "\<exists>in' d' st'. DecodeResponse testH testRegistry (\<lambda>n c. n) None demoInResp
      (demoDecoder [response_head testH testRegistry (demoResponse [65]) @ [7, 8, 9]]) (emptyPool, demoWorld) =
      (Ret (), in', d', st') \<and> is_Error in' = take 1 (PutUint64 3 @ [65]) \<and>
      is_Headers in' = Some (RequestHeaders (Uint64 (drop 1 (PutUint64 3 @ [65]))))"
proof -
  let ?d = "demoDecoder [response_head testH testRegistry (demoResponse [65]) @ [7, 8, 9]]"
  have r: "rbytes (md_r ?d) = response_head testH testRegistry (demoResponse [65]) @
      body_bytes (rs_Body (demoResponse [65])) @ []" by (simp add: demo_body)
  have i: "pool_inv (fst (emptyPool, demoWorld)) {}" by (simp add: emptyPool_inv)
  have b: "body_ok (rs_Body (demoResponse [65]))" by (simp add: demo_body)
  from DecodeResponse_swaps [where resp = "demoResponse [65]" and k = 3 and grw = "\<lambda>n c. n" and ch = None
      and inr = demoInResp, OF _ b _ _ i _ _ _ r]
  show ?thesis by simp
qed

lemma DecodeRequest_truncated_witness:
  "\<exists>d'. DecodeRequest testH testRegistry (\<lambda>n c. n) None demoIn (demoDecoder [[1], [2]]) (emptyPool, demoWorld) =
     (Fail ErrUnexpectedEOF, demoIn, d', (emptyPool, demoWorld))"
  using DecodeRequest_truncated [of "demoDecoder [[1], [2]]" testH testRegistry "\<lambda>n c. n" None demoIn
      "(emptyPool, demoWorld)"] by auto

lemma DecodeRequest_split_header_panics_witness:
  "fst (DecodeRequest testH testRegistry (\<lambda>n c. n) None demoIn
     ((demoDecoder [put_request \<lparr>q_Service = 0, q_HeaderType = 1, q_HeaderSize = 8, q_ID = 1, q_BodySize = 0\<rparr>,
        [0, 0, 0, 0], [0, 0, 0, 5]])
      \<lparr>md_ring := \<lparr>rb_start = 4094, rb_size = 0, rb_buf = replicate 4096 0\<rparr>\<rparr>) (emptyPool, demoWorld)) =
   Panic ''slice bounds out of range''"
  by (rule DecodeRequest_split_header_panics
      [where l = "\<lparr>q_Service = 0, q_HeaderType = 1, q_HeaderSize = 8, q_ID = 1, q_BodySize = 0\<rparr>"
        and ?c1.0 = "[0, 0, 0, 0]" and ?c2.0 = "[0, 0, 0, 5]" and cs = "[]" and c = "RequestHeaders 0"])
    (simp_all add: demoDecoder_def newMessageDecoder_def ring_idle_def ring_wf_def ring_list_def
      Capacity_def newHeaders_def testRegistry_def RegisterHeaders_def initRegistry_def)

end
