(* ===== verification/Service_Dispatcher.thy ===== *)
theory Service_Dispatcher
  imports Go_Prelude
begin

text \<open>
  Routing of requests to handlers, \<^verbatim>\<open>src/dispatcher.go\<close>, and the types of requests, responses
  and handlers it shares with client and server (\<^verbatim>\<open>src/server.go\<close>).

  A handler is the user's code. It returns a response (possibly nil) and an error (the text
  of \<open>err.Error()\<close> is all the server uses of it), or it panics (\<open>Inl\<close>). Bodies are a type
  parameter: the client sends \<open>Body\<close> values, the server receives decoded ones.
\<close>

section \<open>Requests, responses, handlers\<close>

record ('h, 'b) Request =
  req_Service :: uint32
  req_Headers :: "'h option"
  req_Body :: 'b

record ('h, 'b) Response =
  resp_Headers :: "'h option"
  resp_Body :: 'b

type_synonym errtext = "byte list"

type_synonym ('q, 'r) HandlerFunc = "string \<Rightarrow> 'q \<Rightarrow> string + 'r option \<times> errtext option"

definition bytes_of_string :: "string \<Rightarrow> byte list" where
  "bytes_of_string s = map of_char s"

definition ErrUnknownService :: errtext where
  "ErrUnknownService = bytes_of_string ''unknown service''"

section \<open>The dispatcher\<close>

record 'f Dispatcher =
  services :: "'f list"
  serviceNameMap :: "string \<rightharpoonup> uint32"

definition NewDispatcher :: "'f Dispatcher" where
  "NewDispatcher = \<lparr>services = [], serviceNameMap = Map.empty\<rparr>"

text \<open>\<open>AddService\<close> returns the service number and whether the name was taken.\<close>

definition AddService :: "string \<Rightarrow> 'f \<Rightarrow> 'f Dispatcher \<Rightarrow> (uint32 \<times> bool) \<times> 'f Dispatcher" where
  "AddService name handler d =
     (case serviceNameMap d name of
        Some _ \<Rightarrow> ((0, True), d)
      | None \<Rightarrow>
          (let srv = word_of_nat (length (services d)) in
           ((srv, False), d\<lparr>serviceNameMap := (serviceNameMap d)(name \<mapsto> srv),
                           services := services d @ [handler]\<rparr>)))"

definition GetService :: "string \<Rightarrow> 'f Dispatcher \<Rightarrow> uint32 \<times> bool" where
  "GetService name d = (case serviceNameMap d name of None \<Rightarrow> (0, False) | Some srv \<Rightarrow> (srv, True))"

definition MustGetService :: "string \<Rightarrow> 'f Dispatcher \<Rightarrow> uint32 outcome" where
  "MustGetService name d =
     (case GetService name d of
        (srv, True) \<Rightarrow> Ret srv
      | (_, False) \<Rightarrow> Panic (''service not found: '' @ name))"

text \<open>The handler the dispatcher builds: the service number is an index into the table.\<close>

definition dispatch :: "(('h, 'b) Request, 'r) HandlerFunc Dispatcher \<Rightarrow> (('h, 'b) Request, 'r) HandlerFunc" where
  "dispatch d clientAddr request =
     (if unat (req_Service request) \<ge> length (services d) then Inr (None, Some ErrUnknownService)
      else (services d ! unat (req_Service request)) clientAddr request)"

section \<open>What the dispatcher promises\<close>

text \<open>
  The abstract dispatcher is a partial function from names to handlers; adding a taken name
  changes nothing.
\<close>

definition disp_abs :: "'f Dispatcher \<Rightarrow> string \<rightharpoonup> 'f" where
  "disp_abs d name = map_option (\<lambda>srv. services d ! unat srv) (serviceNameMap d name)"

definition disp_wf :: "'f Dispatcher \<Rightarrow> bool" where
  "disp_wf d \<longleftrightarrow> length (services d) < 2 ^ 32 \<and>
     (\<forall>name srv. serviceNameMap d name = Some srv \<longrightarrow> unat srv < length (services d)) \<and>
     inj_on (serviceNameMap d) (dom (serviceNameMap d)) \<and>
     (\<forall>i < length (services d). \<exists>name. serviceNameMap d name = Some (word_of_nat i))"

fun AddServices :: "(string \<times> 'f) list \<Rightarrow> 'f Dispatcher \<Rightarrow> 'f Dispatcher" where
  "AddServices [] d = d"
| "AddServices ((name, f) # xs) d = AddServices xs (snd (AddService name f d))"

lemmas dispatcher_defs = NewDispatcher_def AddService_def GetService_def MustGetService_def

declare dispatcher_defs [go_run]

lemma unat_word32: "n < 2 ^ 32 \<Longrightarrow> unat (word_of_nat n :: uint32) = n"
  by (simp add: unat_of_nat)

lemma NewDispatcher_wf: "disp_wf NewDispatcher" "disp_abs NewDispatcher = Map.empty"
  by (simp_all add: disp_wf_def disp_abs_def NewDispatcher_def fun_eq_iff)

lemma AddService_taken:
  "serviceNameMap d name \<noteq> None \<Longrightarrow> AddService name f d = ((0, True), d)"
  by (auto simp: AddService_def)

lemma AddService_wf:
  assumes wf: "disp_wf d" and len: "Suc (length (services d)) < 2 ^ 32"
  shows "disp_wf (snd (AddService name f d)) \<and>
    disp_abs (snd (AddService name f d)) =
      (if name \<in> dom (disp_abs d) then disp_abs d else (disp_abs d)(name \<mapsto> f))"
proof (cases "serviceNameMap d name")
  case (Some srv)
  with wf show ?thesis by (auto simp: AddService_def disp_abs_def)
next
  case None
  let ?n = "length (services d)" and ?s = "word_of_nat (length (services d)) :: uint32"
  have n: "unat ?s = ?n" using len by (intro unat_word32) simp
  have fresh: "srv \<noteq> ?s" if "serviceNameMap d nm = Some srv" for nm srv
    using wf that n unfolding disp_wf_def by (metis less_irrefl)
  let ?d = "snd (AddService name f d)"
  have d: "serviceNameMap ?d = (serviceNameMap d)(name \<mapsto> ?s)" "services ?d = services d @ [f]"
    using None by (simp_all add: AddService_def Let_def)
  have "inj_on (serviceNameMap ?d) (dom (serviceNameMap ?d))"
    using wf fresh unfolding d disp_wf_def by (fastforce simp: inj_on_def dom_def)
  moreover have "\<exists>nm. serviceNameMap ?d nm = Some (word_of_nat i)" if i: "i < length (services ?d)" for i
  proof (cases "i = ?n")
    case True
    then show ?thesis unfolding d by (intro exI [of _ name]) simp
  next
    case False
    then obtain nm where "serviceNameMap d nm = Some (word_of_nat i)"
      using wf i unfolding d disp_wf_def by (auto simp: less_Suc_eq)
    with None show ?thesis unfolding d by (intro exI [of _ nm]) auto
  qed
  moreover have "unat srv < length (services ?d)" if "serviceNameMap ?d nm = Some srv" for nm srv
    using wf that n unfolding d disp_wf_def by (auto simp: less_SucI split: if_splits)
  ultimately have "disp_wf ?d" using len unfolding disp_wf_def d by (simp add: d)
  moreover have "disp_abs ?d = (disp_abs d)(name \<mapsto> f)"
  proof
    fix nm
    show "disp_abs ?d nm = ((disp_abs d)(name \<mapsto> f)) nm"
      using wf n unfolding disp_abs_def d
      by (cases "serviceNameMap d nm") (auto simp: disp_wf_def nth_append)
  qed
  moreover have "name \<notin> dom (disp_abs d)" using None by (simp add: disp_abs_def domIff)
  ultimately show ?thesis by simp
qed

lemma AddServices_wf:
  assumes "disp_wf d" "length (services d) + length xs < 2 ^ 32"
  shows "disp_wf (AddServices xs d) \<and> disp_abs (AddServices xs d) = map_of xs ++ disp_abs d"
  using assms
proof (induction xs arbitrary: d)
  case Nil
  then show ?case by simp
next
  case (Cons x xs)
  obtain name f where x: "x = (name, f)" by (cases x)
  let ?d = "snd (AddService name f d)"
  have len: "Suc (length (services d)) < 2 ^ 32" using Cons.prems(2) by simp
  note A = AddService_wf [OF Cons.prems(1) len, of name f]
  have "length (services ?d) \<le> Suc (length (services d))"
    by (simp add: AddService_def Let_def split: option.splits)
  with Cons.IH [of ?d] A Cons.prems(2) show ?case
    by (auto simp: x fun_eq_iff map_add_def dom_def split: option.splits)
qed

text \<open>
  C22. Routing. After any sequence of \<open>AddService\<close> calls the first handler added under a
  name is the one that is called: \<open>MustGetService\<close> returns a number for exactly the added
  names, different names have different numbers, and a request with that number reaches that
  handler. A number outside the table is answered with \<open>ErrUnknownService\<close>.
\<close>

theorem dispatcher_routes:
  assumes "length xs < 2 ^ 32" "d = AddServices xs NewDispatcher"
  shows "(case map_of xs name of
      None \<Rightarrow> MustGetService name d = Panic (''service not found: '' @ name)
    | Some f \<Rightarrow> \<exists>srv. MustGetService name d = Ret srv \<and> unat srv < length (services d) \<and>
        (\<forall>name'. MustGetService name' d = Ret srv \<longrightarrow> name' = name) \<and>
        (\<forall>addr req. req_Service req = srv \<longrightarrow> dispatch d addr req = f addr req)) \<and>
    (length (services d) \<le> unat (req_Service req) \<longrightarrow>
      dispatch d addr req = Inr (None, Some ErrUnknownService))"
proof -
  have W: "disp_wf d" "disp_abs d = map_of xs"
    using AddServices_wf [OF NewDispatcher_wf(1), of xs] assms
    by (simp_all add: NewDispatcher_wf(2)) (simp_all add: NewDispatcher_def)
  have "\<exists>srv. MustGetService name d = Ret srv \<and> unat srv < length (services d) \<and>
      (\<forall>name'. MustGetService name' d = Ret srv \<longrightarrow> name' = name) \<and>
      (\<forall>addr req. req_Service req = srv \<longrightarrow> dispatch d addr req = f addr req)"
    if f: "map_of xs name = Some f" for f
  proof -
    from f have "disp_abs d name = Some f" unfolding W(2) .
    then obtain srv where S: "serviceNameMap d name = Some srv" and h: "f = services d ! unat srv"
      by (auto simp: disp_abs_def)
    have lt: "unat srv < length (services d)" using W(1) S by (simp add: disp_wf_def)
    have u: "name' = name" if "MustGetService name' d = Ret srv" for name'
    proof -
      from that have "serviceNameMap d name' = Some srv"
        by (auto simp: MustGetService_def GetService_def split: option.splits)
      with W(1) S show ?thesis unfolding disp_wf_def inj_on_def by (metis domI)
    qed
    have "MustGetService name d = Ret srv" using S by (simp add: MustGetService_def GetService_def)
    moreover have "dispatch d addr req = f addr req" if "req_Service req = srv" for addr req
      using that lt by (simp add: dispatch_def h)
    ultimately show ?thesis using lt u by blast
  qed
  moreover have "MustGetService name d = Panic (''service not found: '' @ name)" if "map_of xs name = None"
  proof -
    from that have "disp_abs d name = None" unfolding W(2) .
    then show ?thesis by (simp add: disp_abs_def MustGetService_def GetService_def)
  qed
  moreover have "dispatch d addr req = Inr (None, Some ErrUnknownService)"
    if "length (services d) \<le> unat (req_Service req)"
    using that by (simp add: dispatch_def)
  ultimately show ?thesis by (cases "map_of xs name") simp_all
qed

text \<open>Two services under three registrations: the second \<open>''a''\<close> is refused.\<close>

theorem dispatcher_routes_witness:
  "dispatch (AddServices [(''a'', \<lambda>_ _. Inr (Some 1, None)), (''b'', \<lambda>_ _. Inr (Some 2, None)),
      (''a'', \<lambda>_ _. Inr (Some (3 :: int), None))] NewDispatcher) ''peer''
      \<lparr>req_Service = 0, req_Headers = (None :: unit option), req_Body = ()\<rparr> = Inr (Some 1, None)"
proof -
  let ?xs = "[(''a'', \<lambda>_ _. Inr (Some 1, None)), (''b'', \<lambda>_ _. Inr (Some 2, None)),
      (''a'', \<lambda>(_ :: string) (_ :: (unit, unit) Request).
        (Inr (Some 3, None) :: string + int option \<times> errtext option))]"
  define d where "d = AddServices ?xs NewDispatcher"
  have M: "MustGetService ''a'' d = Ret 0" by (simp add: d_def dispatcher_defs)
  have len: "length ?xs < 2 ^ 32" by simp
  have f: "map_of ?xs ''a'' = Some (\<lambda>_ _. Inr (Some 1, None))" by simp
  from dispatcher_routes [OF len d_def, of "''a''", unfolded f option.case] M
  show ?thesis unfolding d_def [symmetric] by auto
qed

end
