(* ===== verification/Timer_Pool.thy ===== *)
theory Timer_Pool
  imports Go_Prelude
begin

text \<open>
  Timers, \<^verbatim>\<open>src/common.go\<close>. A \<open>time.Timer\<close> of the Go version in \<^verbatim>\<open>go.mod\<close> (1.19) is
  armed or not, and its channel \<open>C\<close> has room for one value. An armed timer may expire at any
  moment, which puts a value into \<open>C\<close>. \<open>Stop\<close> and \<open>Reset\<close> return whether the timer was
  armed and leave \<open>C\<close> alone.

  \<open>acquireTimer\<close> and \<open>releaseTimer\<close> recycle timers through a pool; a stale value in \<open>C\<close>
  would make a later call time out at once. The theorem shows that no interleaving with
  expiries produces one, and that the panic in \<open>acquireTimer\<close> is unreachable.
\<close>

section \<open>Timers\<close>

record timer =
  tm_active :: bool
  tm_chan :: bool

definition NewTimer :: timer where
  "NewTimer = \<lparr>tm_active = True, tm_chan = False\<rparr>"

definition timer_Stop :: "timer \<Rightarrow> bool \<times> timer" where
  "timer_Stop t = (tm_active t, t\<lparr>tm_active := False\<rparr>)"

definition timer_Reset :: "timer \<Rightarrow> bool \<times> timer" where
  "timer_Reset t = (tm_active t, t\<lparr>tm_active := True\<rparr>)"

text \<open>The runtime's step, and a receive from \<open>C\<close> (also the non-blocking one).\<close>

definition expire :: "timer \<Rightarrow> timer" where
  "expire t = (if tm_active t then t\<lparr>tm_active := False, tm_chan := True\<rparr> else t)"

definition drain :: "timer \<Rightarrow> timer" where
  "drain t = t\<lparr>tm_chan := False\<rparr>"

section \<open>The timer pool\<close>

record timers =
  tp_heap :: "nat \<Rightarrow> timer"
  tp_pool :: "nat list"
  tp_next :: nat

definition noTimers :: timers where
  "noTimers = \<lparr>tp_heap = (\<lambda>_. NewTimer), tp_pool = [], tp_next = 0\<rparr>"

definition acquireTimer :: "nat option \<Rightarrow> timers \<Rightarrow> nat outcome \<times> timers" where
  "acquireTimer ch st =
     (case pool_pick ch (tp_pool st) of
        (None, _) \<Rightarrow> (Ret (tp_next st), st\<lparr>tp_heap := (tp_heap st)(tp_next st := NewTimer),
                                         tp_next := Suc (tp_next st)\<rparr>)
      | (Some a, ps) \<Rightarrow>
          (case timer_Reset (tp_heap st a) of
             (True, t) \<Rightarrow> (Panic ''BUG: Active timer trapped into acquireTimer()'', st\<lparr>tp_pool := ps\<rparr>)
           | (False, t) \<Rightarrow> (Ret a, st\<lparr>tp_pool := ps, tp_heap := (tp_heap st)(a := t)\<rparr>)))"

definition releaseTimer :: "nat \<Rightarrow> timers \<Rightarrow> timers" where
  "releaseTimer a st =
     (case timer_Stop (tp_heap st a) of
        (stopped, t) \<Rightarrow>
          st\<lparr>tp_heap := (tp_heap st)(a := (if stopped then t else drain t)),
             tp_pool := a # tp_pool st\<rparr>)"

text \<open>
  \<open>getFlushChan\<close>: with no delay the closed channel, which is always ready; otherwise the
  timer is stopped, emptied and armed again.
\<close>

datatype flushChan = ClosedFlushChan | TimerC

definition getFlushChan :: "int \<Rightarrow> timer \<Rightarrow> flushChan \<times> timer" where
  "getFlushChan flushDelay t =
     (if flushDelay \<le> 0 then (ClosedFlushChan, t)
      else case timer_Stop t of
          (stopped, t1) \<Rightarrow> (TimerC, snd (timer_Reset (if stopped then t1 else drain t1))))"

section \<open>No stale ticks\<close>

text \<open>
  Everything that can happen to the timers: \<open>held\<close> are the ones in use. A holder may receive
  from \<open>C\<close>; any armed timer may expire at any time.
\<close>

inductive timers_reach :: "timers \<Rightarrow> nat set \<Rightarrow> bool" where
  start: "timers_reach noTimers {}"
| acquire: "timers_reach st held \<Longrightarrow> acquireTimer ch st = (Ret a, st') \<Longrightarrow>
    timers_reach st' (insert a held)"
| expiry: "timers_reach st held \<Longrightarrow>
    timers_reach (st\<lparr>tp_heap := (tp_heap st)(a := expire (tp_heap st a))\<rparr>) held"
| receive: "timers_reach st held \<Longrightarrow> a \<in> held \<Longrightarrow> tm_chan (tp_heap st a) \<Longrightarrow>
    timers_reach (st\<lparr>tp_heap := (tp_heap st)(a := drain (tp_heap st a))\<rparr>) held"
| release: "timers_reach st held \<Longrightarrow> a \<in> held \<Longrightarrow>
    timers_reach (releaseTimer a st) (held - {a})"

text \<open>An armed timer has an empty channel.\<close>

definition timer_ok :: "timer \<Rightarrow> bool" where
  "timer_ok t \<longleftrightarrow> \<not> (tm_active t \<and> tm_chan t)"

definition timers_inv :: "timers \<Rightarrow> nat set \<Rightarrow> bool" where
  "timers_inv st held \<longleftrightarrow> distinct (tp_pool st) \<and> set (tp_pool st) \<inter> held = {} \<and>
     set (tp_pool st) \<union> held \<subseteq> {..<tp_next st} \<and>
     (\<forall>a \<in> set (tp_pool st). \<not> tm_active (tp_heap st a) \<and> \<not> tm_chan (tp_heap st a)) \<and>
     (\<forall>a \<in> held. timer_ok (tp_heap st a))"

lemmas timer_defs = NewTimer_def timer_Stop_def timer_Reset_def expire_def drain_def timer_ok_def

lemma acquireTimer_inv:
  assumes inv: "timers_inv st held"
  shows "\<exists>a st'. acquireTimer ch st = (Ret a, st') \<and> a \<notin> held \<and> tm_active (tp_heap st' a) \<and>
    \<not> tm_chan (tp_heap st' a) \<and> timers_inv st' (insert a held)"
proof (cases "pool_pick ch (tp_pool st)")
  case (Pair x ps)
  show ?thesis
  proof (cases x)
    case None
    with Pair inv show ?thesis
      by (auto simp: acquireTimer_def timers_inv_def timer_defs)
  next
    case (Some a)
    with Pair have P: "pool_pick ch (tp_pool st) = (Some a, ps)" by simp
    have p: "a \<in> set (tp_pool st)" "set ps = set (tp_pool st) - {a}" "distinct ps"
      using pool_pick_Some [OF P] inv by (auto simp: timers_inv_def)
    have off: "\<not> tm_active (tp_heap st a)" "\<not> tm_chan (tp_heap st a)"
      using inv p(1) by (auto simp: timers_inv_def)
    let ?st = "st\<lparr>tp_pool := ps, tp_heap := (tp_heap st)(a := (tp_heap st a)\<lparr>tm_active := True\<rparr>)\<rparr>"
    have "acquireTimer ch st = (Ret a, ?st)"
      using P off by (simp add: acquireTimer_def timer_Reset_def)
    moreover have "timers_inv ?st (insert a held)"
      using inv p off by (auto simp: timers_inv_def timer_defs)
    moreover have "a \<notin> held" using inv p(1) by (auto simp: timers_inv_def)
    ultimately show ?thesis using off by simp
  qed
qed

lemma timers_reach_inv: "timers_reach st held \<Longrightarrow> timers_inv st held"
proof (induction rule: timers_reach.induct)
  case start
  show ?case by (simp add: timers_inv_def noTimers_def)
next
  case (acquire st held ch a st')
  then show ?case using acquireTimer_inv [of st held ch] by auto
next
  case (expiry st held a)
  then show ?case by (auto simp: timers_inv_def timer_defs)
next
  case (receive st held a)
  then show ?case by (auto simp: timers_inv_def timer_defs)
next
  case (release st held a)
  then show ?case by (auto simp: timers_inv_def releaseTimer_def timer_defs)
qed

text \<open>
  However acquisitions, releases, receives and expiries interleave, \<open>acquireTimer\<close> does
  not panic, and the timer it returns is armed, not in use elsewhere, and has no stale tick in
  its channel.
\<close>

lemma acquireTimer_fresh:
  assumes "timers_reach st held"
  shows "\<exists>a st'. acquireTimer ch st = (Ret a, st') \<and> a \<notin> held \<and> tm_active (tp_heap st' a) \<and>
    \<not> tm_chan (tp_heap st' a)"
  using acquireTimer_inv [OF timers_reach_inv [OF assms]] by blast

text \<open>A timer that expired unseen before it was released is recycled clean.\<close>

lemma acquireTimer_fresh_witness:
  "\<exists>st st'. timers_reach st {} \<and> acquireTimer (Some 0) st = (Ret 0, st') \<and> \<not> tm_chan (tp_heap st' 0)"
proof -
  let ?s1 = "snd (acquireTimer None noTimers)"
  let ?s2 = "?s1\<lparr>tp_heap := (tp_heap ?s1)(0 := expire (tp_heap ?s1 0))\<rparr>"
  let ?s3 = "releaseTimer 0 ?s2"
  have "acquireTimer None noTimers = (Ret 0, ?s1)" by (simp add: acquireTimer_def noTimers_def pool_pick_def)
  from timers_reach.acquire [OF timers_reach.start this] have "timers_reach ?s1 {0}" by simp
  from timers_reach.release [OF timers_reach.expiry [OF this, of 0], of 0] have R: "timers_reach ?s3 {}" by simp
  have A: "fst (acquireTimer (Some 0) ?s3) = Ret 0"
    by (simp add: acquireTimer_def noTimers_def pool_pick_def releaseTimer_def timer_defs)
  from acquireTimer_fresh [OF R, of "Some 0"] A R show ?thesis by fastforce
qed

text \<open>
  The flush timer: as long as an armed timer has an empty channel, which every
  operation keeps, \<open>getFlushChan\<close> with a positive delay returns the channel of a timer that
  is armed and has not ticked; without a delay it returns the channel that is always ready
  and leaves the timer alone.
\<close>

lemma getFlushChan_fresh:
  "(0 < delay \<and> timer_ok t \<longrightarrow>
      (\<exists>t'. getFlushChan delay t = (TimerC, t') \<and> tm_active t' \<and> \<not> tm_chan t' \<and> timer_ok t')) \<and>
   (delay \<le> 0 \<longrightarrow> getFlushChan delay t = (ClosedFlushChan, t)) \<and>
   timer_ok NewTimer \<and> (timer_ok t \<longrightarrow> timer_ok (expire t) \<and> timer_ok (drain t))"
  by (cases t) (auto simp: getFlushChan_def timer_defs)

lemma getFlushChan_fresh_witness:
  "\<exists>t'. getFlushChan 5 (expire NewTimer) = (TimerC, t') \<and> tm_active t' \<and> \<not> tm_chan t'"
  using getFlushChan_fresh [of 5 "expire NewTimer"] by (auto simp: timer_defs)

end
