(* ===== verification/Client_Calls.thy ===== *)
theory Client_Calls
  imports Service_Dispatcher Message_Decoder
begin

text \<open>
  The caller's side of the client, \<^verbatim>\<open>src/client.go\<close>: asynchronous results and their pool, the
  bounded queue of requests, calls with a timeout, sends and cancellation.

  Results are shared by pointer between the caller, the queue, the connections and the pool,
  so they live in a store \<open>c_heap\<close>. A channel is a number; closing one that is closed
  panics, as in Go. The fields \<open>Done\<close> and \<open>done\<close> of a result are always set and cleared
  together and are one field here. Operations on channels are atomic in Go; each is one
  definition, and \<open>callAsync\<close> composes them in the order of the code. The connections that
  take requests from the queue are in \<open>Client_Conn\<close>, batches in \<open>Client_Batch\<close>, the timers of a
  call in \<open>Timer_Pool\<close>.
\<close>

section \<open>Results\<close>

text \<open>A received body, the part of \<open>Body\<close> that \<open>DecodeResponse\<close> fills.\<close>

record recvBody =
  cb_Size :: uint64
  cb_Reader :: "decoded option"

definition noBody :: recvBody where
  "noBody = \<lparr>cb_Size = 0, cb_Reader = None\<rparr>"

text \<open>\<open>ClientError\<close>: which of its flags is set, and what it says where that matters.\<close>

datatype ClientError = CTimeout | CConnection goerr | CServer errtext | COverflow | CCanceled

type_synonym 'h request = "('h, Body) Request"
type_synonym 'h response = "('h, recvBody) Response"

record 'h AsyncResult =
  ar_Response :: "'h response"
  ar_Error :: "ClientError option"
  ar_request :: "'h request"
  ar_t :: nat
  ar_done :: "nat option"
  ar_canceled :: bool

definition zeroReq :: "'h request" where
  "zeroReq = \<lparr>req_Service = 0, req_Headers = None, req_Body = emptyBody\<rparr>"

definition zeroResp :: "'h response" where
  "zeroResp = \<lparr>resp_Headers = None, resp_Body = noBody\<rparr>"

definition zeroResult :: "'h AsyncResult" where
  "zeroResult = \<lparr>ar_Response = zeroResp, ar_Error = None, ar_request = zeroReq, ar_t = 0,
     ar_done = None, ar_canceled = False\<rparr>"

section \<open>The client\<close>

record 'h Client =
  c_cap :: nat
  c_requests :: "nat list"
  c_heap :: "nat \<Rightarrow> 'h AsyncResult"
  c_next :: nat
  c_pool :: "nat list"
  c_chan :: nat
  c_closed :: "nat set"
  c_count :: uint32
  c_Stats :: ConnStats

definition set_result :: "nat \<Rightarrow> 'h AsyncResult \<Rightarrow> 'h Client \<Rightarrow> 'h Client" where
  "set_result a m c = c\<lparr>c_heap := (c_heap c)(a := m)\<rparr>"

definition make_chan :: "'h Client \<Rightarrow> nat \<times> 'h Client" where
  "make_chan c = (c_chan c, c\<lparr>c_chan := Suc (c_chan c)\<rparr>)"

definition close_chan :: "nat \<Rightarrow> 'h Client \<Rightarrow> unit outcome \<times> 'h Client" where
  "close_chan d c =
     (if d \<in> c_closed c then (Panic ''close of closed channel'', c)
      else (Ret (), c\<lparr>c_closed := insert d (c_closed c)\<rparr>))"

definition new_result :: "'h Client \<Rightarrow> nat \<times> 'h Client" where
  "new_result c = (c_next c, set_result (c_next c) zeroResult (c\<lparr>c_next := Suc (c_next c)\<rparr>))"

definition acquireAsyncResult :: "nat option \<Rightarrow> 'h Client \<Rightarrow> nat \<times> 'h Client" where
  "acquireAsyncResult ch c =
     (case pool_pick ch (c_pool c) of
        (None, _) \<Rightarrow> new_result c
      | (Some a, ps) \<Rightarrow> (a, c\<lparr>c_pool := ps\<rparr>))"

text \<open>
  \<open>releaseAsyncResult\<close> clears the fields the code names. The response's headers and the
  cancellation flag are not among them.
\<close>

definition releaseAsyncResult :: "nat \<Rightarrow> 'h Client \<Rightarrow> 'h Client" where
  "releaseAsyncResult a c =
     (let m = c_heap c a in
      set_result a (m\<lparr>ar_Response := (ar_Response m)\<lparr>resp_Body := noBody\<rparr>, ar_Error := None,
          ar_done := None,
          ar_request := (ar_request m)\<lparr>req_Service := 0, req_Headers := None,
                          req_Body := body_Reset (req_Body (ar_request m))\<rparr>,
          ar_t := 0\<rparr>)
        (c\<lparr>c_pool := a # c_pool c\<rparr>))"

definition Cancel :: "nat \<Rightarrow> 'h Client \<Rightarrow> 'h Client" where
  "Cancel a c = set_result a ((c_heap c a)\<lparr>ar_canceled := True\<rparr>) c"

definition isCanceled :: "nat \<Rightarrow> 'h Client \<Rightarrow> bool" where
  "isCanceled a c = ar_canceled (c_heap c a)"

definition PendingRequestsCount :: "'h Client \<Rightarrow> nat" where
  "PendingRequestsCount c = unat (c_count c) + length (c_requests c)"

section \<open>Starting a call\<close>

text \<open>The part of \<open>callAsync\<close> before its first \<open>select\<close>: \<open>now\<close> is \<open>time.Now()\<close>.\<close>

definition callAsync_new :: "nat option \<Rightarrow> 'h request \<Rightarrow> bool \<Rightarrow> bool \<Rightarrow> nat \<Rightarrow> 'h Client \<Rightarrow> nat \<times> 'h Client" where
  "callAsync_new ch request skipResponse usePool now c =
     (case (if skipResponse \<or> usePool then acquireAsyncResult ch c else new_result c) of
        (a, c1) \<Rightarrow>
          (let m = (c_heap c1 a)\<lparr>ar_request := request\<rparr> in
           if skipResponse then (a, set_result a m c1)
           else (case make_chan c1 of
                   (d, c2) \<Rightarrow> (a, set_result a (m\<lparr>ar_t := now, ar_done := Some d\<rparr>) c2))))"

text \<open>\<open>select { case c.requestsChan <- m: ... default: ... }\<close>\<close>

definition trySend :: "nat \<Rightarrow> 'h Client \<Rightarrow> bool \<times> 'h Client" where
  "trySend a c =
     (if length (c_requests c) < c_cap c then (True, c\<lparr>c_requests := c_requests c @ [a]\<rparr>)
      else (False, c))"

text \<open>Give up a result: tell its caller, or recycle it if nobody waits.\<close>

definition finish :: "nat \<Rightarrow> ClientError \<Rightarrow> 'h Client \<Rightarrow> unit outcome \<times> 'h Client" where
  "finish a err c =
     (case ar_done (c_heap c a) of
        Some d \<Rightarrow> close_chan d (set_result a ((c_heap c a)\<lparr>ar_Error := Some err\<rparr>) c)
      | None \<Rightarrow> (Ret (), releaseAsyncResult a c))"

text \<open>Substituting the oldest request: a non-blocking receive from the queue.\<close>

definition evictOldest :: "'h Client \<Rightarrow> unit outcome \<times> 'h Client" where
  "evictOldest c =
     (case c_requests c of
        [] \<Rightarrow> (Ret (), c)
      | mm # q \<Rightarrow> finish mm COverflow (c\<lparr>c_requests := q\<rparr>))"

definition callAsync :: "nat option \<Rightarrow> 'h request \<Rightarrow> bool \<Rightarrow> bool \<Rightarrow> nat \<Rightarrow> 'h Client \<Rightarrow>
    (ClientError + nat) outcome \<times> 'h Client" where
  "callAsync ch request skipResponse usePool now c =
     (case callAsync_new ch request skipResponse usePool now c of
        (a, c1) \<Rightarrow>
          (case trySend a c1 of
             (True, c2) \<Rightarrow> (Ret (Inr a), c2)
           | (False, c2) \<Rightarrow>
               if skipResponse then (Ret (Inl COverflow), releaseAsyncResult a c2)
               else (case evictOldest c2 of
                       (Panic s, c3) \<Rightarrow> (Panic s, c3)
                     | (_, c3) \<Rightarrow>
                         (case trySend a c3 of
                            (True, c4) \<Rightarrow> (Ret (Inr a), c4)
                          | (False, c4) \<Rightarrow> (Ret (Inl COverflow), releaseAsyncResult a c4)))))"

definition CallAsync :: "'h request \<Rightarrow> nat \<Rightarrow> 'h Client \<Rightarrow> (ClientError + nat) outcome \<times> 'h Client" where
  "CallAsync request now c = callAsync None request False False now c"

definition Send :: "nat option \<Rightarrow> 'h request \<Rightarrow> nat \<Rightarrow> 'h Client \<Rightarrow>
    ClientError option outcome \<times> 'h Client" where
  "Send ch request now c =
     (case callAsync ch request True True now c of
        (Ret (Inl e), c') \<Rightarrow> (Ret (Some e), c')
      | (Ret (Inr _), c') \<Rightarrow> (Ret None, c')
      | (Fail e, c') \<Rightarrow> (Fail e, c')
      | (Panic s, c') \<Rightarrow> (Panic s, c'))"

text \<open>
  The \<open>select\<close> at the end of \<open>CallTimeout\<close>. Its first branch is open once \<open>Done\<close> is closed,
  its second once the timer has ticked; \<open>done\<close> says which one is taken.
\<close>

definition CallTimeout_select :: "bool \<Rightarrow> nat \<Rightarrow> 'h Client \<Rightarrow>
    ('h response \<times> ClientError option) \<times> 'h Client" where
  "CallTimeout_select done a c =
     (if done
      then ((ar_Response (c_heap c a), ar_Error (c_heap c a)), releaseAsyncResult a c)
      else ((zeroResp, Some CTimeout), Cancel a c))"

definition done_ready :: "nat \<Rightarrow> 'h Client \<Rightarrow> bool" where
  "done_ready a c \<longleftrightarrow> (case ar_done (c_heap c a) of None \<Rightarrow> False | Some d \<Rightarrow> d \<in> c_closed c)"

text \<open>
  \<open>CallTimeout\<close>: the call is queued, the rest of the program runs (\<open>world\<close>), and the
  \<open>select\<close> takes a branch that is open.
\<close>

definition CallTimeout :: "nat option \<Rightarrow> 'h request \<Rightarrow> nat \<Rightarrow> ('h Client \<Rightarrow> 'h Client) \<Rightarrow> 'h Client \<Rightarrow>
    ('h response \<times> ClientError option) outcome \<times> 'h Client" where
  "CallTimeout ch request now world c =
     (case callAsync ch request False True now c of
        (Ret (Inl e), c') \<Rightarrow> (Ret (zeroResp, Some e), c')
      | (Ret (Inr a), c') \<Rightarrow>
          (case CallTimeout_select (done_ready a (world c')) a (world c') of
             (x, c'') \<Rightarrow> (Ret x, c''))
      | (Fail e, c') \<Rightarrow> (Fail e, c')
      | (Panic s, c') \<Rightarrow> (Panic s, c'))"

text \<open>\<open>Call\<close> is \<open>CallTimeout\<close> with the configured timeout; when the timer ticks is up to \<open>world\<close>.\<close>

definition Call :: "nat option \<Rightarrow> 'h request \<Rightarrow> nat \<Rightarrow> ('h Client \<Rightarrow> 'h Client) \<Rightarrow> 'h Client \<Rightarrow>
    ('h response \<times> ClientError option) outcome \<times> 'h Client" where
  "Call ch request now world c = CallTimeout ch request now world c"

end
