(* ===== verification/Client_Conn.thy ===== *)
theory Client_Conn
  imports Client_Calls
begin

text \<open>
  The connection side of the client, \<^verbatim>\<open>src/client.go\<close>: the writer that takes requests from the
  queue, gives them message identifiers and encodes them, the reader that matches responses
  with pending requests, and the clean-up when a connection ends. A client has several
  connections; they share the queue and the store of results.
\<close>

section \<open>One connection\<close>

text \<open>
  \<open>pendingRequests\<close> is a map from message identifiers; it is kept as an association list with
  distinct keys, so that \<open>len(pendingRequests)\<close> is its length.
\<close>

record clientConn =
  cc_pending :: "(uint64 \<times> nat) list"
  cc_msgID :: uint64

definition newConn :: clientConn where
  "newConn = \<lparr>cc_pending = [], cc_msgID = 0\<rparr>"

text \<open>The loop that looks for an unused identifier; \<open>None\<close> is a loop that does not end.\<close>

partial_function (option) freeID :: "(uint64 \<times> nat) list \<Rightarrow> uint64 \<Rightarrow> uint64 option" where
  "freeID p msgID = (if map_of p msgID = None then Some msgID else freeID p (msgID + 1))"

definition nextMsgID :: "clientConn \<Rightarrow> uint64 option" where
  "nextMsgID cc =
     (let msgID = cc_msgID cc + 1 in freeID (cc_pending cc) (if msgID = 0 then 1 else msgID))"

text \<open>
  What the writer does next: wait for requests, go on with the next one, encode a message, or
  close the connection.
\<close>

datatype 'h taken = WIdle | WContinue | WSend "'h wireRequest" | WQuit goerr

definition wire_request :: "uint64 \<Rightarrow> 'h request \<Rightarrow> 'h wireRequest" where
  "wire_request msgID r = \<lparr>rq_Service = req_Service r, rq_ID = msgID, rq_Headers = req_Headers r,
     rq_Body = req_Body r\<rparr>"

text \<open>
  One round of \<open>clientWriter\<close> up to the encoder. The request's fields are copied before a
  result nobody waits for is recycled. \<open>None\<close>: the search for an identifier does not end.
\<close>

definition clientWriter_take :: "'h Client \<Rightarrow> clientConn \<Rightarrow>
    ('h taken outcome \<times> 'h Client \<times> clientConn) option" where
  "clientWriter_take c cc =
     (case c_requests c of
        [] \<Rightarrow> Some (Ret WIdle, c, cc)
      | a # q \<Rightarrow>
          (let c1 = c\<lparr>c_requests := q\<rparr>; m = c_heap c a in
           if isCanceled a c1 then
             (case finish a CCanceled c1 of
                (Panic s, c2) \<Rightarrow> Some (Panic s, c2, cc)
              | (_, c2) \<Rightarrow> Some (Ret WContinue, c2, cc))
           else
             (case ar_done m of
                None \<Rightarrow>
                  Some (Ret (WSend (wire_request 0 (ar_request m))),
                        releaseAsyncResult a (c1\<lparr>c_Stats := incRPCCalls (c_Stats c1)\<rparr>), cc)
              | Some _ \<Rightarrow>
                  (case nextMsgID cc of
                     None \<Rightarrow> None
                   | Some i \<Rightarrow>
                       (let n = length (cc_pending cc);
                            cc' = cc\<lparr>cc_pending := (i, a) # cc_pending cc, cc_msgID := i\<rparr>;
                            c2 = c1\<lparr>c_count := c_count c1 + 1\<rparr>
                        in if n > 10 * c_cap c
                           then Some (Ret (WQuit (Errorf ''too many pending responses'')), c2, cc')
                           else Some (Ret (WSend (wire_request i (ar_request m))), c2, cc'))))))"

text \<open>
  Encoding and flushing. The encoder counts into the client's statistics, which all
  connections share; its errors end the connection.
\<close>

definition clientWriter_send :: "('h, 'ty) headers_impl \<Rightarrow> ('h, 'ty) registry \<Rightarrow> growth \<Rightarrow>
    'h wireRequest \<Rightarrow> messageEncoder \<Rightarrow> 'h Client \<Rightarrow> spliceWorld \<Rightarrow>
    unit outcome \<times> messageEncoder \<times> 'h Client \<times> spliceWorld" where
  "clientWriter_send H reg grw wr e c wd =
     (case EncodeRequest H reg grw wr (e\<lparr>me_stat := c_Stats c\<rparr>) wd of
        (x, _, e', wd') \<Rightarrow>
          (case x of Fail err \<Rightarrow> Fail (Wrap err ''Cannot send request to wire'') | y \<Rightarrow> y,
           e', c\<lparr>c_Stats := me_stat e'\<rparr>, wd'))"

definition clientWriter_flush :: "messageEncoder \<Rightarrow> 'h Client \<Rightarrow>
    unit outcome \<times> messageEncoder \<times> 'h Client" where
  "clientWriter_flush e c =
     (case Flush (e\<lparr>me_stat := c_Stats c\<rparr>) of
        (x, e') \<Rightarrow>
          (case x of Fail err \<Rightarrow> Fail (Wrap err ''Cannot flush requests'') | y \<Rightarrow> y,
           e', c\<lparr>c_Stats := me_stat e'\<rparr>))"

text \<open>
  \<open>clientReader\<close> after a response has been decoded: find the pending request, take it out,
  fill in the result and close its channel. \<open>dt\<close> is the time since the call in milliseconds.
  The decoded struct is cleared for the next response.
\<close>

definition clear_response :: "'h inResponse \<Rightarrow> 'h inResponse" where
  "clear_response wr = wr\<lparr>is_ID := 0, is_Headers := None, is_Size := 0, is_Reader := None, is_Error := []\<rparr>"

definition clientReader_deliver :: "uint64 \<Rightarrow> 'h inResponse \<Rightarrow> 'h Client \<Rightarrow> clientConn \<Rightarrow>
    unit outcome \<times> 'h inResponse \<times> 'h Client \<times> clientConn" where
  "clientReader_deliver dt wr c cc =
     (case map_of (cc_pending cc) (is_ID wr) of
        None \<Rightarrow> (Fail (Errorf ''Unexpected msgID''), wr, c, cc)
      | Some a \<Rightarrow>
          (let cc1 = cc\<lparr>cc_pending := filter (\<lambda>p. fst p \<noteq> is_ID wr) (cc_pending cc)\<rparr>;
               m = c_heap c a;
               m1 = m\<lparr>ar_Response := \<lparr>resp_Headers = is_Headers wr,
                        resp_Body = \<lparr>cb_Size = is_Size wr, cb_Reader = is_Reader wr\<rparr>\<rparr>,
                      ar_Error := (if is_Error wr \<noteq> [] then Some (CServer (is_Error wr)) else ar_Error m)\<rparr>;
               c1 = set_result a m1 (c\<lparr>c_count := c_count c - 1,
                      c_Stats := incRPCTime dt (incRPCCalls (c_Stats c))\<rparr>)
           in case ar_done m of
                None \<Rightarrow> (Panic ''close of nil channel'', clear_response wr, c1, cc1)
              | Some d \<Rightarrow>
                  (case close_chan d c1 of (x, c2) \<Rightarrow> (x, clear_response wr, c2, cc1))))"

text \<open>One round of \<open>clientReader\<close>; a panic of the decoder is recovered into an error.\<close>

definition clientReader_step :: "('h, 'ty) headers_impl \<Rightarrow> ('h, 'ty) registry \<Rightarrow> growth \<Rightarrow> nat option \<Rightarrow>
    uint64 \<Rightarrow> 'h inResponse \<Rightarrow> messageDecoder \<Rightarrow> pools \<Rightarrow> 'h Client \<Rightarrow> clientConn \<Rightarrow>
    unit outcome \<times> 'h inResponse \<times> messageDecoder \<times> pools \<times> 'h Client \<times> clientConn" where
  "clientReader_step H reg grw ch dt wr d st c cc =
     (case DecodeResponse H reg grw ch wr (d\<lparr>md_stat := c_Stats c\<rparr>) st of
        (x, wr1, d1, st1) \<Rightarrow>
          (let c1 = c\<lparr>c_Stats := md_stat d1\<rparr> in
           case x of
             Fail e \<Rightarrow> (Fail (Wrap e ''Cannot decode response''), wr1, d1, st1, c1, cc)
           | Panic s \<Rightarrow> (Fail (Errorf (''Panic when reading data from server: '' @ s)), wr1, d1, st1, c1, cc)
           | Ret _ \<Rightarrow>
               (case clientReader_deliver dt wr1 c1 cc of
                  (y, wr2, c2, cc2) \<Rightarrow>
                    (case y of
                       Panic s \<Rightarrow> Fail (Errorf (''Panic when reading data from server: '' @ s))
                     | z \<Rightarrow> z, wr2, d1, st1, c2, cc2))))"

section \<open>The end of a connection\<close>

text \<open>
  The \<open>select\<close> of \<open>clientHandleConnection\<close>: the writer or the reader ended, with its error,
  or the client was stopped, which leaves \<open>err\<close> nil.
\<close>

datatype conn_end = EndWriter "goerr option" | EndReader "goerr option" | EndStop

fun conn_error :: "conn_end \<Rightarrow> ClientError option" where
  "conn_error (EndWriter e) = map_option CConnection e"
| "conn_error (EndReader e) = map_option CConnection e"
| "conn_error EndStop = None"

text \<open>The loop over \<open>pendingRequests\<close>, in the order of the list.\<close>

fun cleanup :: "ClientError option \<Rightarrow> (uint64 \<times> nat) list \<Rightarrow> 'h Client \<Rightarrow> unit outcome \<times> 'h Client" where
  "cleanup err [] c = (Ret (), c)"
| "cleanup err ((_, a) # ps) c =
     (let c1 = set_result a ((c_heap c a)\<lparr>ar_Error := err\<rparr>) (c\<lparr>c_count := c_count c - 1\<rparr>) in
      case ar_done (c_heap c a) of
        None \<Rightarrow> cleanup err ps c1
      | Some d \<Rightarrow>
          (case close_chan d c1 of
             (Ret _, c2) \<Rightarrow> cleanup err ps c2
           | x \<Rightarrow> x))"

definition clientHandleConnection_end :: "conn_end \<Rightarrow> 'h Client \<Rightarrow> clientConn \<Rightarrow>
    unit outcome \<times> 'h Client" where
  "clientHandleConnection_end how c cc = cleanup (conn_error how) (cc_pending cc) c"

text \<open>
  The start of \<open>clientHandleConnection\<close>: the \<open>OnConnect\<close> hook (\<open>None\<close> when there is none)
  may refuse the connection, then one handshake byte says whether compression is on.
\<close>

definition clientHandshake :: "(writer \<Rightarrow> writer outcome) option \<Rightarrow> bool \<Rightarrow> writer \<Rightarrow> writer outcome" where
  "clientHandshake onConnect disableCompression w =
     (case (case onConnect of None \<Rightarrow> Ret w | Some f \<Rightarrow> f w) of
        Fail e \<Rightarrow> Fail e
      | Panic s \<Rightarrow> Panic s
      | Ret w1 \<Rightarrow>
          (case conn_Write [if disableCompression then 0 else 1] w1 of
             (Ret _, w2) \<Rightarrow> Ret w2
           | (Fail e, w2) \<Rightarrow> Fail e
           | (Panic s, w2) \<Rightarrow> Panic s))"

section \<open>Identifiers\<close>

text \<open>
  The search for an identifier tries at most one identifier more than there are pending
  requests, so it ends while there are fewer than \<open>2 ^ 64\<close> of them.
\<close>

lemma freeID_skips:
  "(\<forall>j < k. map_of p (i + of_nat j) \<noteq> None) \<Longrightarrow> map_of p (i + of_nat k) = None \<Longrightarrow>
   freeID p i = Some (i + of_nat k)"
proof (induction k arbitrary: i)
  case 0
  then show ?case by (subst freeID.simps) simp
next
  case (Suc k)
  have "map_of p i \<noteq> None" using Suc.prems(1) [rule_format, of 0] by simp
  moreover have "freeID p (i + 1) = Some (i + 1 + of_nat k)"
  proof (rule Suc.IH)
    show "\<forall>j<k. map_of p (i + 1 + of_nat j) \<noteq> None"
    proof (intro allI impI)
      show "map_of p (i + 1 + of_nat j) \<noteq> None" if "j < k" for j
        using Suc.prems(1) [rule_format, of "Suc j"] that by (simp add: ac_simps)
    qed
  qed (use Suc.prems(2) in \<open>simp add: ac_simps\<close>)
  ultimately show ?case by (subst freeID.simps, subst if_not_P) (auto simp: ac_simps)
qed

lemma free_identifier:
  fixes p :: "(uint64 \<times> nat) list"
  assumes "length p < 2 ^ 64"
  shows "\<exists>k \<le> length p. map_of p (i + of_nat k) = None"
proof (rule ccontr)
  assume "\<not> ?thesis"
  then have "(\<lambda>k. i + of_nat k) ` {..length p} \<subseteq> fst ` set p" by (auto simp: map_of_eq_None_iff)
  moreover have "inj_on (\<lambda>k. i + (of_nat k :: uint64)) {..length p}"
    using assms by (intro inj_onI) (simp add: word_of_nat_eq_iff take_bit_nat_eq_self)
  ultimately have "Suc (length p) \<le> card (fst ` set p)"
    by (metis card_image card_atMost card_mono finite_imageI finite_set)
  also have "\<dots> \<le> length p" by (metis card_image_le card_length finite_set le_trans)
  finally show False by simp
qed

lemma freeID_returns:
  assumes "length p < 2 ^ 64"
  shows "\<exists>k \<le> length p. freeID p i = Some (i + of_nat k) \<and> map_of p (i + of_nat k) = None \<and>
    (\<forall>j < k. map_of p (i + of_nat j) \<noteq> None)"
proof -
  define k where "k = (LEAST k. map_of p (i + of_nat k) = None)"
  obtain k0 where k0: "k0 \<le> length p" "map_of p (i + of_nat k0) = None"
    using free_identifier [OF assms] by blast
  have none: "map_of p (i + of_nat k) = None" unfolding k_def by (rule LeastI [of _ k0]) (rule k0)
  have "k \<le> length p" using k0 Least_le [of "\<lambda>k. map_of p (i + of_nat k) = None" k0] by (simp add: k_def)
  moreover have less: "\<forall>j < k. map_of p (i + of_nat j) \<noteq> None"
    unfolding k_def using not_less_Least by blast
  moreover note freeID_skips [OF less none] none
  ultimately show ?thesis by (intro exI [of _ k] conjI)
qed

lemma freeID_unused: "freeID p m = Some i \<Longrightarrow> map_of p i = None"
  by (rule freeID.raw_induct [of "\<lambda>p m i. map_of p i = None" p m i]) (auto split: if_splits)

lemma nextMsgID_unused: "nextMsgID cc = Some i \<Longrightarrow> map_of (cc_pending cc) i = None"
  by (auto simp: nextMsgID_def Let_def dest: freeID_unused)

text \<open>
  C23. The writer always finds a message identifier that no pending request of its connection
  has, as long as fewer than \<open>2 ^ 64\<close> requests are pending: the first unused one from the
  successor of the last, after at most as many failed tries as there are pending requests.
\<close>

theorem nextMsgID_finds:
  assumes "length (cc_pending cc) < 2 ^ 64"
  shows "\<exists>k \<le> length (cc_pending cc). \<exists>i.
    i = (if cc_msgID cc + 1 = 0 then 1 else cc_msgID cc + 1) + of_nat k \<and>
    nextMsgID cc = Some i \<and> i \<notin> fst ` set (cc_pending cc) \<and>
    (\<forall>j < k. (if cc_msgID cc + 1 = 0 then 1 else cc_msgID cc + 1) + of_nat j \<in> fst ` set (cc_pending cc))"
  using freeID_returns [OF assms, of "if cc_msgID cc + 1 = 0 then 1 else cc_msgID cc + 1"]
  by (auto simp: nextMsgID_def Let_def map_of_eq_None_iff)

theorem nextMsgID_finds_witness:
  "length (cc_pending \<lparr>cc_pending = [(6, 0), (5, 1)], cc_msgID = 4\<rparr>) < 2 ^ 64 \<and>
   (\<exists>i. nextMsgID \<lparr>cc_pending = [(6, 0), (5, 1)], cc_msgID = 4\<rparr> = Some i \<and> i \<notin> {6, 5})"
  using nextMsgID_finds [of "\<lparr>cc_pending = [(6, 0), (5, 1)], cc_msgID = 4\<rparr>"] by auto

text \<open>
  The identifier found may be 0, the identifier the server takes for a request without a
  response: the guard against 0 comes before the search, which may wrap around. A response
  to such a request never comes.
\<close>

lemma nextMsgID_zero:
  "nextMsgID \<lparr>cc_pending = [(- 1, 0)], cc_msgID = - 2\<rparr> = Some 0"
proof -
  have "freeID [(- 1, 0)] (- 1) = freeID [(- 1, 0)] 0"
    by (subst freeID.simps, subst if_not_P) simp_all
  also have "\<dots> = Some 0" by (subst freeID.simps) simp
  finally show ?thesis by (simp add: nextMsgID_def Let_def)
qed

end
