(* ===== verification/Client_Safety.thy ===== *)
theory Client_Safety
  imports Client_Conn
begin

text \<open>
  All parts of the client together. \<open>client_reach\<close> lets callers, writers, readers and clean-ups
  of all connections interleave freely, one atomic operation at a time; the operations are the
  definitions of \<open>Client_Calls\<close> and \<open>Client_Conn\<close>. The theorems are about every reachable
  state: no channel is closed twice, no caller is forgotten, no result is in two places, and
  the count of pending requests is exact.
\<close>

section \<open>The whole client\<close>

text \<open>
  \<open>sy_held\<close> are results between their allocation and the queue, \<open>sy_waiting\<close> the results
  whose callers are in the \<open>select\<close> of \<open>CallTimeout\<close>.
\<close>

record 'h csys =
  sy_c :: "'h Client"
  sy_conns :: "clientConn list"
  sy_held :: "nat set"
  sy_waiting :: "nat set"

definition newClient :: "nat \<Rightarrow> 'h Client" where
  "newClient cap = \<lparr>c_cap = cap, c_requests = [], c_heap = (\<lambda>_. zeroResult), c_next = 0, c_pool = [],
     c_chan = 0, c_closed = {}, c_count = 0, c_Stats = zeroStats\<rparr>"

inductive client_step :: "'h csys \<Rightarrow> 'h csys \<Rightarrow> bool" where
  new: "callAsync_new ch r skip pooled now (sy_c s) = (a, c') \<Longrightarrow>
    client_step s (s\<lparr>sy_c := c', sy_held := insert a (sy_held s)\<rparr>)"
| send: "a \<in> sy_held s \<Longrightarrow> trySend a (sy_c s) = (True, c') \<Longrightarrow>
    client_step s (s\<lparr>sy_c := c', sy_held := sy_held s - {a}\<rparr>)"
| send_wait: "a \<in> sy_held s \<Longrightarrow> ar_done (c_heap (sy_c s) a) \<noteq> None \<Longrightarrow>
    trySend a (sy_c s) = (True, c') \<Longrightarrow>
    client_step s (s\<lparr>sy_c := c', sy_held := sy_held s - {a}, sy_waiting := insert a (sy_waiting s)\<rparr>)"
| give_up: "a \<in> sy_held s \<Longrightarrow>
    client_step s (s\<lparr>sy_c := releaseAsyncResult a (sy_c s), sy_held := sy_held s - {a}\<rparr>)"
| evict: "evictOldest (sy_c s) = (Ret (), c') \<Longrightarrow> client_step s (s\<lparr>sy_c := c'\<rparr>)"
| cancel: "client_step s (s\<lparr>sy_c := Cancel a (sy_c s)\<rparr>)"
| wait_done: "a \<in> sy_waiting s \<Longrightarrow> done_ready a (sy_c s) \<Longrightarrow>
    client_step s (s\<lparr>sy_c := snd (CallTimeout_select True a (sy_c s)), sy_waiting := sy_waiting s - {a}\<rparr>)"
| wait_timeout: "a \<in> sy_waiting s \<Longrightarrow>
    client_step s (s\<lparr>sy_c := snd (CallTimeout_select False a (sy_c s)), sy_waiting := sy_waiting s - {a}\<rparr>)"
| take: "i < length (sy_conns s) \<Longrightarrow>
    clientWriter_take (sy_c s) (sy_conns s ! i) = Some (Ret x, c', cc') \<Longrightarrow>
    client_step s (s\<lparr>sy_c := c', sy_conns := (sy_conns s)[i := cc']\<rparr>)"
| deliver: "i < length (sy_conns s) \<Longrightarrow>
    clientReader_deliver dt wr (sy_c s) (sy_conns s ! i) = (Ret (), wr', c', cc') \<Longrightarrow>
    client_step s (s\<lparr>sy_c := c', sy_conns := (sy_conns s)[i := cc']\<rparr>)"
| conn_ends: "i < length (sy_conns s) \<Longrightarrow>
    clientHandleConnection_end how (sy_c s) (sy_conns s ! i) = (Ret (), c') \<Longrightarrow>
    client_step s (s\<lparr>sy_c := c', sy_conns := (sy_conns s)[i := newConn]\<rparr>)"
| stats: "client_step s (s\<lparr>sy_c := (sy_c s)\<lparr>c_Stats := st\<rparr>\<rparr>)"

inductive client_reach :: "'h csys \<Rightarrow> bool" where
  start: "client_reach \<lparr>sy_c = newClient cap, sy_conns = replicate n newConn, sy_held = {}, sy_waiting = {}\<rparr>"
| step: "client_reach s \<Longrightarrow> client_step s s' \<Longrightarrow> client_reach s'"

lemmas client_reach_new = client_reach.step [OF _ client_step.new]
lemmas client_reach_send = client_reach.step [OF _ client_step.send]
lemmas client_reach_send_wait = client_reach.step [OF _ client_step.send_wait]
lemmas client_reach_give_up = client_reach.step [OF _ client_step.give_up]
lemmas client_reach_evict = client_reach.step [OF _ client_step.evict]
lemmas client_reach_cancel = client_reach.step [OF _ client_step.cancel]
lemmas client_reach_wait_done = client_reach.step [OF _ client_step.wait_done]
lemmas client_reach_wait_timeout = client_reach.step [OF _ client_step.wait_timeout]
lemmas client_reach_take = client_reach.step [OF _ client_step.take]
lemmas client_reach_deliver = client_reach.step [OF _ client_step.deliver]
lemmas client_reach_conn_ends = client_reach.step [OF _ client_step.conn_ends]
lemmas client_reach_stats = client_reach.step [OF _ client_step.stats]

section \<open>Where results are\<close>

text \<open>
  The invariant has two parts. \<open>place_inv\<close>: a result is in at most one of the queue \<open>Q\<close>, the
  pending maps \<open>P\<close> of the connections, the pool \<open>F\<close> and the set \<open>H\<close> of results being prepared,
  and nobody waits for a pooled one. \<open>chan_inv\<close>, over the results in flight \<open>L\<close> and the
  waiting callers \<open>W\<close>: the channels of results in flight are open and different, and a caller
  waits for a result in flight or its channel is closed.
\<close>

definition place_inv :: "nat list \<Rightarrow> nat list \<Rightarrow> nat list \<Rightarrow> nat set \<Rightarrow> nat set \<Rightarrow> nat \<Rightarrow> bool" where
  "place_inv Q P F H W nx \<longleftrightarrow>
     distinct (Q @ P @ F) \<and> set (Q @ P @ F) \<inter> H = {} \<and>
     set (Q @ P @ F) \<union> H \<union> W \<subseteq> {..<nx} \<and> W \<inter> (H \<union> set F) = {}"

definition chan_inv :: "nat set \<Rightarrow> nat set \<Rightarrow> (nat \<Rightarrow> nat option) \<Rightarrow> nat set \<Rightarrow> nat \<Rightarrow> bool" where
  "chan_inv L W dn cl nc \<longleftrightarrow>
     cl \<subseteq> {..<nc} \<and>
     (\<forall>a \<in> L. \<forall>d. dn a = Some d \<longrightarrow> d < nc \<and> d \<notin> cl) \<and>
     (\<forall>a \<in> L. \<forall>b \<in> L. \<forall>d. dn a = Some d \<longrightarrow> dn b = Some d \<longrightarrow> a = b) \<and>
     (\<forall>a \<in> W. \<exists>d < nc. dn a = Some d \<and> (d \<in> cl \<longleftrightarrow> a \<notin> L))"

lemma chan_open: "chan_inv L W dn cl nc \<Longrightarrow> a \<in> L \<Longrightarrow> dn a = Some d \<Longrightarrow> d < nc \<and> d \<notin> cl"
  by (simp add: chan_inv_def)

lemma chan_inj: "chan_inv L W dn cl nc \<Longrightarrow> a \<in> L \<Longrightarrow> b \<in> L \<Longrightarrow> dn a = Some d \<Longrightarrow> dn b = Some d \<Longrightarrow> a = b"
  by (simp add: chan_inv_def)

lemma chan_waits: "chan_inv L W dn cl nc \<Longrightarrow> a \<in> W \<Longrightarrow> \<exists>d < nc. dn a = Some d \<and> (d \<in> cl \<longleftrightarrow> a \<notin> L)"
  by (simp add: chan_inv_def)

lemma chan_invI:
  assumes "cl \<subseteq> {..<nc}"
    "\<And>a d. a \<in> L \<Longrightarrow> dn a = Some d \<Longrightarrow> d < nc \<and> d \<notin> cl"
    "\<And>a b d. a \<in> L \<Longrightarrow> b \<in> L \<Longrightarrow> dn a = Some d \<Longrightarrow> dn b = Some d \<Longrightarrow> a = b"
    "\<And>a. a \<in> W \<Longrightarrow> \<exists>d < nc. dn a = Some d \<and> (d \<in> cl \<longleftrightarrow> a \<notin> L)"
  shows "chan_inv L W dn cl nc"
  unfolding chan_inv_def using assms by blast

lemma chan_bound: "chan_inv L W dn cl nc \<Longrightarrow> cl \<subseteq> {..<nc}"
  by (simp add: chan_inv_def)

text \<open>Closing the channel of a result in flight takes it out of flight.\<close>

lemma chan_close:
  assumes c: "chan_inv L W dn cl nc" "a \<in> L" "dn a = Some d"
  shows "chan_inv (L - {a}) W dn (insert d cl) nc"
proof (rule chan_invI)
  show "insert d cl \<subseteq> {..<nc}" using chan_bound [OF c(1)] chan_open [OF c] by simp
  show "e < nc \<and> e \<notin> insert d cl" if "b \<in> L - {a}" "dn b = Some e" for b e
    using that chan_open [OF c(1), of b e] chan_inj [OF c(1), of a b d] c(2,3) by auto
  show "b = b'" if "b \<in> L - {a}" "b' \<in> L - {a}" "dn b = Some e" "dn b' = Some e" for b b' e
    using chan_inj [OF c(1)] that by blast
  show "\<exists>e<nc. dn b = Some e \<and> (e \<in> insert d cl \<longleftrightarrow> b \<notin> L - {a})" if b: "b \<in> W" for b
  proof -
    obtain e where e: "e < nc" "dn b = Some e" "e \<in> cl \<longleftrightarrow> b \<notin> L" using chan_waits [OF c(1) b] by blast
    have "e = d \<longleftrightarrow> b = a" if "b \<in> L" using chan_inj [OF c(1) that c(2)] e(2) c(3) by auto
    then have "e \<in> insert d cl \<longleftrightarrow> b \<notin> L - {a}" using e(3) c(2,3) e(2) by auto
    with e show ?thesis by blast
  qed
qed

text \<open>Recycling a result nobody waits for.\<close>

lemma chan_drop:
  assumes c: "chan_inv L W dn cl nc" "a \<notin> W"
  shows "chan_inv (L - {a}) W (dn(a := None)) cl nc"
proof (rule chan_invI)
  show "cl \<subseteq> {..<nc}" by (rule chan_bound [OF c(1)])
  show "e < nc \<and> e \<notin> cl" if "b \<in> L - {a}" "(dn(a := None)) b = Some e" for b e
    using that chan_open [OF c(1)] by auto
  show "b = b'" if "b \<in> L - {a}" "b' \<in> L - {a}" "(dn(a := None)) b = Some e" "(dn(a := None)) b' = Some e" for b b' e
    using chan_inj [OF c(1), of b b' e] that by auto
  show "\<exists>e<nc. (dn(a := None)) b = Some e \<and> (e \<in> cl \<longleftrightarrow> b \<notin> L - {a})" if "b \<in> W" for b
    using chan_waits [OF c(1) that] that c(2) by auto
qed

lemma chan_stop_waiting: "chan_inv L W dn cl nc \<Longrightarrow> chan_inv L (W - {a}) dn cl nc"
  by (simp add: chan_inv_def)

lemma chan_waiter: "chan_inv L W dn cl nc \<Longrightarrow> a \<in> W \<Longrightarrow> dn a = Some d \<Longrightarrow> d \<in> cl \<Longrightarrow> a \<notin> L"
  using chan_waits by fastforce

lemma chan_silent: "chan_inv L W dn cl nc \<Longrightarrow> dn a = None \<Longrightarrow> a \<notin> W"
  using chan_waits by fastforce

lemma chan_wait:
  assumes "chan_inv L W dn cl nc" "a \<in> L" "dn a \<noteq> None"
  shows "chan_inv L (insert a W) dn cl nc"
proof -
  obtain d where "dn a = Some d" using assms(3) by auto
  then show ?thesis using assms chan_open [OF assms(1,2)] by (simp add: chan_inv_def)
qed

text \<open>A new result without a channel, or with a new one.\<close>

lemma chan_fresh:
  assumes c: "chan_inv L W dn cl nc" "a \<notin> W" "x = None \<and> nc' = nc \<or> x = Some nc \<and> nc' = Suc nc"
  shows "chan_inv (insert a L) W (dn(a := x)) cl nc'"
proof (rule chan_invI)
  have nc: "nc \<le> nc'" and x: "\<And>d. x = Some d \<Longrightarrow> d = nc \<and> nc' = Suc nc" using c(3) by auto
  show "cl \<subseteq> {..<nc'}" using chan_bound [OF c(1)] nc by auto
  have old: "e < nc \<and> e \<notin> cl" if "b \<in> L" "dn b = Some e" for b e using chan_open [OF c(1) that] by simp
  show "e < nc' \<and> e \<notin> cl" if "b \<in> insert a L" "(dn(a := x)) b = Some e" for b e
    using that old [of b e] x [of e] nc chan_bound [OF c(1)] by (auto split: if_splits)
  show "b = b'" if "b \<in> insert a L" "b' \<in> insert a L" "(dn(a := x)) b = Some e" "(dn(a := x)) b' = Some e" for b b' e
    using that chan_inj [OF c(1), of b b' e] old [of b e] old [of b' e] x [of e] by (auto split: if_splits)
  show "\<exists>e<nc'. (dn(a := x)) b = Some e \<and> (e \<in> cl \<longleftrightarrow> b \<notin> insert a L)" if "b \<in> W" for b
    using chan_waits [OF c(1) that] that c(2) nc by (auto intro: less_le_trans)
qed

lemma place_perm:
  assumes "mset P = mset P'"
  shows "place_inv Q P F H W nx \<longleftrightarrow> place_inv Q P' F H W nx"
proof -
  have "set P = set P'" "distinct P \<longleftrightarrow> distinct P'"
    using assms by (metis set_mset_mset, metis mset_eq_imp_distinct_iff)
  then show ?thesis by (simp add: place_inv_def)
qed

lemma place_publish: "place_inv Q P F H W nx \<Longrightarrow> a \<in> H \<Longrightarrow> place_inv (Q @ [a]) P F (H - {a}) W nx"
  unfolding place_inv_def by auto

lemma place_wait: "place_inv Q P F H W nx \<Longrightarrow> a \<in> set Q \<union> set P \<Longrightarrow> place_inv Q P F H (insert a W) nx"
  unfolding place_inv_def by auto

lemma place_stop_waiting: "place_inv Q P F H W nx \<Longrightarrow> place_inv Q P F H (W - {a}) nx"
  unfolding place_inv_def by auto

lemma place_release:
  "place_inv Q P F H W nx \<Longrightarrow> a < nx \<Longrightarrow> a \<notin> set (Q @ P @ F) \<union> H \<Longrightarrow> a \<notin> W \<Longrightarrow> place_inv Q P (a # F) H W nx"
  unfolding place_inv_def by auto

lemma place_unheld: "place_inv Q P F H W nx \<Longrightarrow> a \<in> H \<Longrightarrow> place_inv Q P F (H - {a}) W nx \<and> a \<notin> set (Q @ P @ F) \<and> a < nx \<and> a \<notin> W"
  unfolding place_inv_def by auto

lemma place_dequeue: "place_inv (a # Q) P F H W nx \<Longrightarrow> place_inv Q P F H W nx \<and> a \<notin> set (Q @ P @ F) \<union> H \<and> a < nx"
  unfolding place_inv_def by auto

lemma place_take: "place_inv (a # Q) P F H W nx \<longleftrightarrow> place_inv Q (a # P) F H W nx"
  unfolding place_inv_def by auto

lemma place_fresh: "place_inv Q P F H W nx \<Longrightarrow> place_inv Q P F (insert nx H) W (Suc nx)"
  unfolding place_inv_def by (auto simp: less_Suc_eq)

lemma place_pooled:
  "place_inv Q P F H W nx \<Longrightarrow> a \<in> set F \<Longrightarrow> set F' = set F - {a} \<Longrightarrow> distinct F' \<Longrightarrow> place_inv Q P F' (insert a H) W nx"
  unfolding place_inv_def by auto

section \<open>What each operation does to the invariant\<close>

definition dones :: "'h Client \<Rightarrow> nat \<Rightarrow> nat option" where
  "dones c a = ar_done (c_heap c a)"

definition errs :: "'h Client \<Rightarrow> nat \<Rightarrow> ClientError option" where
  "errs c a = ar_Error (c_heap c a)"

text \<open>Results in flight and in the pool carry no error; pending ones have a channel, pooled ones none.\<close>

definition res_inv :: "'h Client \<Rightarrow> nat list \<Rightarrow> nat set \<Rightarrow> nat set \<Rightarrow> bool" where
  "res_inv c P H W \<longleftrightarrow>
     place_inv (c_requests c) P (c_pool c) H W (c_next c) \<and>
     chan_inv (set (c_requests c) \<union> set P \<union> H) W (dones c) (c_closed c) (c_chan c) \<and>
     (\<forall>a \<in> set P. dones c a \<noteq> None) \<and> (\<forall>a \<in> set (c_pool c). dones c a = None) \<and>
     (\<forall>a \<in> set (c_requests c) \<union> set P \<union> H \<union> set (c_pool c). errs c a = None) \<and> length (c_requests c) \<le> c_cap c"

lemma set_result_fields [simp]:
  "c_cap (set_result a m c) = c_cap c" "c_requests (set_result a m c) = c_requests c"
  "c_next (set_result a m c) = c_next c" "c_pool (set_result a m c) = c_pool c"
  "c_chan (set_result a m c) = c_chan c" "c_closed (set_result a m c) = c_closed c"
  "c_count (set_result a m c) = c_count c" "c_heap (set_result a m c) = (c_heap c)(a := m)"
  by (simp_all add: set_result_def)

lemma dones_set_result [simp]: "dones (set_result a m c) = (dones c)(a := ar_done m)"
  by (auto simp: dones_def)

lemma errs_set_result [simp]: "errs (set_result a m c) = (errs c)(a := ar_Error m)"
  by (auto simp: errs_def)

lemma errs_updates [simp]:
  "errs (c\<lparr>c_requests := q\<rparr>) = errs c" "errs (c\<lparr>c_pool := ps\<rparr>) = errs c"
  "errs (c\<lparr>c_closed := cl\<rparr>) = errs c" "errs (c\<lparr>c_count := n\<rparr>) = errs c"
  "errs (c\<lparr>c_Stats := st\<rparr>) = errs c" "errs (c\<lparr>c_chan := k\<rparr>) = errs c"
  "errs (c\<lparr>c_next := k\<rparr>) = errs c"
  by (auto simp: errs_def)

lemma dones_updates [simp]:
  "dones (c\<lparr>c_requests := q\<rparr>) = dones c" "dones (c\<lparr>c_pool := ps\<rparr>) = dones c"
  "dones (c\<lparr>c_closed := cl\<rparr>) = dones c" "dones (c\<lparr>c_count := n\<rparr>) = dones c"
  "dones (c\<lparr>c_Stats := st\<rparr>) = dones c" "dones (c\<lparr>c_chan := k\<rparr>) = dones c"
  "dones (c\<lparr>c_next := k\<rparr>) = dones c"
  by (auto simp: dones_def)

lemma dones_same: "ar_done m = ar_done (c_heap c a) \<Longrightarrow> (dones c)(a := ar_done m) = dones c"
  by (auto simp: dones_def)

lemma release_fields [simp]:
  "c_cap (releaseAsyncResult a c) = c_cap c" "c_requests (releaseAsyncResult a c) = c_requests c"
  "c_next (releaseAsyncResult a c) = c_next c" "c_pool (releaseAsyncResult a c) = a # c_pool c"
  "c_chan (releaseAsyncResult a c) = c_chan c" "c_closed (releaseAsyncResult a c) = c_closed c"
  "c_count (releaseAsyncResult a c) = c_count c"
  "dones (releaseAsyncResult a c) = (dones c)(a := None)"
  "errs (releaseAsyncResult a c) = (errs c)(a := None)"
  by (simp_all add: releaseAsyncResult_def Let_def)

lemma res_inv_frame:
  "res_inv c P H W \<Longrightarrow> c_cap c' = c_cap c \<Longrightarrow> c_requests c' = c_requests c \<Longrightarrow> c_pool c' = c_pool c \<Longrightarrow>
   c_next c' = c_next c \<Longrightarrow> c_chan c' = c_chan c \<Longrightarrow> c_closed c' = c_closed c \<Longrightarrow> dones c' = dones c \<Longrightarrow>
   errs c' = errs c \<Longrightarrow> res_inv c' P H W"
  by (simp add: res_inv_def)

lemma res_inv_perm: "mset P = mset P' \<Longrightarrow> res_inv c P H W \<longleftrightarrow> res_inv c P' H W"
proof -
  assume "mset P = mset P'"
  moreover from this have "set P = set P'" by (metis set_mset_mset)
  ultimately show ?thesis using place_perm [of P P'] by (simp add: res_inv_def)
qed

text \<open>A result taken from the queue is finished without a panic.\<close>

lemma finish_dequeued:
  assumes c: "res_inv c P H W" "c_requests c = a # q"
  shows "\<exists>c'. finish a e (c\<lparr>c_requests := q\<rparr>) = (Ret (), c') \<and> res_inv c' P H W \<and> c_count c' = c_count c"
proof (cases "ar_done (c_heap c a)")
  case None
  have "a \<notin> W" using c None chan_silent [of _ W "dones c" _ _ a] by (auto simp: res_inv_def dones_def)
  moreover have "place_inv q P (c_pool c) H W (c_next c)" "a \<notin> set q \<union> set P \<union> set (c_pool c) \<union> H" "a < c_next c"
    using c place_dequeue [of a q P] by (auto simp: res_inv_def)
  moreover have "set q \<union> set P \<union> H = set (a # q) \<union> set P \<union> H - {a}" using calculation by auto
  ultimately have "res_inv (releaseAsyncResult a (c\<lparr>c_requests := q\<rparr>)) P H W"
    using c chan_drop [of "set (a # q) \<union> set P \<union> H" W "dones c" "c_closed c" "c_chan c" a]
    by (auto simp: res_inv_def place_release)
  with None show ?thesis by (simp add: finish_def)
next
  case (Some d)
  have ch: "chan_inv (set (a # q) \<union> set P \<union> H) W (dones c) (c_closed c) (c_chan c)" and d: "dones c a = Some d"
    using c Some by (simp_all add: res_inv_def dones_def)
  have pl: "place_inv q P (c_pool c) H W (c_next c)" "a \<notin> set q \<union> set P \<union> H"
    using c place_dequeue [of a q P] by (auto simp: res_inv_def)
  then have eq: "set q \<union> set P \<union> H = set (a # q) \<union> set P \<union> H - {a}" by auto
  have "d \<notin> c_closed c" using chan_open [OF ch _ d] by simp
  moreover have "chan_inv (set q \<union> set P \<union> H) W (dones c) (insert d (c_closed c)) (c_chan c)"
    unfolding eq by (rule chan_close [OF ch _ d]) simp
  ultimately show ?thesis
    using c pl d by (auto simp: finish_def close_chan_def res_inv_def dones_same fun_upd_idem Some)
qed

lemma evictOldest_inv:
  "res_inv c P H W \<Longrightarrow> \<exists>c'. evictOldest c = (Ret (), c') \<and> res_inv c' P H W \<and> c_count c' = c_count c"
  using finish_dequeued by (auto simp: evictOldest_def split: list.splits)

lemma trySend_inv:
  "res_inv c P H W \<Longrightarrow> a \<in> H \<Longrightarrow> trySend a c = (True, c') \<Longrightarrow>
   res_inv c' P (H - {a}) W \<and> c_count c' = c_count c \<and> a \<in> set (c_requests c') \<and> dones c' = dones c"
  by (auto simp: trySend_def res_inv_def place_publish insert_absorb Un_insert_left split: if_splits
      elim!: back_subst [of "\<lambda>L. chan_inv L _ _ _ _"])

lemma release_held_inv:
  assumes c: "res_inv c P H W" "a \<in> H"
  shows "res_inv (releaseAsyncResult a c) P (H - {a}) W"
proof -
  have pl: "place_inv (c_requests c) P (c_pool c) (H - {a}) W (c_next c)"
      "a \<notin> set (c_requests c) \<union> set P \<union> set (c_pool c)" "a < c_next c" "a \<notin> W"
    using c place_unheld [of _ P _ H W _ a] by (auto simp: res_inv_def)
  have eq: "set (c_requests c) \<union> set P \<union> (H - {a}) = set (c_requests c) \<union> set P \<union> H - {a}" using pl by auto
  show ?thesis
    using c pl chan_drop [OF _ pl(4)] place_release [OF pl(1) pl(3) _ pl(4)]
    by (auto simp: res_inv_def eq)
qed

lemma wait_done_inv:
  assumes c: "res_inv c P H W" "a \<in> W" "done_ready a c"
  shows "res_inv (releaseAsyncResult a c) P H (W - {a})"
proof -
  obtain d where d: "dones c a = Some d" "d \<in> c_closed c"
    using c(3) by (auto simp: done_ready_def dones_def split: option.splits)
  let ?L = "set (c_requests c) \<union> set P \<union> H"
  have ch: "chan_inv ?L W (dones c) (c_closed c) (c_chan c)" and pl: "place_inv (c_requests c) P (c_pool c) H W (c_next c)"
    using c(1) by (simp_all add: res_inv_def)
  have a: "a \<notin> ?L" using chan_waiter [OF ch c(2) d] .
  have "chan_inv (?L - {a}) (W - {a}) ((dones c)(a := None)) (c_closed c) (c_chan c)"
    by (intro chan_drop chan_stop_waiting ch) simp
  moreover have "place_inv (c_requests c) P (a # c_pool c) H (W - {a}) (c_next c)"
    using pl c(2) a by (intro place_release place_stop_waiting) (auto simp: place_inv_def)
  ultimately show ?thesis using c(1) a by (auto simp: res_inv_def)
qed

text \<open>A new call: its result is fresh or was in the pool.\<close>

lemma acquire_inv:
  assumes "res_inv c P H W" "(if pooled then acquireAsyncResult ch c else new_result c) = (a, c1)"
  shows "place_inv (c_requests c1) P (c_pool c1) (insert a H) W (c_next c1) \<and> a \<notin> set P \<and>
    a \<notin> W \<and> c_requests c1 = c_requests c \<and> c_closed c1 = c_closed c \<and> c_chan c1 = c_chan c \<and>
    c_cap c1 = c_cap c \<and> c_count c1 = c_count c \<and> dones c1 = (dones c)(a := None) \<and>
    errs c1 = (errs c)(a := None) \<and> set (c_pool c1) \<subseteq> set (c_pool c) \<and>
    a \<notin> H \<and> (\<forall>b. b \<noteq> a \<longrightarrow> c_heap c1 b = c_heap c b)"
proof (cases "pooled \<and> (\<exists>b ps. pool_pick ch (c_pool c) = (Some b, ps))")
  case True
  then obtain ps where ps: "pool_pick ch (c_pool c) = (Some a, ps)" and c1: "c1 = c\<lparr>c_pool := ps\<rparr>"
    using assms(2) by (auto simp: acquireAsyncResult_def)
  have "a \<in> set (c_pool c) \<and> set ps = set (c_pool c) - {a} \<and> distinct ps"
    using pool_pick_Some [OF ps] assms(1) by (simp add: res_inv_def place_inv_def)
  then show ?thesis using assms(1) c1 place_pooled [of _ P "c_pool c" H W _ a ps]
    by (auto simp: res_inv_def place_inv_def)
next
  case False
  then have "a = c_next c \<and> c1 = set_result a zeroResult (c\<lparr>c_next := Suc (c_next c)\<rparr>)"
    using assms(2)
    by (auto simp: acquireAsyncResult_def new_result_def split: if_splits prod.splits option.splits)
  then show ?thesis using assms(1) place_fresh [of _ P _ H W "c_next c"]
    by (auto simp: res_inv_def place_inv_def zeroResult_def)
qed

lemma callAsync_new_inv:
  assumes c: "res_inv c P H W" "callAsync_new ch r skip pooled now c = (a, c')"
  shows "res_inv c' P (insert a H) W \<and> c_count c' = c_count c \<and> c_requests c' = c_requests c \<and>
    (dones c' a \<noteq> None \<longleftrightarrow> \<not> skip) \<and> ar_request (c_heap c' a) = r \<and> a \<notin> H \<and> c_cap c' = c_cap c \<and>
    (\<forall>b. b \<noteq> a \<longrightarrow> c_heap c' b = c_heap c b)"
proof -
  obtain c1 where ac: "(if skip \<or> pooled then acquireAsyncResult ch c else new_result c) = (a, c1)"
    and c': "c' = (let m = (c_heap c1 a)\<lparr>ar_request := r\<rparr> in if skip then set_result a m c1
      else set_result a (m\<lparr>ar_t := now, ar_done := Some (c_chan c1)\<rparr>) (c1\<lparr>c_chan := Suc (c_chan c1)\<rparr>))"
    using c(2) by (auto simp: callAsync_new_def make_chan_def Let_def split: prod.splits if_splits)
  note inv = acquire_inv [OF c(1) ac]
  have ch: "chan_inv (insert a (set (c_requests c) \<union> set P \<union> H)) W ((dones c)(a := x)) (c_closed c) nc'"
    if "x = None \<and> nc' = c_chan c \<or> x = Some (c_chan c) \<and> nc' = Suc (c_chan c)" for x nc'
    using c(1) inv chan_fresh [OF _ _ that] by (simp add: res_inv_def)
  have "ar_done (c_heap c1 a) = None" "ar_Error (c_heap c1 a) = None"
    using inv by (metis dones_def fun_upd_same, metis errs_def fun_upd_same)
  moreover have "a \<notin> set (c_pool c1)" using inv by (auto simp: place_inv_def)
  ultimately show ?thesis
    using c(1) inv c' ch [of None "c_chan c"] ch [of "Some (c_chan c)" "Suc (c_chan c)"]
    by (cases skip) (auto simp: res_inv_def Let_def)
qed

section \<open>Connections\<close>

text \<open>The writer files a request under an unused identifier, or finishes it.\<close>

lemma take_pending_inv:
  assumes "res_inv c P H W" "c_requests c = a # q" "dones c a \<noteq> None"
  shows "res_inv (c\<lparr>c_requests := q, c_count := n\<rparr>) (a # P) H W"
  using assms place_take [of a q P] by (auto simp: res_inv_def elim!: back_subst [of "\<lambda>L. chan_inv L _ _ _ _"])

lemma clientWriter_take_inv:
  assumes c: "res_inv c (map snd (cc_pending cc) @ R) H W" "distinct (map fst (cc_pending cc))"
    and t: "clientWriter_take c cc = Some (x, c', cc')"
  shows "(\<exists>y. x = Ret y) \<and> res_inv c' (map snd (cc_pending cc') @ R) H W \<and>
    distinct (map fst (cc_pending cc')) \<and>
    c_count c' + of_nat (length (cc_pending cc)) = c_count c + of_nat (length (cc_pending cc'))"
proof (cases "c_requests c")
  case Nil
  then show ?thesis using c t by (auto simp: clientWriter_take_def)
next
  case (Cons a q)
  note fin = finish_dequeued [OF c(1) Cons]
  show ?thesis
  proof (cases "ar_canceled (c_heap c a) \<or> ar_done (c_heap c a) = None")
    case True
    have rel: "releaseAsyncResult a (c\<lparr>c_requests := q, c_Stats := st\<rparr>) =
        releaseAsyncResult a (c\<lparr>c_requests := q\<rparr>)\<lparr>c_Stats := st\<rparr>" for st
      by (simp add: releaseAsyncResult_def set_result_def Let_def)
    have st: "res_inv (c1\<lparr>c_Stats := st\<rparr>) P H W" if "res_inv c1 P H W" for c1 :: "'a Client" and P st
      using that by (rule res_inv_frame) simp_all
    show ?thesis using True t Cons c fin [of CCanceled] st
      by (auto simp: clientWriter_take_def isCanceled_def Let_def finish_def rel split: if_splits option.splits)
  next
    case False
    then obtain i where i: "nextMsgID cc = Some i"
      using t Cons by (auto simp: clientWriter_take_def isCanceled_def Let_def split: option.splits)
    have x: "(\<exists>y. x = Ret y) \<and> c' = c\<lparr>c_requests := q, c_count := c_count c + 1\<rparr> \<and>
        cc' = cc\<lparr>cc_pending := (i, a) # cc_pending cc, cc_msgID := i\<rparr>"
      using t Cons False i by (auto simp: clientWriter_take_def isCanceled_def Let_def split: if_splits)
    have "i \<notin> fst ` set (cc_pending cc)" using nextMsgID_unused [OF i] by (simp add: map_of_eq_None_iff)
    then show ?thesis using x c take_pending_inv [OF c(1) Cons] False by (auto simp: dones_def)
  qed
qed

text \<open>A pending result is completed without a panic, by the reader or by the clean-up.\<close>

lemma close_set_result: "d \<notin> c_closed c \<Longrightarrow>
    close_chan d (set_result a m c) = (Ret (), set_result a m (c\<lparr>c_closed := insert d (c_closed c)\<rparr>))"
  by (simp add: close_chan_def set_result_def)

lemma complete_inv:
  assumes c: "res_inv c (a # P) H W" "ar_done m = ar_done (c_heap c a)"
  shows "\<exists>d c'. ar_done (c_heap c a) = Some d \<and>
    close_chan d (set_result a m (c\<lparr>c_count := n, c_Stats := st\<rparr>)) = (Ret (), c') \<and>
    c' = set_result a m (c\<lparr>c_count := n, c_Stats := st, c_closed := insert d (c_closed c)\<rparr>) \<and>
    res_inv c' P H W \<and> c_count c' = n"
proof -
  have pl: "place_inv (c_requests c) (a # P) (c_pool c) H W (c_next c)"
    and ch: "chan_inv (set (c_requests c) \<union> set (a # P) \<union> H) W (dones c) (c_closed c) (c_chan c)"
    using c by (simp_all add: res_inv_def)
  obtain d where d: "dones c a = Some d" using c(1) by (auto simp: res_inv_def)
  have "place_inv (c_requests c) P (c_pool c) H W (c_next c)" using pl by (auto simp: place_inv_def)
  moreover have eq: "set (c_requests c) \<union> set P \<union> H = set (c_requests c) \<union> set (a # P) \<union> H - {a}"
    using pl by (auto simp: place_inv_def)
  moreover have "chan_inv (set (c_requests c) \<union> set P \<union> H) W (dones c) (insert d (c_closed c)) (c_chan c)"
    unfolding eq by (rule chan_close [OF ch _ d]) simp
  moreover have "d \<notin> c_closed c" using chan_open [OF ch _ d] by simp
  moreover have "(dones c)(a := Some d) = dones c" using d by auto
  moreover have "a \<notin> set (c_requests c) \<union> set P \<union> H \<union> set (c_pool c)" using pl by (auto simp: place_inv_def)
  ultimately show ?thesis using c d
    by (auto simp: close_set_result res_inv_def dones_def [of c a])
qed

lemma map_of_split:
  assumes "distinct (map fst ps)" "map_of ps i = Some a"
  shows "mset (map snd ps) = add_mset a (mset (map snd (filter (\<lambda>p. fst p \<noteq> i) ps)))"
    and "length ps = Suc (length (filter (\<lambda>p. fst p \<noteq> i) ps))"
proof -
  have "mset (map snd ps) = add_mset a (mset (map snd (filter (\<lambda>p. fst p \<noteq> i) ps))) \<and>
      length ps = Suc (length (filter (\<lambda>p. fst p \<noteq> i) ps))" using assms
  proof (induction ps)
    case (Cons p ps)
    show ?case
    proof (cases "fst p = i")
      case True
      then have "filter (\<lambda>p. fst p \<noteq> i) ps = ps" using Cons.prems(1) by (auto simp: filter_id_conv rev_image_eqI)
      then show ?thesis using True Cons.prems by (cases p) auto
    qed (use Cons in \<open>cases p, auto\<close>)
  qed simp
  then show "mset (map snd ps) = add_mset a (mset (map snd (filter (\<lambda>p. fst p \<noteq> i) ps)))"
    "length ps = Suc (length (filter (\<lambda>p. fst p \<noteq> i) ps))" by auto
qed

lemma clientReader_deliver_inv:
  assumes c: "res_inv c (map snd (cc_pending cc) @ R) H W" "distinct (map fst (cc_pending cc))"
    and t: "clientReader_deliver dt wr c cc = (x, wr', c', cc')"
  shows "(\<forall>s. x \<noteq> Panic s) \<and> res_inv c' (map snd (cc_pending cc') @ R) H W \<and>
    distinct (map fst (cc_pending cc')) \<and>
    c_count c' + of_nat (length (cc_pending cc)) = c_count c + of_nat (length (cc_pending cc'))"
proof (cases "map_of (cc_pending cc) (is_ID wr)")
  case None
  then show ?thesis using c t by (auto simp: clientReader_deliver_def)
next
  case (Some a)
  let ?ps = "filter (\<lambda>p. fst p \<noteq> is_ID wr) (cc_pending cc)"
  note sp = map_of_split [OF c(2) Some]
  have "res_inv c (a # map snd ?ps @ R) H W"
    using c(1) sp(1) by (subst res_inv_perm [of _ "map snd (cc_pending cc) @ R"]) auto
  from complete_inv [OF this, of "(c_heap c a)\<lparr>ar_Response := \<lparr>resp_Headers = is_Headers wr,
        resp_Body = \<lparr>cb_Size = is_Size wr, cb_Reader = is_Reader wr\<rparr>\<rparr>,
        ar_Error := (if is_Error wr \<noteq> [] then Some (CServer (is_Error wr)) else ar_Error (c_heap c a))\<rparr>"
      "incRPCTime dt (incRPCCalls (c_Stats c))" "c_count c - 1"]
  obtain d c2 where "ar_done (c_heap c a) = Some d" "x = Ret ()" "c' = c2"
    "cc' = cc\<lparr>cc_pending := ?ps\<rparr>" "res_inv c2 (map snd ?ps @ R) H W" "c_count c2 = c_count c - 1"
    using t Some by (auto simp: clientReader_deliver_def Let_def split: prod.splits)
  then show ?thesis using sp(2) c(2) by (auto simp: distinct_map_filter)
qed

lemma cleanup_inv:
  "res_inv c (map snd ps @ R) H W \<Longrightarrow>
   \<exists>c'. cleanup err ps c = (Ret (), c') \<and> res_inv c' R H W \<and> c_count c' + of_nat (length ps) = c_count c"
proof (induction ps arbitrary: c)
  case (Cons p ps)
  obtain i a where p: "p = (i, a)" by (cases p)
  from complete_inv [OF Cons.prems [unfolded p list.map snd_conv append_Cons], of "(c_heap c a)\<lparr>ar_Error := err\<rparr>" "c_Stats c" "c_count c - 1"]
  obtain d c1 where "ar_done (c_heap c a) = Some d"
    "close_chan d (set_result a ((c_heap c a)\<lparr>ar_Error := err\<rparr>) (c\<lparr>c_count := c_count c - 1\<rparr>)) = (Ret (), c1)"
    "res_inv c1 (map snd ps @ R) H W" "c_count c1 = c_count c - 1" by auto
  moreover from Cons.IH [OF this(3)] obtain c' where "cleanup err ps c1 = (Ret (), c')" "res_inv c' R H W"
    "c_count c' + of_nat (length ps) = c_count c1" by blast
  ultimately show ?case by (simp add: p Let_def algebra_simps)
qed simp

section \<open>Every reachable state\<close>

definition pending_all :: "clientConn list \<Rightarrow> nat list" where
  "pending_all conns = concat (map (\<lambda>cc. map snd (cc_pending cc)) conns)"

definition client_inv :: "'h csys \<Rightarrow> bool" where
  "client_inv s \<longleftrightarrow>
     res_inv (sy_c s) (pending_all (sy_conns s)) (sy_held s) (sy_waiting s) \<and>
     (\<forall>cc \<in> set (sy_conns s). distinct (map fst (cc_pending cc))) \<and>
     c_count (sy_c s) = of_nat (length (pending_all (sy_conns s)))"

text \<open>The other connections are a frame around an operation on connection \<open>i\<close>.\<close>

lemma pending_all_split:
  assumes "i < length conns"
  shows "\<exists>R. mset (pending_all conns) = mset (map snd (cc_pending (conns ! i)) @ R) \<and>
    (\<forall>cc'. mset (pending_all (conns[i := cc'])) = mset (map snd (cc_pending cc') @ R))"
  unfolding pending_all_def by (rule mset_concat_split [OF assms])

lemma client_inv_conn:
  assumes inv: "client_inv s" and i: "i < length (sy_conns s)"
    and op: "\<And>R. res_inv (sy_c s) (map snd (cc_pending (sy_conns s ! i)) @ R) (sy_held s) (sy_waiting s) \<Longrightarrow>
      distinct (map fst (cc_pending (sy_conns s ! i))) \<Longrightarrow>
      res_inv c' (map snd (cc_pending cc') @ R) (sy_held s) (sy_waiting s) \<and>
      distinct (map fst (cc_pending cc')) \<and>
      c_count c' + of_nat (length (cc_pending (sy_conns s ! i))) = c_count (sy_c s) + of_nat (length (cc_pending cc'))"
  shows "client_inv (s\<lparr>sy_c := c', sy_conns := (sy_conns s)[i := cc']\<rparr>)"
proof -
  obtain R where R: "mset (pending_all (sy_conns s)) = mset (map snd (cc_pending (sy_conns s ! i)) @ R)"
    "mset (pending_all ((sy_conns s)[i := cc'])) = mset (map snd (cc_pending cc') @ R)"
    using pending_all_split [OF i] by blast
  note len = R [THEN mset_eq_length]
  have "res_inv (sy_c s) (map snd (cc_pending (sy_conns s ! i)) @ R) (sy_held s) (sy_waiting s)"
    "distinct (map fst (cc_pending (sy_conns s ! i)))"
    using inv i res_inv_perm [OF R(1), of "sy_c s"] by (simp_all add: client_inv_def)
  note new = op [OF this]
  then have "res_inv c' (pending_all ((sy_conns s)[i := cc'])) (sy_held s) (sy_waiting s)"
    using res_inv_perm [OF R(2), of c'] by simp
  moreover have "\<forall>cc \<in> set ((sy_conns s)[i := cc']). distinct (map fst (cc_pending cc))"
    using inv new set_update_subset_insert [of "sy_conns s" i cc'] by (auto simp: client_inv_def)
  moreover have "c_count c' = of_nat (length (pending_all ((sy_conns s)[i := cc'])))"
    using new inv len by (simp add: client_inv_def)
  ultimately show ?thesis by (simp add: client_inv_def)
qed

lemma client_step_inv: "client_step s s' \<Longrightarrow> client_inv s \<Longrightarrow> client_inv s'"
proof (induction rule: client_step.induct)
  case (new ch r skip pooled now s a c')
  then show ?case using callAsync_new_inv [OF _ new.hyps(1), of "pending_all (sy_conns s)" "sy_held s" "sy_waiting s"] by (simp add: client_inv_def)
next
  case (send a s c')
  then show ?case using trySend_inv [OF _ send.hyps(1,2), of "pending_all (sy_conns s)" "sy_waiting s"] by (simp add: client_inv_def)
next
  case (send_wait a s c')
  have "res_inv c' P H (insert a W)" if "res_inv c' P H W" "a \<in> set (c_requests c')" "dones c' a \<noteq> None" for P H W
    using that chan_wait place_wait [of _ P _ H W _ a] by (auto simp: res_inv_def)
  moreover have "dones (sy_c s) a \<noteq> None" using send_wait.hyps(2) by (simp add: dones_def)
  ultimately show ?case using send_wait.prems trySend_inv [OF _ send_wait.hyps(1,3), of "pending_all (sy_conns s)" "sy_waiting s"] by (simp add: client_inv_def)
next
  case (give_up a s)
  then show ?case using release_held_inv by (auto simp: client_inv_def)
next
  case (evict s c')
  then show ?case using evictOldest_inv [of "sy_c s"] by (auto simp: client_inv_def)
next
  case (cancel s a)
  have "res_inv (Cancel a c) P H W" if "res_inv c P H W" for c :: "'a Client" and P H W
    using that by (rule res_inv_frame) (auto simp: Cancel_def dones_def errs_def)
  then show ?case using cancel by (auto simp: client_inv_def Cancel_def)
next
  case (wait_done a s)
  then show ?case using wait_done_inv by (auto simp: client_inv_def CallTimeout_select_def)
next
  case (wait_timeout a s)
  have "res_inv (Cancel a c) P H (W - {a})" if "res_inv c P H W" for c :: "'a Client" and P H W
    using that place_stop_waiting chan_stop_waiting
    by (intro res_inv_frame [of c _ _ _ "Cancel a c"]) (auto simp: Cancel_def dones_def errs_def res_inv_def)
  then show ?case using wait_timeout by (auto simp: client_inv_def CallTimeout_select_def Cancel_def)
next
  case (take i s x c' cc')
  show ?case using take.prems take.hyps(1) clientWriter_take_inv [OF _ _ take.hyps(2)] by (intro client_inv_conn) auto
next
  case (deliver i s dt wr wr' c' cc')
  show ?case using deliver.prems deliver.hyps(1) clientReader_deliver_inv [OF _ _ deliver.hyps(2)]
    by (intro client_inv_conn) auto
next
  case (conn_ends i s how c')
  show ?case using conn_ends.prems conn_ends.hyps(1)
  proof (rule client_inv_conn)
    fix R
    assume "res_inv (sy_c s) (map snd (cc_pending (sy_conns s ! i)) @ R) (sy_held s) (sy_waiting s)"
    from cleanup_inv [OF this, of "conn_error how"] conn_ends.hyps(2)
    show "res_inv c' (map snd (cc_pending newConn) @ R) (sy_held s) (sy_waiting s) \<and>
      distinct (map fst (cc_pending newConn)) \<and> c_count c' + of_nat (length (cc_pending (sy_conns s ! i))) =
      c_count (sy_c s) + of_nat (length (cc_pending newConn))"
      by (auto simp: clientHandleConnection_end_def newConn_def)
  qed
next
  case (stats s st)
  have "res_inv (c\<lparr>c_Stats := st\<rparr>) P H W" if "res_inv c P H W" for c :: "'a Client" and P H W
    using that by (rule res_inv_frame) simp_all
  then show ?case using stats by (auto simp: client_inv_def)
qed

lemma client_reach_inv: "client_reach s \<Longrightarrow> client_inv s"
proof (induction rule: client_reach.induct)
  case (start cap n)
  have "pending_all (replicate n newConn) = []" by (induction n) (simp_all add: pending_all_def newConn_def)
  then show ?case
    by (auto simp: client_inv_def res_inv_def place_inv_def chan_inv_def newClient_def newConn_def)
next
  case (step s s')
  then show ?case by (simp add: client_step_inv)
qed

text \<open>A waiting caller's channel is closed exactly when its result is no longer in flight.\<close>

lemma waiter_ready:
  assumes "res_inv c P H W" "a \<in> W"
  shows "done_ready a c \<longleftrightarrow> a \<notin> set (c_requests c) \<union> set P"
proof -
  have "a \<notin> H" using assms by (auto simp: res_inv_def place_inv_def)
  moreover obtain d where "dones c a = Some d" "d \<in> c_closed c \<longleftrightarrow> a \<notin> set (c_requests c) \<union> set P \<union> H"
    using assms chan_waits [OF _ assms(2)] by (fastforce simp: res_inv_def)
  ultimately show ?thesis by (auto simp: done_ready_def dones_def)
qed

lemma client_reach_conn:
  assumes "client_reach s" "i < length (sy_conns s)"
  shows "\<exists>R. res_inv (sy_c s) (map snd (cc_pending (sy_conns s ! i)) @ R) (sy_held s) (sy_waiting s) \<and>
    distinct (map fst (cc_pending (sy_conns s ! i)))"
proof -
  obtain R where "mset (pending_all (sy_conns s)) = mset (map snd (cc_pending (sy_conns s ! i)) @ R)"
    using pending_all_split [OF assms(2)] by blast
  from res_inv_perm [OF this, of "sy_c s"] show ?thesis
    using client_reach_inv [OF assms(1)] assms(2) by (auto simp: client_inv_def)
qed


text \<open>A run: one call of one client over one connection, up to the answer.\<close>

definition run_new :: "test_headers csys" where
  "run_new = \<lparr>sy_c = newClient 2, sy_conns = [newConn], sy_held = {}, sy_waiting = {}\<rparr>"

definition run_held :: "test_headers csys" where
  "run_held = run_new\<lparr>sy_c := snd (callAsync_new None zeroReq False True 7 (newClient 2)), sy_held := {0}\<rparr>"

definition run_queued :: "test_headers csys" where
  "run_queued = run_held\<lparr>sy_c := snd (trySend 0 (sy_c run_held)), sy_held := {}, sy_waiting := {0}\<rparr>"

definition run_sent :: "test_headers csys" where
  "run_sent = run_queued\<lparr>sy_c := (sy_c run_queued)\<lparr>c_requests := [], c_count := 1\<rparr>,
     sy_conns := [\<lparr>cc_pending = [(1, 0)], cc_msgID = 1\<rparr>]\<rparr>"

lemmas run_defs = run_new_def run_held_def run_queued_def run_sent_def newClient_def newConn_def
  callAsync_new_def acquireAsyncResult_def pool_pick_def new_result_def set_result_def make_chan_def
  zeroResult_def zeroReq_def trySend_def

lemma client_reach_run_queued: "client_reach run_queued"
proof -
  have "client_reach run_new" using client_reach.start [of 2 1] by (simp add: run_new_def)
  then have "client_reach run_held"
    using client_reach_new [of run_new None zeroReq False True 7 0 "sy_c run_held"] by (simp add: run_defs)
  then show ?thesis
    using client_reach_send_wait [of run_held 0 "sy_c run_queued"] by (simp add: run_defs)
qed

lemma client_reach_run_sent: "client_reach run_sent"
proof -
  have "freeID [] 1 = Some 1" by (subst freeID.simps) simp
  then show ?thesis
    using client_reach_take [OF client_reach_run_queued, of 0 "WSend (wire_request 1 zeroReq)" "sy_c run_sent" "\<lparr>cc_pending = [(1, 0)], cc_msgID = 1\<rparr>"]
    by (simp add: run_defs clientWriter_take_def isCanceled_def nextMsgID_def)
qed






end
