(* ===== verification/Client_Results.thy ===== *)
theory Client_Results
  imports Client_Safety
begin

text \<open>
  What callers of the client get: the response that answers their request, the error of the
  connection when it ends, the overflow error when newer requests push theirs out of the
  queue. The theorems are about all reachable states of \<open>Client_Safety\<close>. The last ones show
  two ways in which a caller is told something wrong.
\<close>

section \<open>Answers\<close>

lemma map_of_without: "map_of (filter (\<lambda>p. fst p \<noteq> i) ps) = (map_of ps)(i := None)"
  by (induction ps) (auto simp: fun_eq_iff)

lemma deliver_result:
  assumes s: "client_reach s" "i < length (sy_conns s)"
    and a: "map_of (cc_pending (sy_conns s ! i)) (is_ID wr) = Some a"
  shows "\<exists>c' cc'. clientReader_deliver dt wr (sy_c s) (sy_conns s ! i) = (Ret (), clear_response wr, c', cc') \<and>
    done_ready a c' \<and>
    ar_Response (c_heap c' a) = \<lparr>resp_Headers = is_Headers wr,
      resp_Body = \<lparr>cb_Size = is_Size wr, cb_Reader = is_Reader wr\<rparr>\<rparr> \<and>
    ar_Error (c_heap c' a) = (if is_Error wr = [] then None else Some (CServer (is_Error wr))) \<and>
    map_of (cc_pending cc') = (map_of (cc_pending (sy_conns s ! i)))(is_ID wr := None) \<and>
    (\<forall>b \<in> sy_waiting s - {a}. c_heap c' b = c_heap (sy_c s) b \<and> (done_ready b c' \<longleftrightarrow> done_ready b (sy_c s)))"
proof -
  let ?cc = "sy_conns s ! i" and ?c = "sy_c s"
  let ?ps = "filter (\<lambda>p. fst p \<noteq> is_ID wr) (cc_pending ?cc)"
  obtain R where R: "res_inv ?c (map snd (cc_pending ?cc) @ R) (sy_held s) (sy_waiting s)"
    "distinct (map fst (cc_pending ?cc))" using client_reach_conn [OF s] by blast
  have inv: "res_inv ?c (a # map snd ?ps @ R) (sy_held s) (sy_waiting s)"
    using R(1) map_of_split(1) [OF R(2) a] by (subst res_inv_perm [of _ "map snd (cc_pending ?cc) @ R"]) auto
  let ?m = "(c_heap ?c a)\<lparr>ar_Response := \<lparr>resp_Headers = is_Headers wr,
        resp_Body = \<lparr>cb_Size = is_Size wr, cb_Reader = is_Reader wr\<rparr>\<rparr>,
        ar_Error := (if is_Error wr \<noteq> [] then Some (CServer (is_Error wr)) else ar_Error (c_heap ?c a))\<rparr>"
  let ?st = "incRPCTime dt (incRPCCalls (c_Stats ?c))"
  from complete_inv [OF inv, of ?m ?st "c_count ?c - 1"] obtain d c2 where
    d: "ar_done (c_heap ?c a) = Some d" and
    cl: "close_chan d (set_result a ?m (?c\<lparr>c_count := c_count ?c - 1, c_Stats := ?st\<rparr>)) = (Ret (), c2)" and
    c2: "c2 = set_result a ?m (?c\<lparr>c_count := c_count ?c - 1, c_Stats := ?st, c_closed := insert d (c_closed ?c)\<rparr>)" and
    inv2: "res_inv c2 (map snd ?ps @ R) (sy_held s) (sy_waiting s)" by auto
  have "clientReader_deliver dt wr ?c ?cc = (Ret (), clear_response wr, c2, ?cc\<lparr>cc_pending := ?ps\<rparr>)"
    using a d cl by (simp add: clientReader_deliver_def Let_def)
  moreover have "done_ready a c2" using c2 d by (simp add: done_ready_def)
  moreover have "ar_Error (c_heap ?c a) = None" using inv by (simp add: res_inv_def errs_def)
  moreover have "map_of ?ps = (map_of (cc_pending ?cc))(is_ID wr := None)"
    by (rule map_of_without)
  moreover have "c_heap c2 b = c_heap ?c b \<and> (done_ready b c2 \<longleftrightarrow> done_ready b ?c)" if "b \<in> sy_waiting s - {a}" for b
    using that waiter_ready [OF inv, of b] waiter_ready [OF inv2, of b] by (auto simp: c2)
  ultimately show ?thesis using c2 by auto
qed

text \<open>
  C7. A response is delivered to the caller whose pending request has its identifier, with
  the headers, body and error text of the response; the identifier becomes free, and no other
  waiting caller notices.
\<close>

theorem clientReader_delivers:
  assumes s: "client_reach s" "i < length (sy_conns s)"
    and a: "map_of (cc_pending (sy_conns s ! i)) (is_ID wr) = Some a"
  shows "\<exists>c' cc'. clientReader_deliver dt wr (sy_c s) (sy_conns s ! i) = (Ret (), clear_response wr, c', cc') \<and>
    done_ready a c' \<and>
    ar_Response (c_heap c' a) = \<lparr>resp_Headers = is_Headers wr,
      resp_Body = \<lparr>cb_Size = is_Size wr, cb_Reader = is_Reader wr\<rparr>\<rparr> \<and>
    ar_Error (c_heap c' a) = (if is_Error wr = [] then None else Some (CServer (is_Error wr))) \<and>
    map_of (cc_pending cc') = (map_of (cc_pending (sy_conns s ! i)))(is_ID wr := None) \<and>
    (\<forall>b \<in> sy_waiting s - {a}. c_heap c' b = c_heap (sy_c s) b \<and> (done_ready b c' \<longleftrightarrow> done_ready b (sy_c s)))"
  using deliver_result [OF assms] .

theorem clientReader_delivers_witness:
  "client_reach run_sent \<and>
   (\<exists>c' cc'. clientReader_deliver 3 \<lparr>is_ID = 1, is_Headers = None, is_Size = 0, is_Reader = None, is_Error = [104]\<rparr>
        (sy_c run_sent) (sy_conns run_sent ! 0) =
      (Ret (), \<lparr>is_ID = 0, is_Headers = None, is_Size = 0, is_Reader = None, is_Error = []\<rparr>, c', cc') \<and>
      done_ready 0 c' \<and> ar_Error (c_heap c' 0) = Some (CServer [104]))"
  using clientReader_delivers [OF client_reach_run_sent, of 0
      "\<lparr>is_ID = 1, is_Headers = None, is_Size = 0, is_Reader = None, is_Error = [104]\<rparr>" 0 3]
    client_reach_run_sent
  by (auto simp: run_sent_def run_queued_def run_held_def run_new_def clear_response_def)

section \<open>The end of a connection\<close>

lemma cleanup_releases:
  assumes "res_inv c (map snd ps @ R) H W"
  shows "\<exists>c'. cleanup err ps c = (Ret (), c') \<and> res_inv c' R H W \<and> c_closed c \<subseteq> c_closed c' \<and>
    c_requests c' = c_requests c \<and> (\<forall>b. b \<notin> snd ` set ps \<longrightarrow> c_heap c' b = c_heap c b) \<and>
    (\<forall>a \<in> snd ` set ps. done_ready a c' \<and> ar_Error (c_heap c' a) = err \<and>
       ar_Response (c_heap c' a) = ar_Response (c_heap c a))"
  using assms
proof (induction ps arbitrary: c)
  case (Cons p ps)
  obtain i a where p: "p = (i, a)" by (cases p)
  let ?m = "(c_heap c a)\<lparr>ar_Error := err\<rparr>"
  have inv: "res_inv c (a # (map snd ps @ R)) H W" using Cons.prems by (simp add: p)
  from complete_inv [OF inv, of ?m "c_Stats c" "c_count c - 1"]
  obtain d c1 where d: "ar_done (c_heap c a) = Some d" and
    cl: "close_chan d (set_result a ?m (c\<lparr>c_count := c_count c - 1\<rparr>)) = (Ret (), c1)" and
    c1: "c1 = set_result a ?m (c\<lparr>c_count := c_count c - 1, c_Stats := c_Stats c, c_closed := insert d (c_closed c)\<rparr>)" and
    inv1: "res_inv c1 (map snd ps @ R) H W" by auto
  have a: "a \<notin> snd ` set ps" using inv by (auto simp: res_inv_def place_inv_def)
  from Cons.IH [OF inv1] obtain c' where c': "cleanup err ps c1 = (Ret (), c')" "res_inv c' R H W"
    "c_closed c1 \<subseteq> c_closed c'" "c_requests c' = c_requests c1"
    "\<forall>b. b \<notin> snd ` set ps \<longrightarrow> c_heap c' b = c_heap c1 b"
    "\<forall>b \<in> snd ` set ps. done_ready b c' \<and> ar_Error (c_heap c' b) = err \<and>
      ar_Response (c_heap c' b) = ar_Response (c_heap c1 b)" by blast
  have "done_ready a c' \<and> ar_Error (c_heap c' a) = err \<and> ar_Response (c_heap c' a) = ar_Response (c_heap c a)"
    using c' a d by (auto simp: c1 done_ready_def)
  moreover have "ar_Response (c_heap c1 b) = ar_Response (c_heap c b)" for b by (simp add: c1)
  moreover have "c_heap c1 b = c_heap c b" if "b \<noteq> a" for b using that by (simp add: c1)
  ultimately show ?case using c' cl d by (auto simp: p Let_def c1)
qed simp

text \<open>
  C8. When a connection ends, every caller with a request pending on it is released, with the
  error of the connection, and the callers waiting for anything else are left alone.
\<close>

theorem connection_end_releases:
  assumes s: "client_reach s" "i < length (sy_conns s)"
  shows "\<exists>c'. clientHandleConnection_end how (sy_c s) (sy_conns s ! i) = (Ret (), c') \<and>
    (\<forall>a \<in> snd ` set (cc_pending (sy_conns s ! i)).
       done_ready a c' \<and> ar_Error (c_heap c' a) = conn_error how) \<and>
    (\<forall>b \<in> sy_waiting s - snd ` set (cc_pending (sy_conns s ! i)).
       c_heap c' b = c_heap (sy_c s) b \<and> (done_ready b c' \<longleftrightarrow> done_ready b (sy_c s)))"
proof -
  obtain R where R: "res_inv (sy_c s) (map snd (cc_pending (sy_conns s ! i)) @ R) (sy_held s) (sy_waiting s)"
    using client_reach_conn [OF s] by blast
  from cleanup_releases [OF R, of "conn_error how"] obtain c' where
    c': "cleanup (conn_error how) (cc_pending (sy_conns s ! i)) (sy_c s) = (Ret (), c')"
    "res_inv c' R (sy_held s) (sy_waiting s)" "c_requests c' = c_requests (sy_c s)"
    "\<forall>b. b \<notin> snd ` set (cc_pending (sy_conns s ! i)) \<longrightarrow> c_heap c' b = c_heap (sy_c s) b"
    "\<forall>a \<in> snd ` set (cc_pending (sy_conns s ! i)). done_ready a c' \<and> ar_Error (c_heap c' a) = conn_error how"
    by blast
  have "done_ready b c' \<longleftrightarrow> done_ready b (sy_c s)"
    if "b \<in> sy_waiting s - snd ` set (cc_pending (sy_conns s ! i))" for b
    using that waiter_ready [OF R, of b] waiter_ready [OF c'(2), of b] c'(3) by auto
  with c' show ?thesis by (auto simp: clientHandleConnection_end_def)
qed

theorem connection_end_releases_witness:
  "client_reach run_sent \<and>
   (\<exists>c'. clientHandleConnection_end (EndReader (Some EOF)) (sy_c run_sent) (sy_conns run_sent ! 0) = (Ret (), c') \<and>
      done_ready 0 c' \<and> ar_Error (c_heap c' 0) = Some (CConnection EOF))"
  using connection_end_releases [OF client_reach_run_sent, of 0 "EndReader (Some EOF)"] client_reach_run_sent
  by (auto simp: run_sent_def run_queued_def run_held_def run_new_def)

text \<open>
  C39. Stopping the client reports success: a caller whose request is pending when \<open>Stop\<close> is
  called gets a nil error together with whatever response its result held before.
\<close>

theorem stop_looks_like_success:
  assumes s: "client_reach s" "i < length (sy_conns s)" "a \<in> snd ` set (cc_pending (sy_conns s ! i))"
  shows "\<exists>c'. clientHandleConnection_end EndStop (sy_c s) (sy_conns s ! i) = (Ret (), c') \<and> done_ready a c' \<and>
    fst (CallTimeout_select True a c') = (ar_Response (c_heap (sy_c s) a), None)"
proof -
  obtain R where R: "res_inv (sy_c s) (map snd (cc_pending (sy_conns s ! i)) @ R) (sy_held s) (sy_waiting s)"
    using client_reach_conn [OF s(1,2)] by blast
  from cleanup_releases [OF R, of None] show ?thesis using s(3)
    by (fastforce simp: clientHandleConnection_end_def CallTimeout_select_def)
qed

theorem stop_looks_like_success_witness:
  "client_reach run_sent \<and>
   (\<exists>c'. clientHandleConnection_end EndStop (sy_c run_sent) (sy_conns run_sent ! 0) = (Ret (), c') \<and>
      snd (fst (CallTimeout_select True 0 c')) = None)"
  using stop_looks_like_success [OF client_reach_run_sent, of 0 0] client_reach_run_sent
  by (fastforce simp: run_sent_def run_queued_def run_held_def run_new_def)

section \<open>A full queue\<close>

text \<open>The oldest request of a full queue makes room; its caller learns about it.\<close>

lemma evictOldest_evicts:
  assumes inv: "res_inv c P H W" "c_requests c = mm # q"
  shows "\<exists>c'. evictOldest c = (Ret (), c') \<and> c_requests c' = q \<and> c_cap c' = c_cap c \<and>
    (\<forall>b. b \<noteq> mm \<longrightarrow> c_heap c' b = c_heap c b) \<and>
    (if ar_done (c_heap c mm) = None then mm \<in> set (c_pool c')
     else done_ready mm c' \<and> ar_Error (c_heap c' mm) = Some COverflow)"
proof (cases "ar_done (c_heap c mm)")
  case None
  then show ?thesis using inv(2) by (simp add: evictOldest_def finish_def releaseAsyncResult_def Let_def)
next
  case (Some d)
  have "d \<notin> c_closed c"
    using inv chan_open [of _ W "dones c" "c_closed c" "c_chan c" mm d] Some by (auto simp: res_inv_def dones_def)
  with Some inv(2) show ?thesis
    by (simp add: evictOldest_def finish_def close_set_result done_ready_def)
qed

text \<open>The result of \<open>callAsync\<close> is reached by the atomic steps of \<open>client_reach\<close>.\<close>

lemma done_ready_requests [simp]: "done_ready a (c\<lparr>c_requests := q\<rparr>) \<longleftrightarrow> done_ready a c"
  by (cases "ar_done (c_heap c a)") (simp_all add: done_ready_def)

lemma reach_held_again: "s\<lparr>sy_c := c, sy_held := sy_held s\<rparr> = s\<lparr>sy_c := c\<rparr>"
  by (cases s) simp

lemma trySend_reaches:
  assumes "client_reach (s\<lparr>sy_c := c, sy_held := insert a (sy_held s)\<rparr>)" "a \<notin> sy_held s"
  shows "trySend a c = (True, c') \<Longrightarrow> client_reach (s\<lparr>sy_c := c'\<rparr>)"
    and "trySend a c = (True, c') \<Longrightarrow> dones c a \<noteq> None \<Longrightarrow> client_reach (s\<lparr>sy_c := c', sy_waiting := insert a (sy_waiting s)\<rparr>)"
    and "client_reach (s\<lparr>sy_c := releaseAsyncResult a c\<rparr>)"
proof -
  show "client_reach (s\<lparr>sy_c := c'\<rparr>)" if "trySend a c = (True, c')"
    using client_reach_send [OF assms(1), of a c'] that assms(2) reach_held_again [of s c'] by simp
  show "client_reach (s\<lparr>sy_c := c', sy_waiting := insert a (sy_waiting s)\<rparr>)"
    if "trySend a c = (True, c')" "dones c a \<noteq> None"
    using client_reach_send_wait [OF assms(1), of a c'] that assms(2) by (cases s) (simp add: dones_def)
  show "client_reach (s\<lparr>sy_c := releaseAsyncResult a c\<rparr>)"
    using client_reach_give_up [OF assms(1), of a] assms(2) reach_held_again [of s "releaseAsyncResult a c"] by simp
qed



section \<open>Results that stay cancelled\<close>


text \<open>How a pooled result gets cancelled: a batch that times out cancels all its results, also
  the ones without a response, which the writer has recycled by then.\<close>

definition run_poisoned :: "test_headers csys" where
  "run_poisoned = run_new\<lparr>sy_c := Cancel 0 (releaseAsyncResult 0
     ((snd (callAsync_new None zeroReq True True 7 (newClient 2)))\<lparr>c_Stats := incRPCCalls zeroStats\<rparr>))\<rparr>"

lemma client_reach_run_poisoned: "client_reach run_poisoned"
proof -
  let ?c = "snd (callAsync_new None zeroReq True True 7 (newClient 2)) :: test_headers Client"
  have "client_reach run_new" using client_reach.start [of 2 1] by (simp add: run_new_def)
  then have "client_reach (run_new\<lparr>sy_c := ?c, sy_held := {0}\<rparr>)"
    using client_reach_new [of run_new None zeroReq True True 7 0 ?c] by (simp add: run_defs)
  then have "client_reach (run_new\<lparr>sy_c := ?c\<lparr>c_requests := [0]\<rparr>\<rparr>)"
    using client_reach_send [of "run_new\<lparr>sy_c := ?c, sy_held := {0}\<rparr>" 0 "?c\<lparr>c_requests := [0]\<rparr>"] by (simp add: run_defs)
  then have "client_reach (run_new\<lparr>sy_c := releaseAsyncResult 0 (?c\<lparr>c_Stats := incRPCCalls zeroStats\<rparr>)\<rparr>)"
    using client_reach_take [of "run_new\<lparr>sy_c := ?c\<lparr>c_requests := [0]\<rparr>\<rparr>" 0 "WSend (wire_request 0 zeroReq)"
        "releaseAsyncResult 0 (?c\<lparr>c_Stats := incRPCCalls zeroStats\<rparr>)" newConn]
    by (simp add: run_defs clientWriter_take_def isCanceled_def releaseAsyncResult_def Let_def)
  from client_reach_cancel [OF this, of 0] show ?thesis by (simp add: run_poisoned_def)
qed


end
