(* ===== verification/Client_Batch.thy ===== *)
theory Client_Batch
  imports Client_Results
begin

text \<open>
  Batches of calls, \<^verbatim>\<open>src/client.go\<close>: requests are collected, started one after the other with
  retries when the queue is full, and then awaited under one timeout. The channels of a batch
  are numbered together with the client's other channels. The rest of the program runs
  between the operations of a batch: \<open>world k\<close> is what it does before the \<open>k\<close>-th of them.
\<close>

section \<open>Building a batch\<close>

record 'h BatchResult =
  br_Response :: "'h response"
  br_Error :: "ClientError option"
  br_request :: "'h request"
  br_done :: "nat option"

type_synonym 'h Batch = "'h BatchResult list"

definition NewBatch :: "'h Batch" where
  "NewBatch = []"

definition batch_add :: "'h request \<Rightarrow> bool \<Rightarrow> 'h Batch \<Rightarrow> 'h Client \<Rightarrow> 'h Batch \<times> 'h Client" where
  "batch_add request skipResponse b c =
     (let br = \<lparr>br_Response = zeroResp, br_Error = None, br_request = request, br_done = None\<rparr> in
      if skipResponse then (b @ [br], c)
      else (case make_chan c of (d, c') \<Rightarrow> (b @ [br\<lparr>br_done := Some d\<rparr>], c')))"

definition batch_Add :: "'h request \<Rightarrow> 'h Batch \<Rightarrow> 'h Client \<Rightarrow> 'h Batch \<times> 'h Client" where
  "batch_Add request b c = batch_add request False b c"

definition AddSkipResponse :: "'h request \<Rightarrow> 'h Batch \<Rightarrow> 'h Client \<Rightarrow> 'h Batch \<times> 'h Client" where
  "AddSkipResponse request b c = batch_add request True b c"

section \<open>Starting the calls\<close>

text \<open>
  \<open>callAsyncRetry\<close> tries once more than \<open>retriesCount\<close> while the queue overflows; the argument
  counts the tries left. Between two tries it sleeps and the world moves on. Other errors end
  it at once.
\<close>

fun retry_loop :: "(nat \<Rightarrow> 'h Client \<Rightarrow> 'h Client) \<Rightarrow> nat option \<Rightarrow> 'h request \<Rightarrow> bool \<Rightarrow> nat \<Rightarrow> nat \<Rightarrow>
    'h Client \<Rightarrow> (ClientError + nat) outcome \<times> 'h Client" where
  "retry_loop world ch request skip now n c =
     (case callAsync ch request skip False now c of
        (Ret (Inl COverflow), c') \<Rightarrow>
          (case n of
             0 \<Rightarrow> (Ret (Inl COverflow), c')
           | Suc k \<Rightarrow> retry_loop world ch request skip now k (world k c'))
      | r \<Rightarrow> r)"

definition callAsyncRetry :: "(nat \<Rightarrow> 'h Client \<Rightarrow> 'h Client) \<Rightarrow> nat option \<Rightarrow> 'h request \<Rightarrow> bool \<Rightarrow> nat \<Rightarrow> nat \<Rightarrow>
    'h Client \<Rightarrow> (ClientError + nat) outcome \<times> 'h Client" where
  "callAsyncRetry world ch request skip retriesCount now c =
     retry_loop world ch request skip now retriesCount c"

text \<open>The first loop of \<open>Batch.CallTimeout\<close>: the results of the calls, or the first error.\<close>

fun batch_start :: "(nat \<Rightarrow> 'h Client \<Rightarrow> 'h Client) \<Rightarrow> nat option \<Rightarrow> nat \<Rightarrow> 'h Batch \<Rightarrow> 'h Client \<Rightarrow>
    (ClientError + nat list) outcome \<times> 'h Client" where
  "batch_start world ch now [] c = (Ret (Inr []), c)"
| "batch_start world ch now (op # ops) c =
     (case callAsyncRetry world ch (br_request op) (br_done op = None) 5 now c of
        (Ret (Inl e), c') \<Rightarrow> (Ret (Inl e), c')
      | (Ret (Inr a), c') \<Rightarrow>
          (case batch_start world ch now ops c' of
             (Ret (Inr as), c'') \<Rightarrow> (Ret (Inr (a # as)), c'')
           | r \<Rightarrow> r)
      | (Fail e, c') \<Rightarrow> (Fail e, c')
      | (Panic s, c') \<Rightarrow> (Panic s, c'))"

section \<open>Waiting for the results\<close>

definition close_opt :: "nat option \<Rightarrow> 'h Client \<Rightarrow> unit outcome \<times> 'h Client" where
  "close_opt d c = (case d of None \<Rightarrow> (Ret (), c) | Some d' \<Rightarrow> close_chan d' c)"

text \<open>After the timer has ticked: cancel the remaining calls and tell their callers.\<close>

fun batch_expire :: "nat list \<Rightarrow> 'h Batch \<Rightarrow> 'h Client \<Rightarrow> 'h Batch outcome \<times> 'h Client" where
  "batch_expire (m # ms) (op # ops) c =
     (case close_opt (br_done op) (Cancel m c) of
        (Ret _, c') \<Rightarrow>
          (case batch_expire ms ops c' of
             (Ret ops', c'') \<Rightarrow> (Ret (op\<lparr>br_Error := Some CTimeout\<rparr> # ops'), c'')
           | r \<Rightarrow> r)
      | (Fail e, c') \<Rightarrow> (Fail e, c')
      | (Panic s, c') \<Rightarrow> (Panic s, c'))"
| "batch_expire ms ops c = (Ret [], c)"

text \<open>
  The second loop. Its \<open>select\<close> takes the result if the channel is closed, unless the timer
  has also ticked and is preferred (\<open>late\<close>); otherwise it waits for the timer.
\<close>

fun batch_wait :: "(nat \<Rightarrow> 'h Client \<Rightarrow> 'h Client) \<Rightarrow> (nat \<Rightarrow> bool) \<Rightarrow> nat list \<Rightarrow> 'h Batch \<Rightarrow> 'h Client \<Rightarrow>
    ('h Batch \<times> ClientError option) outcome \<times> 'h Client" where
  "batch_wait world late (m # ms) (op # ops) c =
     (case br_done op of
        None \<Rightarrow>
          (case batch_wait world late ms ops c of
             (Ret (ops', e), c') \<Rightarrow> (Ret (op # ops', e), c')
           | r \<Rightarrow> r)
      | Some d \<Rightarrow>
          (let c1 = world (length ms) c in
           if done_ready m c1 \<and> \<not> late (length ms)
           then (case close_chan d c1 of
                   (Ret _, c2) \<Rightarrow>
                     (case batch_wait world late ms ops c2 of
                        (Ret (ops', e), c3) \<Rightarrow>
                          (Ret (op\<lparr>br_Response := ar_Response (c_heap c1 m), br_Error := ar_Error (c_heap c1 m)\<rparr> # ops', e), c3)
                      | r \<Rightarrow> r)
                 | (Fail e, c2) \<Rightarrow> (Fail e, c2)
                 | (Panic s, c2) \<Rightarrow> (Panic s, c2))
           else (case batch_expire (m # ms) (op # ops) c1 of
                   (Ret ops', c2) \<Rightarrow> (Ret (ops', Some CTimeout), c2)
                 | (Fail e, c2) \<Rightarrow> (Fail e, c2)
                 | (Panic s, c2) \<Rightarrow> (Panic s, c2))))"
| "batch_wait world late ms ops c = (Ret ([], None), c)"

text \<open>
  The operations of the batch are taken out of it, so a batch is empty after the call. An error
  of a call that cannot be started is returned at once.
\<close>

definition batch_CallTimeout :: "(nat \<Rightarrow> 'h Client \<Rightarrow> 'h Client) \<Rightarrow> (nat \<Rightarrow> bool) \<Rightarrow> nat option \<Rightarrow> nat \<Rightarrow>
    'h Batch \<Rightarrow> 'h Client \<Rightarrow> ('h Batch \<times> ClientError option) outcome \<times> 'h Client" where
  "batch_CallTimeout world late ch now ops c =
     (case batch_start world ch now ops c of
        (Ret (Inl e), c') \<Rightarrow> (Ret (ops, Some e), c')
      | (Ret (Inr ms), c') \<Rightarrow> batch_wait world late ms ops c'
      | (Fail e, c') \<Rightarrow> (Fail e, c')
      | (Panic s, c') \<Rightarrow> (Panic s, c'))"

definition batch_Call :: "(nat \<Rightarrow> 'h Client \<Rightarrow> 'h Client) \<Rightarrow> (nat \<Rightarrow> bool) \<Rightarrow> nat option \<Rightarrow> nat \<Rightarrow>
    'h Batch \<Rightarrow> 'h Client \<Rightarrow> ('h Batch \<times> ClientError option) outcome \<times> 'h Client" where
  "batch_Call world late ch now ops c = batch_CallTimeout world late ch now ops c"

section \<open>What a batch call promises\<close>

text \<open>
  \<open>batch_frame D c\<close>: the channels \<open>D\<close> of the batch are allocated, none of them belongs to a
  result, and exactly those in \<open>X\<close> are closed.
\<close>

definition batch_frame :: "nat set \<Rightarrow> nat set \<Rightarrow> 'h Client \<Rightarrow> bool" where
  "batch_frame D X c \<longleftrightarrow> D \<subseteq> {..<c_chan c} \<and> D \<inter> c_closed c = X \<and> (\<forall>a. \<forall>d \<in> D. dones c a \<noteq> Some d)"

definition batch_chans :: "'h Batch \<Rightarrow> nat list" where
  "batch_chans ops = concat (map (\<lambda>op. case br_done op of None \<Rightarrow> [] | Some d \<Rightarrow> [d]) ops)"

lemma batch_chans_simps [simp]:
  "batch_chans [] = []"
  "batch_chans (op # ops) = (case br_done op of None \<Rightarrow> batch_chans ops | Some d \<Rightarrow> d # batch_chans ops)"
  by (simp_all add: batch_chans_def split: option.splits)

lemma batch_frame_set_result:
  "batch_frame D X c \<Longrightarrow> ar_done m = ar_done (c_heap c a) \<or> ar_done m = None \<Longrightarrow> batch_frame D X (set_result a m c)"
  by (auto simp: batch_frame_def dones_def)

lemma batch_frame_frame:
  "batch_frame D X c \<Longrightarrow> c_chan c' = c_chan c \<Longrightarrow> c_closed c' = c_closed c \<Longrightarrow> c_heap c' = c_heap c \<Longrightarrow> batch_frame D X c'"
  by (simp add: batch_frame_def dones_def)

lemma batch_frame_release: "batch_frame D X c \<Longrightarrow> batch_frame D X (releaseAsyncResult a c)"
  by (auto simp: batch_frame_def)

lemma batch_frame_Cancel: "batch_frame D X c \<Longrightarrow> batch_frame D X (Cancel a c)"
  by (auto simp: batch_frame_def Cancel_def dones_def)

lemma batch_frame_close:
  "batch_frame D X c \<Longrightarrow> close_chan d c = (x, c') \<Longrightarrow> d \<notin> D \<Longrightarrow> batch_frame D X c'"
  "batch_frame D X c \<Longrightarrow> d \<in> D - X \<Longrightarrow> \<exists>c'. close_chan d c = (Ret (), c') \<and> batch_frame D (insert d X) c'"
  by (auto simp: batch_frame_def close_chan_def split: if_splits)

lemma evictOldest_frame: "batch_frame D X c \<Longrightarrow> evictOldest c = (x, c') \<Longrightarrow> batch_frame D X c'"
proof (cases "c_requests c")
  case (Cons mm q)
  assume f: "batch_frame D X c" and e: "evictOldest c = (x, c')"
  have f1: "batch_frame D X (c\<lparr>c_requests := q\<rparr>)" using f by (rule batch_frame_frame) simp_all
  show ?thesis
  proof (cases "ar_done (c_heap c mm)")
    case None
    then show ?thesis using e f1 Cons by (auto simp: evictOldest_def finish_def batch_frame_release)
  next
    case (Some d)
    then have "d \<notin> D" using f by (auto simp: batch_frame_def dones_def)
    moreover have "batch_frame D X (set_result mm ((c_heap c mm)\<lparr>ar_Error := Some COverflow\<rparr>) (c\<lparr>c_requests := q\<rparr>))"
      by (rule batch_frame_set_result [OF f1]) simp
    ultimately show ?thesis using e Cons Some
      by (auto simp: evictOldest_def finish_def intro: batch_frame_close(1))
  qed
qed (auto simp: evictOldest_def)

lemma callAsync_new_frame:
  assumes f: "batch_frame D X c" and n: "callAsync_new ch r skip pooled now c = (a, c')"
  shows "batch_frame D X c'"
proof -
  obtain c1 where ac: "(if skip \<or> pooled then acquireAsyncResult ch c else new_result c) = (a, c1)"
    and c': "c' = (let m = (c_heap c1 a)\<lparr>ar_request := r\<rparr> in if skip then set_result a m c1
      else set_result a (m\<lparr>ar_t := now, ar_done := Some (c_chan c1)\<rparr>) (c1\<lparr>c_chan := Suc (c_chan c1)\<rparr>))"
    using n by (auto simp: callAsync_new_def make_chan_def Let_def split: prod.splits if_splits)
  have "batch_frame D X c1" using ac f
    by (auto simp: acquireAsyncResult_def new_result_def batch_frame_def zeroResult_def split: if_splits prod.splits option.splits)
  then show ?thesis by (auto simp: c' Let_def batch_frame_def dones_def split: if_splits)
qed

lemma trySend_frame: "batch_frame D X c \<Longrightarrow> trySend a c = (b, c') \<Longrightarrow> batch_frame D X c'"
  by (auto simp: trySend_def batch_frame_def split: if_splits)

lemma callAsync_frame:
  assumes "batch_frame D X c" "callAsync ch r skip pooled now c = (x, c')"
  shows "batch_frame D X c'"
proof -
  obtain a c1 where n: "callAsync_new ch r skip pooled now c = (a, c1)" by (cases "callAsync_new ch r skip pooled now c")
  obtain b c2 where t: "trySend a c1 = (b, c2)" by (cases "trySend a c1")
  obtain y c3 where e: "evictOldest c2 = (y, c3)" by (cases "evictOldest c2")
  obtain b' c4 where t': "trySend a c3 = (b', c4)" by (cases "trySend a c3")
  note f1 = callAsync_new_frame [OF assms(1) n]
  note f2 = trySend_frame [OF f1 t]
  note f3 = evictOldest_frame [OF f2 e]
  note f4 = trySend_frame [OF f3 t']
  have "c' \<in> {c2, c3, c4, releaseAsyncResult a c2, releaseAsyncResult a c4}"
    using assms(2) n t e t' by (auto simp: callAsync_def split: bool.splits if_splits outcome.splits)
  with f2 f3 f4 show ?thesis by (auto intro: batch_frame_release)
qed

lemma retry_frame:
  assumes w: "\<And>k X c. batch_frame D X c \<Longrightarrow> batch_frame D X (world k c)"
  shows "batch_frame D X c \<Longrightarrow> retry_loop world ch r skip now n c = (x, c') \<Longrightarrow> batch_frame D X c'"
proof (induction n arbitrary: c)
  case 0
  then show ?case by (auto split: prod.splits outcome.splits sum.splits ClientError.splits dest: callAsync_frame)
next
  case (Suc n)
  obtain y c1 where y: "callAsync ch r skip False now c = (y, c1)" by (cases "callAsync ch r skip False now c")
  note f1 = callAsync_frame [OF Suc.prems(1) y]
  show ?case
  proof (cases "y = Ret (Inl COverflow)")
    case True
    then show ?thesis using Suc.IH [OF w [OF f1]] Suc.prems(2) y by simp
  next
    case False
    then have "c' = c1" using Suc.prems(2) y by (auto split: outcome.splits sum.splits ClientError.splits)
    with f1 show ?thesis by simp
  qed
qed

lemma batch_start_frame:
  assumes w: "\<And>k X c. batch_frame D X c \<Longrightarrow> batch_frame D X (world k c)"
  shows "batch_frame D X c \<Longrightarrow> batch_start world ch now ops c = (x, c') \<Longrightarrow>
    batch_frame D X c' \<and> (\<forall>ms. x = Ret (Inr ms) \<longrightarrow> length ms = length ops)"
proof (induction ops arbitrary: c x c')
  case (Cons op ops)
  obtain y c1 where y: "callAsyncRetry world ch (br_request op) (br_done op = None) 5 now c = (y, c1)"
    by (cases "callAsyncRetry world ch (br_request op) (br_done op = None) 5 now c")
  have f1: "batch_frame D X c1" using retry_frame [of D world, OF w Cons.prems(1)] y unfolding callAsyncRetry_def by blast
  obtain z c2 where z: "batch_start world ch now ops c1 = (z, c2)" by (cases "batch_start world ch now ops c1")
  show ?case using Cons.prems(2) y z f1 Cons.IH [OF f1 z]
    by (auto split: outcome.splits sum.splits)
qed auto

lemma close_opt_frame:
  "batch_frame D X c \<Longrightarrow> d = None \<or> the d \<in> D - X \<Longrightarrow>
   \<exists>c'. close_opt d c = (Ret (), c') \<and> batch_frame D (set_option d \<union> X) c'"
  using batch_frame_close(2) by (fastforce simp: close_opt_def split: option.splits)

lemma batch_expire_closes:
  "batch_frame D X c \<Longrightarrow> length ms = length ops \<Longrightarrow> distinct (batch_chans ops) \<Longrightarrow>
   set (batch_chans ops) \<subseteq> D - X \<Longrightarrow>
   \<exists>c'. batch_expire ms ops c = (Ret (map (br_Error_update (\<lambda>_. Some CTimeout)) ops), c') \<and>
     batch_frame D (X \<union> set (batch_chans ops)) c'"
proof (induction ms ops arbitrary: X c rule: list_induct2')
  case (4 m ms op ops)
  have "br_done op = None \<or> the (br_done op) \<in> D - X" using "4.prems"(4) by (auto split: option.splits)
  from close_opt_frame [OF batch_frame_Cancel [OF "4.prems"(1)] this] obtain c1 where
    c1: "close_opt (br_done op) (Cancel m c) = (Ret (), c1)" "batch_frame D (set_option (br_done op) \<union> X) c1" by blast
  have "distinct (batch_chans ops)" "set (batch_chans ops) \<subseteq> D - (set_option (br_done op) \<union> X)"
    using "4.prems"(3,4) by (auto split: option.splits)
  from "4.IH" [OF c1(2) _ this] obtain c2 where
    "batch_expire ms ops c1 = (Ret (map (br_Error_update (\<lambda>_. Some CTimeout)) ops), c2)"
    "batch_frame D (set_option (br_done op) \<union> X \<union> set (batch_chans ops)) c2" using "4.prems"(2) by auto
  then show ?case using c1(1) by (auto split: option.splits simp: Un_ac insert_commute)
qed simp_all

lemma batch_wait_closes:
  assumes w: "\<And>k X c. batch_frame D X c \<Longrightarrow> batch_frame D X (world k c)"
  shows "batch_frame D X c \<Longrightarrow> length ms = length ops \<Longrightarrow> distinct (batch_chans ops) \<Longrightarrow>
   set (batch_chans ops) \<subseteq> D - X \<Longrightarrow>
   \<exists>ops' e c'. batch_wait world late ms ops c = (Ret (ops', e), c') \<and>
     batch_frame D (X \<union> set (batch_chans ops)) c' \<and> e \<in> {None, Some CTimeout} \<and>
     map br_done ops' = map br_done ops \<and>
     (e \<noteq> None \<longrightarrow> (\<exists>k < length ops. \<forall>op \<in> set (drop k ops'). br_Error op = Some CTimeout))"
proof (induction ms ops arbitrary: X c rule: list_induct2')
  case (4 m ms op ops)
  let ?Q = "\<lambda>ops ops' e. e \<noteq> None \<longrightarrow> (\<exists>k < length ops. \<forall>op \<in> set (drop k ops'). br_Error op = Some CTimeout)"
  have shift: "?Q (op # ops) (op' # ops') e" if "?Q ops ops' e" for op' ops' e
    using that by (metis drop_Suc_Cons length_Cons Suc_mono)
  show ?case
  proof (cases "br_done op")
    case None
    from "4.IH" [OF "4.prems"(1)] "4.prems" None obtain ops' e c' where
      "batch_wait world late ms ops c = (Ret (ops', e), c')" "batch_frame D (X \<union> set (batch_chans ops)) c'"
      "e \<in> {None, Some CTimeout}" "map br_done ops' = map br_done ops" "?Q ops ops' e" by auto
    then show ?thesis using None shift [of e ops' op] by simp
  next
    case (Some d)
    let ?c1 = "world (length ms) c"
    note f1 = w [OF "4.prems"(1), of "length ms"]
    show ?thesis
    proof (cases "done_ready m ?c1 \<and> \<not> late (length ms)")
      case True
      have "d \<in> D - X" "distinct (batch_chans ops)" "set (batch_chans ops) \<subseteq> D - insert d X"
        using "4.prems" Some by auto
      moreover from this batch_frame_close(2) [OF f1] obtain c2 where
        c2: "close_chan d ?c1 = (Ret (), c2)" "batch_frame D (insert d X) c2" by blast
      ultimately obtain ops' e c' where
        "batch_wait world late ms ops c2 = (Ret (ops', e), c')"
        "batch_frame D (insert d X \<union> set (batch_chans ops)) c'" "e \<in> {None, Some CTimeout}"
        "map br_done ops' = map br_done ops" "?Q ops ops' e"
        using "4.IH" [OF c2(2)] "4.prems"(2) by auto
      then show ?thesis using Some True c2(1) shift [of e ops'] by (simp add: Let_def)
    next
      case False
      from batch_expire_closes [OF f1 "4.prems"(2-4)] obtain c2 where
        "batch_expire (m # ms) (op # ops) ?c1 = (Ret (map (br_Error_update (\<lambda>_. Some CTimeout)) (op # ops)), c2)"
        "batch_frame D (X \<union> set (batch_chans (op # ops))) c2" by blast
      then show ?thesis using Some False
        by (auto simp del: batch_expire.simps intro!: exI [of _ 0])
    qed
  qed
qed simp_all

text \<open>
  C21. Once all calls of a batch are started, \<open>Batch.CallTimeout\<close> returns nil or the timeout
  error, never panics, and closes every channel of the batch exactly once; after a timeout
  the requests from some point on all carry the timeout error.
\<close>

theorem batch_call_completes:
  assumes w: "\<And>k X c. batch_frame (set (batch_chans ops)) X c \<Longrightarrow> batch_frame (set (batch_chans ops)) X (world k c)"
    and d: "distinct (batch_chans ops)" and f: "batch_frame (set (batch_chans ops)) {} c"
    and started: "batch_start world ch now ops c = (Ret (Inr ms), c1)"
  shows "\<exists>ops' e c'. batch_CallTimeout world late ch now ops c = (Ret (ops', e), c') \<and>
    set (batch_chans ops) \<subseteq> c_closed c' \<and> e \<in> {None, Some CTimeout} \<and> map br_done ops' = map br_done ops \<and>
    (e \<noteq> None \<longrightarrow> (\<exists>k < length ops. \<forall>op \<in> set (drop k ops'). br_Error op = Some CTimeout))"
proof -
  note st = batch_start_frame [of "set (batch_chans ops)" world, OF w f started]
  have "length ms = length ops" using st by simp
  from batch_wait_closes [of "set (batch_chans ops)" world, OF w _ this d] st
  show ?thesis using started by (fastforce simp: batch_CallTimeout_def batch_frame_def)
qed

definition two_ops :: "nat Batch \<times> nat Client" where
  "two_ops = (case batch_Add zeroReq NewBatch (newClient 2) of (b, c) \<Rightarrow> batch_Add zeroReq b c)"

lemmas two_ops_eval = two_ops_def batch_Add_def batch_add_def NewBatch_def run_defs callAsync_def
  callAsyncRetry_def

theorem batch_call_completes_witness:
  "batch_frame {0, 1} {} (snd two_ops) \<and>
   (\<exists>e c'. (\<exists>ops'. batch_CallTimeout (\<lambda>_ c. c) (\<lambda>_. False) None 7 (fst two_ops) (snd two_ops) = (Ret (ops', e), c')) \<and>
      {0, 1} \<subseteq> c_closed c')"
proof -
  have ch: "batch_chans (fst two_ops) = [0, 1]" by (simp add: two_ops_eval)
  have f: "batch_frame {0, 1} {} (snd two_ops)"
    by (auto simp: two_ops_eval batch_frame_def dones_def)
  obtain c1 where "batch_start (\<lambda>_ c. c) None 7 (fst two_ops) (snd two_ops) = (Ret (Inr [0, 1]), c1)"
    by (simp add: two_ops_eval)
  with batch_call_completes [of "fst two_ops" "\<lambda>_ c. c" "snd two_ops" None 7 "[0, 1]" c1 "\<lambda>_. False"]
  show ?thesis using ch f by fastforce
qed

text \<open>
  When a call of a batch cannot be started, \<open>Batch.CallTimeout\<close> returns its error with
  none of the batch's channels closed, although its contract promises that all of them are:
  whoever waits on one waits for ever.
\<close>

lemma batch_call_leaves_open:
  assumes w: "\<And>k X c. batch_frame (set (batch_chans ops)) X c \<Longrightarrow> batch_frame (set (batch_chans ops)) X (world k c)"
    and f: "batch_frame (set (batch_chans ops)) {} c"
    and failed: "batch_start world ch now ops c = (Ret (Inl e), c1)"
  shows "batch_CallTimeout world late ch now ops c = (Ret (ops, Some e), c1) \<and>
    set (batch_chans ops) \<inter> c_closed c1 = {}"
  using batch_start_frame [of "set (batch_chans ops)" world, OF w f failed] failed
  by (simp add: batch_CallTimeout_def batch_frame_def)

definition full_ops :: "nat Batch \<times> nat Client" where
  "full_ops = (case batch_Add zeroReq NewBatch (newClient 1) of (b, c) \<Rightarrow> AddSkipResponse zeroReq b c)"

lemma batch_call_leaves_open_witness:
  "batch_frame {0} {} (snd full_ops) \<and>
   (\<exists>c1. batch_CallTimeout (\<lambda>_ c. c) (\<lambda>_. False) None 7 (fst full_ops) (snd full_ops) =
       (Ret (fst full_ops, Some COverflow), c1) \<and> 0 \<notin> c_closed c1)"
proof -
  have ch: "batch_chans (fst full_ops) = [0]" by (simp add: full_ops_def AddSkipResponse_def two_ops_eval)
  have f: "batch_frame {0} {} (snd full_ops)"
    by (auto simp: full_ops_def AddSkipResponse_def two_ops_eval batch_frame_def dones_def)
  obtain c1 where "batch_start (\<lambda>_ c. c) None 7 (fst full_ops) (snd full_ops) = (Ret (Inl COverflow), c1)"
    by (simp add: full_ops_def AddSkipResponse_def two_ops_eval releaseAsyncResult_def Let_def eval_nat_numeral)
  with batch_call_leaves_open [of "fst full_ops" "\<lambda>_ c. c" "snd full_ops" None 7 COverflow c1 "\<lambda>_. False"]
  show ?thesis using ch f by fastforce
qed

end
