(* ===== verification/Server_Requests.thy ===== *)
theory Server_Requests
  imports Client_Calls
begin

text \<open>
  The request path of the server, \<^verbatim>\<open>src/server.go\<close>: the reader of a connection decodes requests
  into pooled messages and hands each to a worker of its own, the worker calls the handler and
  queues the reply, the writer encodes it. The number of workers is bounded over all
  connections. Messages are shared by pointer, so they live in a store as the client's results
  do (\<open>Client_Calls\<close>, from which the type of received bodies is taken).
\<close>

section \<open>Messages\<close>

type_synonym 'h srequest = "('h, recvBody) Request"
type_synonym 'h sresponse = "('h, Body) Response"
type_synonym 'h handler = "('h srequest, 'h sresponse) HandlerFunc"

record 'h serverMessage =
  sm_ID :: uint64
  sm_Request :: "'h srequest option"
  sm_Response :: "'h sresponse option"
  sm_Error :: errtext
  sm_ClientAddr :: string

definition zeroMessage :: "'h serverMessage" where
  "zeroMessage = \<lparr>sm_ID = 0, sm_Request = None, sm_Response = None, sm_Error = [], sm_ClientAddr = []\<rparr>"

text \<open>
  The state all connections share: the store and pool of messages, the channel of workers
  (its length and its capacity \<open>Concurrency\<close>) and the counters.
\<close>

record 'h serverState =
  s_heap :: "nat \<Rightarrow> 'h serverMessage"
  s_next :: nat
  s_pool :: "nat list"
  s_workers :: nat
  s_Concurrency :: nat
  s_Stats :: ConnStats

definition set_message :: "nat \<Rightarrow> 'h serverMessage \<Rightarrow> 'h serverState \<Rightarrow> 'h serverState" where
  "set_message a m s = s\<lparr>s_heap := (s_heap s)(a := m)\<rparr>"

text \<open>\<open>serverMessagePool\<close>\<close>

definition getMessage :: "nat option \<Rightarrow> 'h serverState \<Rightarrow> nat \<times> 'h serverState" where
  "getMessage ch s =
     (case pool_pick ch (s_pool s) of
        (None, _) \<Rightarrow> (s_next s, set_message (s_next s) zeroMessage (s\<lparr>s_next := Suc (s_next s)\<rparr>))
      | (Some a, ps) \<Rightarrow> (a, s\<lparr>s_pool := ps\<rparr>))"

definition putMessage :: "nat \<Rightarrow> 'h serverState \<Rightarrow> 'h serverState" where
  "putMessage a s = s\<lparr>s_pool := a # s_pool s\<rparr>"

section \<open>The reader\<close>

definition isClientDisconnect :: "goerr \<Rightarrow> bool" where
  "isClientDisconnect err \<longleftrightarrow> err = ErrUnexpectedEOF \<or> err = EOF"

definition zeroRequest :: "'h inRequest" where
  "zeroRequest = \<lparr>iq_Service = 0, iq_ID = 0, iq_Headers = None, iq_Size = 0, iq_Reader = None\<rparr>"

definition request_of :: "'h inRequest \<Rightarrow> 'h srequest" where
  "request_of wr = \<lparr>req_Service = iq_Service wr, req_Headers = iq_Headers wr,
     req_Body = \<lparr>cb_Size = iq_Size wr, cb_Reader = iq_Reader wr\<rparr>\<rparr>"

definition clear_request :: "'h inRequest \<Rightarrow> 'h inRequest" where
  "clear_request wr = wr\<lparr>iq_ID := 0, iq_Service := 0, iq_Headers := None, iq_Size := 0, iq_Reader := None\<rparr>"

text \<open>What \<open>serverReader\<close> does with a decoded request, up to the wait for a worker.\<close>

definition serverReader_message :: "nat option \<Rightarrow> string \<Rightarrow> 'h inRequest \<Rightarrow> 'h serverState \<Rightarrow>
    nat \<times> 'h inRequest \<times> 'h serverState" where
  "serverReader_message ch clientAddr wr s =
     (case getMessage ch s of
        (a, s1) \<Rightarrow>
          (a, clear_request wr,
           set_message a ((s_heap s1 a)\<lparr>sm_ID := iq_ID wr, sm_Request := Some (request_of wr),
             sm_ClientAddr := clientAddr\<rparr>) s1))"

text \<open>
  One round of \<open>serverReader\<close>: \<open>Ret a\<close> is a message that waits for a worker; an error or a
  panic of the decoder ends the reader. The result also says whether the error is logged
  (\<open>stopped\<close> is \<open>isServerStop\<close>).
\<close>

definition serverReader_step :: "('h, 'ty) headers_impl \<Rightarrow> ('h, 'ty) registry \<Rightarrow> growth \<Rightarrow> nat option \<Rightarrow>
    nat option \<Rightarrow> string \<Rightarrow> bool \<Rightarrow> 'h inRequest \<Rightarrow> messageDecoder \<Rightarrow> pools \<Rightarrow> 'h serverState \<Rightarrow>
    (nat outcome \<times> bool) \<times> 'h inRequest \<times> messageDecoder \<times> pools \<times> 'h serverState" where
  "serverReader_step H reg grw ch mch clientAddr stopped wr d st s =
     (case DecodeRequest H reg grw ch wr (d\<lparr>md_stat := s_Stats s\<rparr>) st of
        (x, wr1, d1, st1) \<Rightarrow>
          (let s1 = s\<lparr>s_Stats := md_stat d1\<rparr> in
           case x of
             Fail e \<Rightarrow> ((Fail e, \<not> isClientDisconnect e \<and> \<not> stopped), wr1, d1, st1, s1)
           | Panic p \<Rightarrow> ((Panic p, True), wr1, d1, st1, s1)
           | Ret _ \<Rightarrow>
               (case serverReader_message mch clientAddr wr1 s1 of
                  (a, wr2, s2) \<Rightarrow> ((Ret a, False), wr2, d1, st1, s2))))"

text \<open>The channel of workers: a non-blocking send, and the receive at the end of a worker.\<close>

definition workers_enter :: "'h serverState \<Rightarrow> bool \<times> 'h serverState" where
  "workers_enter s =
     (if s_workers s < s_Concurrency s then (True, s\<lparr>s_workers := Suc (s_workers s)\<rparr>) else (False, s))"

definition workers_leave :: "'h serverState \<Rightarrow> 'h serverState" where
  "workers_leave s = s\<lparr>s_workers := s_workers s - 1\<rparr>"

section \<open>A worker\<close>

text \<open>
  The start of \<open>serveRequest\<close>: the request is taken out of the message, and a message without
  an identifier goes back to the pool at once. The request is dereferenced when the handler is
  called, which panics if it is nil.
\<close>

definition serveRequest_begin :: "nat \<Rightarrow> 'h serverState \<Rightarrow>
    ('h srequest \<times> string \<times> bool) outcome \<times> 'h serverState" where
  "serveRequest_begin a s =
     (let m = s_heap s a;
          m1 = m\<lparr>sm_Request := None, sm_ClientAddr := []\<rparr>;
          skip = (sm_ID m = 0);
          s1 = (if skip
                then putMessage a (set_message a (m1\<lparr>sm_Response := None, sm_Error := []\<rparr>)
                       (s\<lparr>s_Stats := incRPCCalls (s_Stats s)\<rparr>))
                else set_message a m1 s)
      in case sm_Request m of
           None \<Rightarrow> (Panic ''nil pointer dereference'', s1)
         | Some r \<Rightarrow> (Ret (r, sm_ClientAddr m, skip), s1))"

text \<open>A panic of the handler becomes the error text; \<open>trace\<close> is the stack trace.\<close>

definition callHandlerWithRecover :: "byte list \<Rightarrow> 'h handler \<Rightarrow> string \<Rightarrow> 'h srequest \<Rightarrow>
    'h sresponse option \<times> errtext" where
  "callHandlerWithRecover trace handler clientAddr request =
     (case handler clientAddr request of
        Inl x \<Rightarrow> (None, bytes_of_string (''Panic occured: '' @ x) @ [10] @ bytes_of_string ''Stack trace: '' @ trace)
      | Inr (response, Some err) \<Rightarrow> (None, err)
      | Inr (response, None) \<Rightarrow> (response, []))"

definition serveRequest_result :: "nat \<Rightarrow> uint64 \<Rightarrow> bool \<Rightarrow> 'h sresponse option \<times> errtext \<Rightarrow>
    'h serverState \<Rightarrow> 'h serverState" where
  "serveRequest_result a dt skip r s =
     (let s1 = s\<lparr>s_Stats := incRPCTime dt (s_Stats s)\<rparr> in
      if skip then s1
      else set_message a ((s_heap s1 a)\<lparr>sm_Response := fst r, sm_Error := snd r\<rparr>) s1)"

section \<open>Connections and their writers\<close>

text \<open>
  \<open>sc_responses\<close> is \<open>responsesChan\<close> with its capacity, \<open>sc_stopped\<close> says that \<open>stopChan\<close> is
  closed, \<open>sc_wr\<close> is the struct the writer reuses.
\<close>

record 'h serverConn =
  sc_responses :: "nat list"
  sc_cap :: nat
  sc_stopped :: bool
  sc_wr :: "'h wireResponse"

definition zeroWire :: "'h wireResponse" where
  "zeroWire = \<lparr>rs_ID = 0, rs_Headers = None, rs_Body = emptyBody, rs_Error = []\<rparr>"

definition newServerConn :: "nat \<Rightarrow> 'h serverConn" where
  "newServerConn PendingResponses = \<lparr>sc_responses = [], sc_cap = PendingResponses, sc_stopped = False, sc_wr = zeroWire\<rparr>"

definition serveRequest_send :: "nat \<Rightarrow> 'h serverConn \<Rightarrow> bool \<times> 'h serverConn" where
  "serveRequest_send a sc =
     (if length (sc_responses sc) < sc_cap sc
      then (True, sc\<lparr>sc_responses := sc_responses sc @ [a]\<rparr>) else (False, sc))"

text \<open>
  \<open>serveRequest\<close> as one function: \<open>None\<close> while it blocks on a full queue of a connection that
  is not stopped.
\<close>

definition serveRequest :: "byte list \<Rightarrow> 'h handler \<Rightarrow> uint64 \<Rightarrow> nat \<Rightarrow> 'h serverState \<Rightarrow> 'h serverConn \<Rightarrow>
    (unit outcome \<times> 'h serverState \<times> 'h serverConn) option" where
  "serveRequest trace handler dt a s sc =
     (case serveRequest_begin a s of
        (Ret (r, clientAddr, skip), s1) \<Rightarrow>
          (let s2 = serveRequest_result a dt skip (callHandlerWithRecover trace handler clientAddr r) s1 in
           if skip then Some (Ret (), workers_leave s2, sc)
           else (case serveRequest_send a sc of
                   (True, sc') \<Rightarrow> Some (Ret (), workers_leave s2, sc')
                 | (False, sc') \<Rightarrow> if sc_stopped sc then Some (Ret (), workers_leave s2, sc') else None))
      | (Fail e, s1) \<Rightarrow> Some (Fail e, s1, sc)
      | (Panic p, s1) \<Rightarrow> Some (Panic p, s1, sc))"

text \<open>A round of \<open>serverWriter\<close> up to the encoder, and the encoder.\<close>

definition serverWriter_take :: "'h serverState \<Rightarrow> 'h serverConn \<Rightarrow>
    'h wireResponse option \<times> 'h serverState \<times> 'h serverConn" where
  "serverWriter_take s sc =
     (case sc_responses sc of
        [] \<Rightarrow> (None, s, sc)
      | a # q \<Rightarrow>
          (let m = s_heap s a;
               wr = (sc_wr sc)\<lparr>rs_ID := sm_ID m, rs_Error := sm_Error m\<rparr>;
               wr' = (case sm_Response m of
                        None \<Rightarrow> wr
                      | Some r \<Rightarrow> wr\<lparr>rs_Body := resp_Body r, rs_Headers := resp_Headers r\<rparr>)
           in (Some wr', putMessage a (set_message a (m\<lparr>sm_Response := None, sm_Error := []\<rparr>) s),
               sc\<lparr>sc_responses := q, sc_wr := wr'\<rparr>)))"

definition clear_wire :: "'h wireResponse \<Rightarrow> 'h wireResponse" where
  "clear_wire wr = wr\<lparr>rs_Body := body_Reset (rs_Body wr), rs_Headers := None\<rparr>"

definition serverWriter_send :: "('h, 'ty) headers_impl \<Rightarrow> ('h, 'ty) registry \<Rightarrow> growth \<Rightarrow>
    'h wireResponse \<Rightarrow> messageEncoder \<Rightarrow> 'h serverState \<Rightarrow> 'h serverConn \<Rightarrow> spliceWorld \<Rightarrow>
    unit outcome \<times> messageEncoder \<times> 'h serverState \<times> 'h serverConn \<times> spliceWorld" where
  "serverWriter_send H reg grw wr e s sc wd =
     (case EncodeResponse H reg grw wr (e\<lparr>me_stat := s_Stats s\<rparr>) wd of
        (Ret _, _, e', wd') \<Rightarrow>
          (Ret (), e', s\<lparr>s_Stats := incRPCCalls (me_stat e')\<rparr>, sc\<lparr>sc_wr := clear_wire (sc_wr sc)\<rparr>, wd')
      | (x, _, e', wd') \<Rightarrow> (x, e', s\<lparr>s_Stats := me_stat e'\<rparr>, sc, wd'))"

definition serverWriter_flush :: "messageEncoder \<Rightarrow> 'h serverState \<Rightarrow> unit outcome \<times> messageEncoder \<times> 'h serverState" where
  "serverWriter_flush e s =
     (case Flush (e\<lparr>me_stat := s_Stats s\<rparr>) of (x, e') \<Rightarrow> (x, e', s\<lparr>s_Stats := me_stat e'\<rparr>))"

section \<open>The handshake\<close>

text \<open>
  The start of \<open>serverHandleConnection\<close>: the \<open>OnConnect\<close> hook, then one byte within ten
  seconds unless the server stops first (\<open>ev\<close>). The value of the byte is
  \<open>enabledCompression\<close>, which nothing uses.
\<close>

datatype handshake_event = GotByte | ServerStop | HandshakeTimeout

definition serverHandshake :: "(reader \<Rightarrow> reader outcome) option \<Rightarrow> handshake_event \<Rightarrow> reader \<Rightarrow> (bool \<times> reader) outcome" where
  "serverHandshake onConnect ev r =
     (case (case onConnect of None \<Rightarrow> Ret r | Some f \<Rightarrow> f r) of
        Fail e \<Rightarrow> Fail e
      | Panic p \<Rightarrow> Panic p
      | Ret r1 \<Rightarrow>
          (case ev of
             GotByte \<Rightarrow>
               (case Read 1 r1 of
                  (bs, None, r2) \<Rightarrow> Ret (bs \<noteq> [] \<and> hd bs \<noteq> 0, r2)
                | (bs, Some e, r2) \<Rightarrow> Fail e)
           | ServerStop \<Rightarrow> Fail (Errorf ''server stopped'')
           | HandshakeTimeout \<Rightarrow> Fail (Errorf ''Cannot obtain handshake from client during 10s'')))"

end
