(* ===== verification/Server_Safety.thy ===== *)
theory Server_Safety
  imports Server_Requests
begin

text \<open>
  All connections of a server together. \<open>server_reach\<close> lets readers, workers and writers of
  any number of connections interleave, one operation of \<open>Server_Requests\<close> at a time. The
  handler is any of a set of functions at each call, which covers handlers with a state of
  their own. The theorems: the number of workers is bounded, no message is used by two parties
  at once, no worker dereferences a nil request, and every response that is written answers
  exactly one request of its connection.
\<close>

section \<open>The system\<close>

text \<open>
  A task is a decoded request on its way: waiting for a worker, its worker started, the handler
  running (with the request, the client's address and whether there is no response), the reply
  ready for the queue, or the worker about to leave.
\<close>

datatype 'h stage = Waiting | Started | Handling "'h srequest" string bool | Replying | Leaving

type_synonym 'h task = "nat \<times> nat \<times> 'h stage"
type_synonym 'h origin = "nat \<times> uint64 \<times> 'h srequest"

text \<open>
  \<open>ss_in\<close>, \<open>ss_out\<close> and \<open>ss_lost\<close> record what has been read, written and abandoned;
  \<open>ss_origin\<close> remembers for which request a message is used. The program does not read them.
\<close>

record 'h ssys =
  ss_s :: "'h serverState"
  ss_conns :: "'h serverConn list"
  ss_tasks :: "'h task multiset"
  ss_origin :: "nat \<Rightarrow> 'h origin"
  ss_in :: "'h origin multiset"
  ss_out :: "('h origin \<times> 'h wireResponse) multiset"
  ss_lost :: "'h origin multiset"

definition newServerState :: "nat \<Rightarrow> 'h serverState" where
  "newServerState n = \<lparr>s_heap = (\<lambda>_. zeroMessage), s_next = 0, s_pool = [], s_workers = 0,
     s_Concurrency = n, s_Stats = zeroStats\<rparr>"

definition new_ssys :: "nat \<Rightarrow> 'h ssys" where
  "new_ssys n = \<lparr>ss_s = newServerState n, ss_conns = [], ss_tasks = {#}, ss_origin = (\<lambda>_. (0, 0, request_of zeroRequest)),
     ss_in = {#}, ss_out = {#}, ss_lost = {#}\<rparr>"

inductive server_step :: "'h handler set \<Rightarrow> (nat \<Rightarrow> string) \<Rightarrow> 'h ssys \<Rightarrow> 'h ssys \<Rightarrow> bool" for hs addr where
  accept: "server_step hs addr s (s\<lparr>ss_conns := ss_conns s @ [newServerConn cap]\<rparr>)"
| decode: "i < length (ss_conns s) \<Longrightarrow>
    serverReader_message ch (addr i) wr (ss_s s) = (a, wr', s') \<Longrightarrow>
    server_step hs addr s (s\<lparr>ss_s := s', ss_tasks := add_mset (i, a, Waiting) (ss_tasks s),
      ss_origin := (ss_origin s)(a := (i, iq_ID wr, request_of wr)),
      ss_in := add_mset (i, iq_ID wr, request_of wr) (ss_in s)\<rparr>)"
| admit: "ss_tasks s = add_mset (i, a, Waiting) T \<Longrightarrow>
    workers_enter (ss_s s) = (True, s') \<Longrightarrow>
    server_step hs addr s (s\<lparr>ss_s := s', ss_tasks := add_mset (i, a, Started) T\<rparr>)"
| abandon: "ss_tasks s = add_mset (i, a, Waiting) T \<Longrightarrow>
    sc_stopped (ss_conns s ! i) \<Longrightarrow>
    server_step hs addr s (s\<lparr>ss_tasks := T, ss_lost := add_mset (ss_origin s a) (ss_lost s)\<rparr>)"
| work: "ss_tasks s = add_mset (i, a, Started) T \<Longrightarrow>
    serveRequest_begin a (ss_s s) = (Ret (r, ca, skip), s') \<Longrightarrow>
    server_step hs addr s (s\<lparr>ss_s := s', ss_tasks := add_mset (i, a, Handling r ca skip) T\<rparr>)"
| handle: "ss_tasks s = add_mset (i, a, Handling r ca skip) T \<Longrightarrow> h \<in> hs \<Longrightarrow>
    server_step hs addr s (s\<lparr>ss_s := serveRequest_result a dt skip (callHandlerWithRecover trace h ca r) (ss_s s),
      ss_tasks := add_mset (i, a, if skip then Leaving else Replying) T\<rparr>)"
| reply: "ss_tasks s = add_mset (i, a, Replying) T \<Longrightarrow>
    serveRequest_send a (ss_conns s ! i) = (True, sc') \<Longrightarrow>
    server_step hs addr s (s\<lparr>ss_conns := (ss_conns s)[i := sc'], ss_tasks := add_mset (i, a, Leaving) T\<rparr>)"
| give_up: "ss_tasks s = add_mset (i, a, Replying) T \<Longrightarrow>
    sc_stopped (ss_conns s ! i) \<Longrightarrow>
    server_step hs addr s (s\<lparr>ss_tasks := add_mset (i, a, Leaving) T,
      ss_lost := add_mset (ss_origin s a) (ss_lost s)\<rparr>)"
| leave: "ss_tasks s = add_mset (i, a, Leaving) T \<Longrightarrow>
    server_step hs addr s (s\<lparr>ss_s := workers_leave (ss_s s), ss_tasks := T\<rparr>)"
| encode: "i < length (ss_conns s) \<Longrightarrow>
    sc_responses (ss_conns s ! i) = a # q \<Longrightarrow>
    serverWriter_take (ss_s s) (ss_conns s ! i) = (Some wr, s', sc') \<Longrightarrow>
    server_step hs addr s (s\<lparr>ss_s := s', ss_conns := (ss_conns s)[i := sc'\<lparr>sc_wr := clear_wire wr\<rparr>],
      ss_out := add_mset (ss_origin s a, wr) (ss_out s)\<rparr>)"
| stop: "i < length (ss_conns s) \<Longrightarrow>
    server_step hs addr s (s\<lparr>ss_conns := (ss_conns s)[i := (ss_conns s ! i)\<lparr>sc_stopped := True\<rparr>]\<rparr>)"
| stats: "server_step hs addr s (s\<lparr>ss_s := (ss_s s)\<lparr>s_Stats := st\<rparr>\<rparr>)"

inductive server_reach :: "'h handler set \<Rightarrow> (nat \<Rightarrow> string) \<Rightarrow> 'h ssys \<Rightarrow> bool" for hs addr where
  start: "server_reach hs addr (new_ssys n)"
| step: "server_reach hs addr s \<Longrightarrow> server_step hs addr s s' \<Longrightarrow> server_reach hs addr s'"

lemmas server_reach_accept = server_reach.step [OF _ server_step.accept]
lemmas server_reach_decode = server_reach.step [OF _ server_step.decode]
lemmas server_reach_admit = server_reach.step [OF _ server_step.admit]
lemmas server_reach_abandon = server_reach.step [OF _ server_step.abandon]
lemmas server_reach_work = server_reach.step [OF _ server_step.work]
lemmas server_reach_handle = server_reach.step [OF _ server_step.handle]
lemmas server_reach_reply = server_reach.step [OF _ server_step.reply]
lemmas server_reach_give_up = server_reach.step [OF _ server_step.give_up]
lemmas server_reach_leave = server_reach.step [OF _ server_step.leave]
lemmas server_reach_encode = server_reach.step [OF _ server_step.encode]
lemmas server_reach_stop = server_reach.step [OF _ server_step.stop]
lemmas server_reach_stats = server_reach.step [OF _ server_step.stats]

section \<open>The invariant\<close>

text \<open>Which tasks own their message: a request without a response has given it back.\<close>

fun owning :: "'h task \<Rightarrow> bool" where
  "owning (i, a, Handling r ca skip) = (\<not> skip)"
| "owning (i, a, Leaving) = False"
| "owning (i, a, _) = True"

definition owned :: "'h task multiset \<Rightarrow> nat multiset" where
  "owned T = image_mset (fst \<circ> snd) (filter_mset owning T)"

lemma owned_simps [simp]:
  "owned {#} = {#}" "owned (add_mset t T) = (if owning t then add_mset (fst (snd t)) (owned T) else owned T)"
  by (simp_all add: owned_def)

definition queued :: "'h serverConn list \<Rightarrow> nat list" where
  "queued conns = concat (map sc_responses conns)"

text \<open>The wire response that answers a request.\<close>

definition response_of :: "uint64 \<Rightarrow> 'h sresponse option \<times> errtext \<Rightarrow> 'h wireResponse" where
  "response_of i r = \<lparr>rs_ID = i,
     rs_Headers = (case fst r of None \<Rightarrow> None | Some x \<Rightarrow> resp_Headers x),
     rs_Body = (case fst r of None \<Rightarrow> emptyBody | Some x \<Rightarrow> resp_Body x), rs_Error = snd r\<rparr>"

definition answers :: "'h handler set \<Rightarrow> (nat \<Rightarrow> string) \<Rightarrow> 'h origin \<Rightarrow> 'h sresponse option \<times> errtext \<Rightarrow> bool" where
  "answers hs addr o' x \<longleftrightarrow>
     (\<exists>h \<in> hs. \<exists>trace. x = callHandlerWithRecover trace h (addr (fst o')) (snd (snd o')))"

text \<open>What the message of a task holds at each stage.\<close>

fun task_ok :: "'h handler set \<Rightarrow> (nat \<Rightarrow> string) \<Rightarrow> nat \<Rightarrow> 'h origin \<Rightarrow> 'h serverMessage \<Rightarrow> nat \<Rightarrow> 'h stage \<Rightarrow> bool" where
  "task_ok hs addr n o' m i (Handling r ca skip) \<longleftrightarrow> i < n \<and>
     (\<not> skip \<longrightarrow> fst o' = i \<and> sm_ID m = fst (snd o') \<and> fst (snd o') \<noteq> 0 \<and> r = snd (snd o') \<and> ca = addr i)"
| "task_ok hs addr n o' m i Replying \<longleftrightarrow> i < n \<and> fst o' = i \<and> sm_ID m = fst (snd o') \<and> fst (snd o') \<noteq> 0 \<and>
     answers hs addr o' (sm_Response m, sm_Error m)"
| "task_ok hs addr n o' m i Leaving \<longleftrightarrow> True"
| "task_ok hs addr n o' m i _ \<longleftrightarrow> i < n \<and> fst o' = i \<and> sm_ID m = fst (snd o') \<and>
     sm_Request m = Some (snd (snd o')) \<and> sm_ClientAddr m = addr i"

definition own_inv :: "'h task multiset \<Rightarrow> nat list \<Rightarrow> nat list \<Rightarrow> nat \<Rightarrow> bool" where
  "own_inv T Q F nx \<longleftrightarrow>
     (\<forall>a. count (owned T + mset Q + mset F) a \<le> 1) \<and> (\<forall>a \<in># owned T + mset Q + mset F. a < nx)"

definition tasks_ok :: "'h handler set \<Rightarrow> (nat \<Rightarrow> string) \<Rightarrow> nat \<Rightarrow> (nat \<Rightarrow> 'h origin) \<Rightarrow>
    (nat \<Rightarrow> 'h serverMessage) \<Rightarrow> 'h task multiset \<Rightarrow> bool" where
  "tasks_ok hs addr n org heap T \<longleftrightarrow> (\<forall>(i, a, st) \<in># T. task_ok hs addr n (org a) (heap a) i st)"

definition conns_ok :: "'h handler set \<Rightarrow> (nat \<Rightarrow> string) \<Rightarrow> (nat \<Rightarrow> 'h origin) \<Rightarrow>
    (nat \<Rightarrow> 'h serverMessage) \<Rightarrow> 'h serverConn list \<Rightarrow> bool" where
  "conns_ok hs addr org heap conns \<longleftrightarrow>
     (\<forall>i < length conns. rs_Headers (sc_wr (conns ! i)) = None \<and> rs_Body (sc_wr (conns ! i)) = emptyBody \<and>
        (\<forall>a \<in> set (sc_responses (conns ! i)). task_ok hs addr (length conns) (org a) (heap a) i Replying))"

definition out_ok :: "'h handler set \<Rightarrow> (nat \<Rightarrow> string) \<Rightarrow> ('h origin \<times> 'h wireResponse) multiset \<Rightarrow> bool" where
  "out_ok hs addr out \<longleftrightarrow> (\<forall>(o', wr) \<in># out. fst (snd o') \<noteq> 0 \<and>
     (\<exists>x. answers hs addr o' x \<and> wr = response_of (fst (snd o')) x))"

definition nonzero :: "'h origin multiset \<Rightarrow> 'h origin multiset" where
  "nonzero M = filter_mset (\<lambda>o'. fst (snd o') \<noteq> 0) M"

definition busy :: "'h task multiset \<Rightarrow> nat" where
  "busy T = size (filter_mset (\<lambda>(i, a, st). st \<noteq> Waiting) T)"

text \<open>
  The invariant: messages have one owner, hold what their stage says, the workers are counted
  within their bound, and every request that wants a response is written, lost or on its way.
\<close>

definition server_inv :: "'h handler set \<Rightarrow> (nat \<Rightarrow> string) \<Rightarrow> 'h ssys \<Rightarrow> bool" where
  "server_inv hs addr s \<longleftrightarrow>
     own_inv (ss_tasks s) (queued (ss_conns s)) (s_pool (ss_s s)) (s_next (ss_s s)) \<and>
     tasks_ok hs addr (length (ss_conns s)) (ss_origin s) (s_heap (ss_s s)) (ss_tasks s) \<and>
     conns_ok hs addr (ss_origin s) (s_heap (ss_s s)) (ss_conns s) \<and>
     s_workers (ss_s s) = busy (ss_tasks s) \<and> s_workers (ss_s s) \<le> s_Concurrency (ss_s s) \<and>
     out_ok hs addr (ss_out s) \<and>
     nonzero (ss_in s) = image_mset fst (ss_out s) + nonzero (ss_lost s) +
       nonzero (image_mset (ss_origin s) (owned (ss_tasks s) + mset (queued (ss_conns s))))"

lemma busy_simps [simp]:
  "busy {#} = 0" "busy (add_mset (i, a, st) T) = (if st = Waiting then busy T else Suc (busy T))"
  by (simp_all add: busy_def)

lemma nonzero_simps [simp]:
  "nonzero {#} = {#}" "nonzero (M + N) = nonzero M + nonzero N"
  "nonzero (add_mset o' M) = (if fst (snd o') = 0 then nonzero M else add_mset o' (nonzero M))"
  by (simp_all add: nonzero_def)

lemma tasks_ok_simps [simp]:
  "tasks_ok hs addr n org heap {#}"
  "tasks_ok hs addr n org heap (add_mset (i, a, st) T) \<longleftrightarrow>
     task_ok hs addr n (org a) (heap a) i st \<and> tasks_ok hs addr n org heap T"
  by (simp_all add: tasks_ok_def)

lemma task_ok_mono: "task_ok hs addr n o' m i st \<Longrightarrow> n \<le> n' \<Longrightarrow> task_ok hs addr n' o' m i st"
  by (cases st) auto

lemma tasks_ok_mono: "tasks_ok hs addr n org heap T \<Longrightarrow> n \<le> n' \<Longrightarrow> tasks_ok hs addr n' org heap T"
  unfolding tasks_ok_def using task_ok_mono by fast

text \<open>Tasks that do not own message \<open>a\<close> are indifferent to what happens to it.\<close>

lemma not_owning_ok: "\<not> owning (i, a, st) \<Longrightarrow> task_ok hs addr n o' m i st \<longleftrightarrow> task_ok hs addr n o'' m'' i st"
  by (cases st) auto

lemma tasks_ok_frame:
  assumes "tasks_ok hs addr n org heap T" "a \<notin># owned T"
    and "\<And>b. b \<noteq> a \<Longrightarrow> org' b = org b \<and> heap' b = heap b"
  shows "tasks_ok hs addr n org' heap' T"
  unfolding tasks_ok_def
proof clarify
  fix i b st
  assume t: "(i, b, st) \<in># T"
  then have ok: "task_ok hs addr n (org b) (heap b) i st" using assms(1) by (auto simp: tasks_ok_def)
  show "task_ok hs addr n (org' b) (heap' b) i st"
  proof (cases "b = a")
    case True
    then have "\<not> owning (i, b, st)" using t assms(2) by (force simp: owned_def)
    then show ?thesis using ok not_owning_ok by blast
  next
    case False
    then show ?thesis using assms(3) ok by simp
  qed
qed

lemma conns_ok_frame:
  assumes "conns_ok hs addr org heap conns" "a \<notin> set (queued conns)"
    and "\<And>b. b \<noteq> a \<Longrightarrow> org' b = org b \<and> heap' b = heap b"
  shows "conns_ok hs addr org' heap' conns"
proof -
  have "b \<noteq> a" if "i < length conns" "b \<in> set (sc_responses (conns ! i))" for i b
    using assms(2) that by (auto simp: queued_def)
  then show ?thesis using assms(1,3) unfolding conns_ok_def by auto
qed

text \<open>Taking a message out of a place and putting it into another.\<close>

lemma own_inv_count: "own_inv T Q F nx \<Longrightarrow> count (owned T) a + count (mset Q) a + count (mset F) a \<le> 1"
  by (simp add: own_inv_def)

lemma own_inv_task:
  assumes "own_inv (add_mset (i, a, st) T) Q F nx" "owning (i, a, st)"
  shows "a \<notin># owned T" "a \<notin> set Q" "a \<notin> set F" "a < nx"
  using own_inv_count [OF assms(1), of a] assms by (auto simp: own_inv_def not_in_iff count_mset_0_iff)

lemma own_inv_same: "own_inv T Q F nx \<Longrightarrow> owned T + mset Q + mset F = owned T' + mset Q' + mset F' \<Longrightarrow> own_inv T' Q' F' nx"
  by (simp add: own_inv_def)

lemma own_inv_less:
  assumes "own_inv T Q F nx" "owned T' + mset Q' + mset F' \<subseteq># owned T + mset Q + mset F"
  shows "own_inv T' Q' F' nx"
  using assms unfolding own_inv_def by (meson mset_subset_eqD mset_subset_eq_count order_trans)

lemma origin_frame:
  "a \<notin># M \<Longrightarrow> image_mset (f(a := x)) M = image_mset f M"
  by (auto intro: image_mset_cong)

section \<open>Each step keeps the invariant\<close>

lemma s_fields [simp]:
  "s_heap (set_message a m s) = (s_heap s)(a := m)" "s_next (set_message a m s) = s_next s"
  "s_pool (set_message a m s) = s_pool s" "s_workers (set_message a m s) = s_workers s"
  "s_Concurrency (set_message a m s) = s_Concurrency s"
  "s_heap (putMessage a s) = s_heap s" "s_next (putMessage a s) = s_next s"
  "s_pool (putMessage a s) = a # s_pool s" "s_workers (putMessage a s) = s_workers s"
  "s_Concurrency (putMessage a s) = s_Concurrency s"
  by (simp_all add: set_message_def putMessage_def)

lemma getMessage_fresh:
  assumes "own_inv T Q (s_pool s) (s_next s)" "getMessage ch s = (a, s1)"
  shows "own_inv (add_mset (i, a, Waiting) T) Q (s_pool s1) (s_next s1)" "a \<notin># owned T" "a \<notin> set Q"
    "b \<noteq> a \<Longrightarrow> s_heap s1 b = s_heap s b" "s_workers s1 = s_workers s" "s_Concurrency s1 = s_Concurrency s"
proof -
  have "own_inv (add_mset (i, a, Waiting) T) Q (s_pool s1) (s_next s1) \<and> a \<notin># owned T \<and> a \<notin> set Q \<and>
      (\<forall>b. b \<noteq> a \<longrightarrow> s_heap s1 b = s_heap s b) \<and> s_workers s1 = s_workers s \<and> s_Concurrency s1 = s_Concurrency s"
  proof (cases "pool_pick ch (s_pool s)")
    case (Pair r ps)
    show ?thesis
    proof (cases r)
      case None
      then have a: "a = s_next s" "s1 = set_message a zeroMessage (s\<lparr>s_next := Suc a\<rparr>)"
        using assms(2) Pair by (auto simp: getMessage_def)
      have "a \<notin># owned T + mset Q + mset (s_pool s)" using assms(1) a by (auto simp: own_inv_def)
      then show ?thesis using assms(1) a by (auto simp: own_inv_def not_in_iff less_SucI)
    next
      case (Some b)
      then have a: "b = a" "s1 = s\<lparr>s_pool := ps\<rparr>" using assms(2) Pair by (auto simp: getMessage_def)
      have d: "distinct (s_pool s)"
        using own_inv_count [OF assms(1)] unfolding distinct_count_atmost_1
        by (metis (full_types) add_leE le_Suc_eq le_zero_eq count_mset_0_iff One_nat_def not_in_iff set_mset_mset)
      have "a \<in> set (s_pool s)" "set ps = set (s_pool s) - {a}" "distinct ps"
        using pool_pick_Some [OF Pair [unfolded Some a] d] by auto
      then have "mset (s_pool s) = add_mset a (mset ps)"
        using d by (metis insert_Diff set_eq_iff_mset_eq_distinct distinct.simps(2) mset.simps(2) list.simps(15) Diff_iff singletonI)
      then show ?thesis using assms(1) a own_inv_count [OF assms(1), of a]
        by (auto simp: own_inv_def not_in_iff count_mset_0_iff)
    qed
  qed
  then show "own_inv (add_mset (i, a, Waiting) T) Q (s_pool s1) (s_next s1)" "a \<notin># owned T" "a \<notin> set Q"
    "b \<noteq> a \<Longrightarrow> s_heap s1 b = s_heap s b" "s_workers s1 = s_workers s" "s_Concurrency s1 = s_Concurrency s"
    by blast+
qed

lemma inv_decode:
  assumes inv: "server_inv hs addr s" and i: "i < length (ss_conns s)"
    and r: "serverReader_message ch (addr i) wr (ss_s s) = (a, wr', s')"
  shows "server_inv hs addr (s\<lparr>ss_s := s', ss_tasks := add_mset (i, a, Waiting) (ss_tasks s),
      ss_origin := (ss_origin s)(a := (i, iq_ID wr, request_of wr)),
      ss_in := add_mset (i, iq_ID wr, request_of wr) (ss_in s)\<rparr>)"
proof -
  obtain s1 where g: "getMessage ch (ss_s s) = (a, s1)"
    and s': "s' = set_message a ((s_heap s1 a)\<lparr>sm_ID := iq_ID wr, sm_Request := Some (request_of wr), sm_ClientAddr := addr i\<rparr>) s1"
    using r by (auto simp: serverReader_message_def split: prod.splits)
  have own: "own_inv (ss_tasks s) (queued (ss_conns s)) (s_pool (ss_s s)) (s_next (ss_s s))"
    using inv by (simp add: server_inv_def)
  note f = getMessage_fresh [OF own g]
  define o' where "o' = (ss_origin s)(a := (i, iq_ID wr, request_of wr))"
  have same: "o' b = ss_origin s b \<and> s_heap s' b = s_heap (ss_s s) b" if "b \<noteq> a" for b
    using f(4) that by (simp add: s' o'_def)
  have t: "tasks_ok hs addr (length (ss_conns s)) (ss_origin s) (s_heap (ss_s s)) (ss_tasks s)"
    and c: "conns_ok hs addr (ss_origin s) (s_heap (ss_s s)) (ss_conns s)"
    using inv by (simp_all add: server_inv_def)
  note t' = tasks_ok_frame [OF t f(2) same] and c' = conns_ok_frame [OF c f(3) same]
  have im: "image_mset o' (owned (ss_tasks s)) = image_mset (ss_origin s) (owned (ss_tasks s))"
    "image_mset o' (mset (queued (ss_conns s))) = image_mset (ss_origin s) (mset (queued (ss_conns s)))"
    using f(2,3) by (simp_all add: origin_frame o'_def)
  have a: "o' a = (i, iq_ID wr, request_of wr)"
    "task_ok hs addr (length (ss_conns s)) (i, iq_ID wr, request_of wr) (s_heap s' a) i Waiting"
    using i by (simp_all add: s' o'_def)
  have "s_pool s' = s_pool s1" "s_next s' = s_next s1" "s_workers s' = s_workers s1" "s_Concurrency s' = s_Concurrency s1"
    by (simp_all add: s')
  then show ?thesis using inv f(1,5,6) t' c' a(2) unfolding o'_def [symmetric]
    by (simp add: server_inv_def im a(1))
qed

lemma inv_admit:
  assumes "server_inv hs addr s" "ss_tasks s = add_mset (i, a, Waiting) T" "workers_enter (ss_s s) = (True, s')"
  shows "server_inv hs addr (s\<lparr>ss_s := s', ss_tasks := add_mset (i, a, Started) T\<rparr>)"
proof -
  have "s' = (ss_s s)\<lparr>s_workers := Suc (s_workers (ss_s s))\<rparr>" "s_workers (ss_s s) < s_Concurrency (ss_s s)"
    using assms(3) by (auto simp: workers_enter_def split: if_splits)
  moreover have "own_inv (add_mset (i, a, Started) T) Q F nx" if "own_inv (add_mset (i, a, Waiting) T) Q F nx" for Q F nx
    using that by (rule own_inv_same) simp
  ultimately show ?thesis using assms(1,2) by (simp add: server_inv_def)
qed

lemma inv_abandon:
  assumes "server_inv hs addr s" "ss_tasks s = add_mset (i, a, Waiting) T"
  shows "server_inv hs addr (s\<lparr>ss_tasks := T, ss_lost := add_mset (ss_origin s a) (ss_lost s)\<rparr>)"
proof -
  have "own_inv T Q F nx" if "own_inv (add_mset (i, a, Waiting) T) Q F nx" for Q F nx
    using that by (rule own_inv_less) simp
  then show ?thesis using assms by (simp add: server_inv_def)
qed

text \<open>All other tasks and the queues are indifferent to the message of an owning task.\<close>

lemma inv_task_frame:
  assumes inv: "server_inv hs addr s" and T: "ss_tasks s = add_mset (i, a, st) T" "owning (i, a, st)"
    and same: "\<And>b. b \<noteq> a \<Longrightarrow> s_heap s' b = s_heap (ss_s s) b"
  shows "tasks_ok hs addr (length (ss_conns s)) (ss_origin s) (s_heap s') T"
    "conns_ok hs addr (ss_origin s) (s_heap s') (ss_conns s)"
proof -
  have own: "own_inv (add_mset (i, a, st) T) (queued (ss_conns s)) (s_pool (ss_s s)) (s_next (ss_s s))"
    and t: "tasks_ok hs addr (length (ss_conns s)) (ss_origin s) (s_heap (ss_s s)) T"
    and c: "conns_ok hs addr (ss_origin s) (s_heap (ss_s s)) (ss_conns s)"
    using inv T by (simp_all add: server_inv_def)
  note f = own_inv_task [OF own T(2)]
  show "tasks_ok hs addr (length (ss_conns s)) (ss_origin s) (s_heap s') T"
    by (rule tasks_ok_frame [OF t f(1)]) (simp add: same)
  show "conns_ok hs addr (ss_origin s) (s_heap s') (ss_conns s)"
    by (rule conns_ok_frame [OF c f(2)]) (simp add: same)
qed

text \<open>The message of an owning task may be changed at will.\<close>

lemma inv_task_message:
  assumes inv: "server_inv hs addr s" and T: "ss_tasks s = add_mset (i, a, st) T" "owning (i, a, st)"
    and s': "s_pool s' = s_pool (ss_s s)" "s_next s' = s_next (ss_s s)" "s_workers s' = s_workers (ss_s s)"
      "s_Concurrency s' = s_Concurrency (ss_s s)" "\<And>b. b \<noteq> a \<Longrightarrow> s_heap s' b = s_heap (ss_s s) b"
    and st': "owning (i, a, st')" "st' \<noteq> Waiting" "st \<noteq> Waiting"
      "task_ok hs addr (length (ss_conns s)) (ss_origin s a) (s_heap s' a) i st'"
  shows "server_inv hs addr (s\<lparr>ss_s := s', ss_tasks := add_mset (i, a, st') T\<rparr>)"
proof -
  have own: "own_inv (add_mset (i, a, st) T) (queued (ss_conns s)) (s_pool (ss_s s)) (s_next (ss_s s))"
    using inv T by (simp add: server_inv_def)
  have "own_inv (add_mset (i, a, st') T) (queued (ss_conns s)) (s_pool (ss_s s)) (s_next (ss_s s))"
    using own by (rule own_inv_same) (simp add: st' T)
  then show ?thesis using inv T inv_task_frame [where s' = s', OF inv T s'(5)] s'(1-4) st' by (simp add: server_inv_def)
qed

text \<open>The message of an owning task goes to the pool.\<close>

lemma inv_task_pool:
  assumes inv: "server_inv hs addr s" and T: "ss_tasks s = add_mset (i, a, st) T" "owning (i, a, st)"
    and s': "s_pool s' = a # s_pool (ss_s s)" "s_next s' = s_next (ss_s s)" "s_workers s' = s_workers (ss_s s)"
      "s_Concurrency s' = s_Concurrency (ss_s s)" "\<And>b. b \<noteq> a \<Longrightarrow> s_heap s' b = s_heap (ss_s s) b"
    and st': "\<not> owning (i, a, st')" "st' \<noteq> Waiting" "st \<noteq> Waiting"
      "task_ok hs addr (length (ss_conns s)) (ss_origin s a) (s_heap s' a) i st'"
    and z: "fst (snd (ss_origin s a)) = 0"
  shows "server_inv hs addr (s\<lparr>ss_s := s', ss_tasks := add_mset (i, a, st') T\<rparr>)"
proof -
  have own: "own_inv (add_mset (i, a, st) T) (queued (ss_conns s)) (s_pool (ss_s s)) (s_next (ss_s s))"
    using inv T by (simp add: server_inv_def)
  have "own_inv (add_mset (i, a, st') T) (queued (ss_conns s)) (a # s_pool (ss_s s)) (s_next (ss_s s))"
    using own by (rule own_inv_same) (simp add: st' T)
  then show ?thesis using inv T inv_task_frame [where s' = s', OF inv T s'(5)] s'(1-4) st' z by (simp add: server_inv_def)
qed

lemma inv_work:
  assumes inv: "server_inv hs addr s" and T: "ss_tasks s = add_mset (i, a, Started) T"
    and b: "serveRequest_begin a (ss_s s) = (Ret (r, ca, skip), s')"
  shows "server_inv hs addr (s\<lparr>ss_s := s', ss_tasks := add_mset (i, a, Handling r ca skip) T\<rparr>)"
proof -
  have ok: "task_ok hs addr (length (ss_conns s)) (ss_origin s a) (s_heap (ss_s s) a) i Started"
    using inv T by (simp add: server_inv_def)
  have r: "skip = (fst (snd (ss_origin s a)) = 0)" "r = snd (snd (ss_origin s a))" "ca = addr i"
    using ok b by (auto simp: serveRequest_begin_def Let_def split: option.splits)
  show ?thesis
  proof (cases skip)
    case True
    then show ?thesis using b ok r(1)
      by (intro inv_task_pool [OF inv T]) (auto simp: serveRequest_begin_def Let_def split: option.splits if_splits)
  next
    case False
    then show ?thesis using b ok r
      by (intro inv_task_message [OF inv T]) (auto simp: serveRequest_begin_def Let_def split: option.splits if_splits)
  qed
qed

lemma inv_handle:
  assumes inv: "server_inv hs addr s" and T: "ss_tasks s = add_mset (i, a, Handling r ca skip) T" and h: "h \<in> hs"
  shows "server_inv hs addr (s\<lparr>ss_s := serveRequest_result a dt skip (callHandlerWithRecover trace h ca r) (ss_s s),
      ss_tasks := add_mset (i, a, if skip then Leaving else Replying) T\<rparr>)"
proof (cases skip)
  case True
  have "own_inv (add_mset (i, a, Leaving) T) Q F nx" if "own_inv (add_mset (i, a, Handling r ca True) T) Q F nx" for Q F nx
    using that by (rule own_inv_same) simp
  then show ?thesis using inv T True by (simp add: server_inv_def serveRequest_result_def)
next
  case False
  let ?r = "callHandlerWithRecover trace h ca r"
  have ok: "task_ok hs addr (length (ss_conns s)) (ss_origin s a) (s_heap (ss_s s) a) i (Handling r ca False)"
    using inv T False by (simp add: server_inv_def)
  then have "answers hs addr (ss_origin s a) ?r" using h by (auto simp: answers_def)
  then show ?thesis using ok False inv_task_message [OF inv T, where st' = Replying]
    by (simp add: serveRequest_result_def)
qed

text \<open>Changes of one connection.\<close>

lemma conns_ok_update:
  assumes "conns_ok hs addr org heap conns" "i < length conns"
    and "rs_Headers (sc_wr sc) = None" "rs_Body (sc_wr sc) = emptyBody"
    and "\<And>a. a \<in> set (sc_responses sc) \<Longrightarrow> task_ok hs addr (length conns) (org a) (heap a) i Replying"
  shows "conns_ok hs addr org heap (conns[i := sc])"
  using assms by (auto simp: conns_ok_def nth_list_update)

lemma queued_split:
  "i < length conns \<Longrightarrow> \<exists>R. mset (queued conns) = mset (sc_responses (conns ! i) @ R) \<and>
    (\<forall>sc. mset (queued (conns[i := sc])) = mset (sc_responses sc @ R))"
  unfolding queued_def by (rule mset_concat_split)

lemma inv_reply:
  assumes inv: "server_inv hs addr s" and T: "ss_tasks s = add_mset (i, a, Replying) T"
    and r: "serveRequest_send a (ss_conns s ! i) = (True, sc')"
  shows "server_inv hs addr (s\<lparr>ss_conns := (ss_conns s)[i := sc'], ss_tasks := add_mset (i, a, Leaving) T\<rparr>)"
proof -
  have sc: "sc' = (ss_conns s ! i)\<lparr>sc_responses := sc_responses (ss_conns s ! i) @ [a]\<rparr>"
    using r by (auto simp: serveRequest_send_def split: if_splits)
  have ok: "task_ok hs addr (length (ss_conns s)) (ss_origin s a) (s_heap (ss_s s) a) i Replying"
    using inv T by (simp add: server_inv_def)
  then have i: "i < length (ss_conns s)" by simp
  obtain R where R: "mset (queued (ss_conns s)) = mset (sc_responses (ss_conns s ! i) @ R)"
    "mset (queued ((ss_conns s)[i := sc'])) = mset (sc_responses sc' @ R)"
    using queued_split [OF i] by blast
  have c: "conns_ok hs addr (ss_origin s) (s_heap (ss_s s)) (ss_conns s)" using inv by (simp add: server_inv_def)
  then have "conns_ok hs addr (ss_origin s) (s_heap (ss_s s)) ((ss_conns s)[i := sc'])"
    using i ok by (intro conns_ok_update) (auto simp: sc conns_ok_def)
  moreover have "own_inv (add_mset (i, a, Leaving) T) (queued ((ss_conns s)[i := sc'])) (s_pool (ss_s s)) (s_next (ss_s s))"
  proof (rule own_inv_same)
    show "own_inv (add_mset (i, a, Replying) T) (queued (ss_conns s)) (s_pool (ss_s s)) (s_next (ss_s s))"
      using inv T by (simp add: server_inv_def)
  qed (simp add: R, simp add: sc)
  moreover have "mset (queued ((ss_conns s)[i := sc'])) = add_mset a (mset (queued (ss_conns s)))"
    unfolding R by (simp add: sc)
  ultimately show ?thesis using inv T by (simp add: server_inv_def)
qed

lemma inv_give_up:
  assumes "server_inv hs addr s" "ss_tasks s = add_mset (i, a, Replying) T"
  shows "server_inv hs addr (s\<lparr>ss_tasks := add_mset (i, a, Leaving) T, ss_lost := add_mset (ss_origin s a) (ss_lost s)\<rparr>)"
proof -
  have "own_inv (add_mset (i, a, Leaving) T) Q F nx" if "own_inv (add_mset (i, a, Replying) T) Q F nx" for Q F nx
    using that by (rule own_inv_less) simp
  then show ?thesis using assms by (simp add: server_inv_def)
qed

lemma inv_leave:
  assumes "server_inv hs addr s" "ss_tasks s = add_mset (i, a, Leaving) T"
  shows "server_inv hs addr (s\<lparr>ss_s := workers_leave (ss_s s), ss_tasks := T\<rparr>)"
proof -
  have "own_inv T Q F nx" if "own_inv (add_mset (i, a, Leaving) T) Q F nx" for Q F nx
    using that by (rule own_inv_same) simp
  then show ?thesis using assms by (simp add: server_inv_def workers_leave_def)
qed

lemma inv_encode:
  assumes inv: "server_inv hs addr s" and i: "i < length (ss_conns s)"
    and q: "sc_responses (ss_conns s ! i) = a # q"
    and w: "serverWriter_take (ss_s s) (ss_conns s ! i) = (Some wr, s', sc')"
  shows "server_inv hs addr (s\<lparr>ss_s := s', ss_conns := (ss_conns s)[i := sc'\<lparr>sc_wr := clear_wire wr\<rparr>],
      ss_out := add_mset (ss_origin s a, wr) (ss_out s)\<rparr>)"
proof -
  let ?conns = "(ss_conns s)[i := sc'\<lparr>sc_wr := clear_wire wr\<rparr>]" and ?m = "s_heap (ss_s s) a"
  have s': "s' = putMessage a (set_message a (?m\<lparr>sm_Response := None, sm_Error := []\<rparr>) (ss_s s))"
    and sc': "sc_responses sc' = q" using w q by (auto simp: serverWriter_take_def Let_def)
  obtain R where R: "mset (queued (ss_conns s)) = mset (a # q @ R)" "mset (queued ?conns) = mset (q @ R)"
    using queued_split [OF i] q sc' by fastforce
  have own: "own_inv (ss_tasks s) (queued (ss_conns s)) (s_pool (ss_s s)) (s_next (ss_s s))"
    using inv by (simp add: server_inv_def)
  have a: "a \<notin># owned (ss_tasks s)" "a \<notin> set (queued ?conns)"
    using own_inv_count [OF own, of a] unfolding set_mset_mset [symmetric] R not_in_iff by auto
  have same: "ss_origin s b = ss_origin s b \<and> s_heap s' b = s_heap (ss_s s) b" if "b \<noteq> a" for b
    using that by (simp add: s')
  have c: "conns_ok hs addr (ss_origin s) (s_heap (ss_s s)) (ss_conns s)"
    and t: "tasks_ok hs addr (length (ss_conns s)) (ss_origin s) (s_heap (ss_s s)) (ss_tasks s)"
    using inv by (simp_all add: server_inv_def)
  have wr: "rs_Headers (sc_wr (ss_conns s ! i)) = None" "rs_Body (sc_wr (ss_conns s ! i)) = emptyBody"
    and ok: "\<And>b. b \<in> set (a # q) \<Longrightarrow> task_ok hs addr (length (ss_conns s)) (ss_origin s b) (s_heap (ss_s s) b) i Replying"
    using c i q by (auto simp: conns_ok_def)
  have "conns_ok hs addr (ss_origin s) (s_heap (ss_s s)) ?conns"
    using ok i by (intro conns_ok_update [OF c]) (auto simp: clear_wire_def sc' emptyBody_def body_Reset_def)
  note c' = conns_ok_frame [OF this a(2) same] and t' = tasks_ok_frame [OF t a(1) same]
  have resp: "wr = response_of (fst (snd (ss_origin s a))) (sm_Response ?m, sm_Error ?m)"
    using w q wr ok [of a] by (auto simp: serverWriter_take_def Let_def response_of_def split: option.splits)
  have "out_ok hs addr (add_mset (ss_origin s a, wr) (ss_out s))"
    using inv ok [of a] resp by (auto simp: out_ok_def server_inv_def)
  moreover have "own_inv (ss_tasks s) (queued ?conns) (a # s_pool (ss_s s)) (s_next (ss_s s))"
    using own by (rule own_inv_same) (simp add: R)
  moreover have "s_pool s' = a # s_pool (ss_s s)" "s_next s' = s_next (ss_s s)"
    "s_workers s' = s_workers (ss_s s)" "s_Concurrency s' = s_Concurrency (ss_s s)" by (simp_all add: s')
  moreover have "mset (queued (ss_conns s)) = add_mset a (mset (queued ?conns))" unfolding R by simp
  ultimately show ?thesis using inv c' t' ok [of a] by (simp add: server_inv_def)
qed

lemma inv_stop:
  assumes "server_inv hs addr s" "i < length (ss_conns s)"
  shows "server_inv hs addr (s\<lparr>ss_conns := (ss_conns s)[i := (ss_conns s ! i)\<lparr>sc_stopped := True\<rparr>]\<rparr>)"
proof -
  let ?conns = "(ss_conns s)[i := (ss_conns s ! i)\<lparr>sc_stopped := True\<rparr>]"
  have "queued ?conns = queued (ss_conns s)"
    using assms(2) list_update_id [of "map sc_responses (ss_conns s)" i] by (simp add: queued_def map_update)
  moreover have "conns_ok hs addr (ss_origin s) (s_heap (ss_s s)) ?conns"
    using assms by (intro conns_ok_update) (auto simp: server_inv_def conns_ok_def)
  ultimately show ?thesis using assms by (simp add: server_inv_def)
qed

lemma inv_accept:
  assumes "server_inv hs addr s"
  shows "server_inv hs addr (s\<lparr>ss_conns := ss_conns s @ [newServerConn cap]\<rparr>)"
proof -
  have "queued (ss_conns s @ [newServerConn cap]) = queued (ss_conns s)" by (simp add: queued_def newServerConn_def)
  moreover have "conns_ok hs addr org heap (conns @ [newServerConn cap])" if "conns_ok hs addr org heap conns" for org heap conns
    unfolding conns_ok_def
  proof (intro allI impI)
    fix j assume "j < length (conns @ [newServerConn cap])"
    then show "rs_Headers (sc_wr ((conns @ [newServerConn cap]) ! j)) = None \<and>
        rs_Body (sc_wr ((conns @ [newServerConn cap]) ! j)) = emptyBody \<and>
        (\<forall>a \<in> set (sc_responses ((conns @ [newServerConn cap]) ! j)).
           task_ok hs addr (length (conns @ [newServerConn cap])) (org a) (heap a) j Replying)"
      using that by (cases "j < length conns") (auto simp: conns_ok_def nth_append newServerConn_def zeroWire_def)
  qed
  ultimately show ?thesis using assms tasks_ok_mono [of hs addr "length (ss_conns s)"] by (auto simp: server_inv_def)
qed

lemma server_step_inv: "server_step hs addr s s' \<Longrightarrow> server_inv hs addr s \<Longrightarrow> server_inv hs addr s'"
proof (induction rule: server_step.induct)
  case (stats s st)
  then show ?case by (simp add: server_inv_def)
qed (simp_all add: inv_accept inv_decode inv_admit inv_abandon inv_work inv_handle inv_reply inv_give_up inv_leave
      inv_encode inv_stop)

lemma server_reach_inv: "server_reach hs addr s \<Longrightarrow> server_inv hs addr s"
proof (induction rule: server_reach.induct)
  case (start n)
  then show ?case by (simp add: server_inv_def new_ssys_def newServerState_def own_inv_def queued_def conns_ok_def out_ok_def)
next
  case (step s s')
  then show ?case by (simp add: server_step_inv)
qed

section \<open>What the server guarantees\<close>

text \<open>
  C5. The server answers each request at most once and with the right answer. In every
  reachable state the requests read so far that carry an identifier are, as a multiset, those
  whose response has been written, those given up because their connection was stopped, and
  those on their way; and each written response carries the identifier of its request and what
  the handler returned for that request and the address of its connection.
\<close>

theorem server_answers_once:
  assumes "server_reach hs addr s"
  shows "nonzero (ss_in s) = image_mset fst (ss_out s) + nonzero (ss_lost s) +
      nonzero (image_mset (ss_origin s) (owned (ss_tasks s) + mset (queued (ss_conns s)))) \<and>
    (\<forall>(o', wr) \<in># ss_out s. \<exists>h \<in> hs. \<exists>trace.
       wr = response_of (fst (snd o')) (callHandlerWithRecover trace h (addr (fst o')) (snd (snd o'))))"
  using server_reach_inv [OF assms] by (fastforce simp: server_inv_def out_ok_def answers_def)

text \<open>
  C6. At most \<open>Concurrency\<close> workers run at any time over all connections, each accounted for in
  the channel of workers; no message is used by two parties at once or is both in use and in
  the pool; and no worker finds a nil request.
\<close>

theorem server_workers_safe:
  assumes "server_reach hs addr s"
  shows "busy (ss_tasks s) = s_workers (ss_s s) \<and> s_workers (ss_s s) \<le> s_Concurrency (ss_s s) \<and>
    (\<forall>a. count (owned (ss_tasks s) + mset (queued (ss_conns s)) + mset (s_pool (ss_s s))) a \<le> 1) \<and>
    (\<forall>i a. (i, a, Started) \<in># ss_tasks s \<longrightarrow> (\<exists>r. fst (serveRequest_begin a (ss_s s)) = Ret r))"
proof -
  have inv: "server_inv hs addr s" by (rule server_reach_inv [OF assms])
  have "\<exists>r. fst (serveRequest_begin a (ss_s s)) = Ret r" if "(i, a, Started) \<in># ss_tasks s" for i a
  proof -
    have "task_ok hs addr (length (ss_conns s)) (ss_origin s a) (s_heap (ss_s s) a) i Started"
      using inv that by (auto simp: server_inv_def tasks_ok_def)
    then show ?thesis by (simp add: serveRequest_begin_def Let_def)
  qed
  with inv show ?thesis by (auto simp: server_inv_def own_inv_def)
qed

text \<open>A run: one request is read, handled and answered.\<close>

definition echo :: "nat handler" where
  "echo ca r = Inr (Some \<lparr>resp_Headers = req_Headers r, resp_Body = emptyBody\<rparr>, None)"

definition srv_wr :: "nat inRequest" where
  "srv_wr = \<lparr>iq_Service = 3, iq_ID = 5, iq_Headers = Some 8, iq_Size = 0, iq_Reader = None\<rparr>"

definition srv_read :: "nat ssys" where
  "srv_read = (new_ssys 1)\<lparr>ss_s := snd (snd (serverReader_message None ''peer'' srv_wr (newServerState 1))),
     ss_conns := [newServerConn 4], ss_tasks := {#(0, 0, Waiting)#},
     ss_origin := (ss_origin (new_ssys 1))(0 := (0, 5, request_of srv_wr)), ss_in := {#(0, 5, request_of srv_wr)#}\<rparr>"

definition srv_started :: "nat ssys" where
  "srv_started = srv_read\<lparr>ss_s := snd (workers_enter (ss_s srv_read)), ss_tasks := {#(0, 0, Started)#}\<rparr>"

definition srv_handling :: "nat ssys" where
  "srv_handling = srv_started\<lparr>ss_s := snd (serveRequest_begin 0 (ss_s srv_started)),
     ss_tasks := {#(0, 0, Handling (request_of srv_wr) ''peer'' False)#}\<rparr>"

definition srv_replying :: "nat ssys" where
  "srv_replying = srv_handling\<lparr>ss_s := serveRequest_result 0 1 False
     (callHandlerWithRecover [] echo ''peer'' (request_of srv_wr)) (ss_s srv_handling),
     ss_tasks := {#(0, 0, Replying)#}\<rparr>"

definition srv_queued :: "nat ssys" where
  "srv_queued = srv_replying\<lparr>ss_conns := [(newServerConn 4)\<lparr>sc_responses := [0]\<rparr>], ss_tasks := {#(0, 0, Leaving)#}\<rparr>"

definition srv_out :: "nat wireResponse" where
  "srv_out = \<lparr>rs_ID = 5, rs_Headers = Some 8, rs_Body = emptyBody, rs_Error = []\<rparr>"

definition srv_written :: "nat ssys" where
  "srv_written = srv_queued\<lparr>ss_s := fst (snd (serverWriter_take (ss_s srv_queued) (ss_conns srv_queued ! 0))),
     ss_conns := [(newServerConn 4)\<lparr>sc_wr := clear_wire srv_out\<rparr>],
     ss_out := {#((0, 5, request_of srv_wr), srv_out)#}\<rparr>"

lemmas srv_steps = srv_read_def srv_started_def srv_handling_def srv_replying_def srv_queued_def srv_written_def
lemmas srv_ops = new_ssys_def newServerState_def serverReader_message_def getMessage_def pool_pick_def
  set_message_def zeroMessage_def srv_wr_def request_of_def workers_enter_def serveRequest_begin_def
  serveRequest_result_def callHandlerWithRecover_def echo_def serveRequest_send_def newServerConn_def
  serverWriter_take_def putMessage_def zeroWire_def srv_out_def

lemma server_reach_started: "server_reach {echo} (\<lambda>_. ''peer'') srv_started"
proof -
  have "server_reach {echo} (\<lambda>_. ''peer'') ((new_ssys 1)\<lparr>ss_conns := [newServerConn 4]\<rparr>)"
    using server_reach_accept [OF server_reach.start [of "{echo}" "\<lambda>_. ''peer''" 1], of 4] by (simp add: new_ssys_def)
  from server_reach_decode [OF this, of 0 None srv_wr] have "server_reach {echo} (\<lambda>_. ''peer'') srv_read"
    by (simp add: srv_read_def srv_ops)
  from server_reach_admit [OF this, of 0 0 "{#}" "snd (workers_enter (ss_s srv_read))"]
  show ?thesis by (simp add: srv_steps srv_ops)
qed

lemma server_reach_written: "server_reach {echo} (\<lambda>_. ''peer'') srv_written"
proof -
  have "server_reach {echo} (\<lambda>_. ''peer'') srv_handling"
    using server_reach_work [OF server_reach_started, of 0 0 "{#}" "request_of srv_wr" "''peer''" False "ss_s srv_handling"]
    by (simp add: srv_handling_def) (simp add: srv_steps srv_ops)
  then have "server_reach {echo} (\<lambda>_. ''peer'') srv_replying"
    using server_reach_handle [of _ _ srv_handling 0 0 "request_of srv_wr" "''peer''" False "{#}" echo 1 "[]"]
    by (simp add: srv_replying_def) (simp add: srv_handling_def)
  then have "server_reach {echo} (\<lambda>_. ''peer'') srv_queued"
    using server_reach_reply [of _ _ srv_replying 0 0 "{#}" "(newServerConn 4)\<lparr>sc_responses := [0]\<rparr>"]
    by (simp add: srv_queued_def) (simp add: srv_steps srv_ops)
  moreover have "serverWriter_take (ss_s srv_queued) (ss_conns srv_queued ! 0) =
      (Some srv_out, ss_s srv_written, (newServerConn 4)\<lparr>sc_wr := srv_out\<rparr>)"
    by (simp add: srv_steps srv_ops Let_def)
  moreover have "ss_conns srv_queued = [(newServerConn 4)\<lparr>sc_responses := [0]\<rparr>]" "ss_out srv_queued = {#}"
    "ss_origin srv_queued 0 = (0, 5, request_of srv_wr)"
    by (simp_all add: srv_steps new_ssys_def)
  ultimately show ?thesis
    using server_reach_encode [of _ _ srv_queued 0 0 "[]" srv_out "ss_s srv_written" "(newServerConn 4)\<lparr>sc_wr := srv_out\<rparr>"]
    by (simp add: srv_written_def)
qed

theorem server_answers_once_witness:
  "server_reach {echo} (\<lambda>_. ''peer'') srv_written \<and>
   (\<exists>trace. srv_out = response_of 5 (callHandlerWithRecover trace echo ''peer'' (request_of srv_wr)))"
  using server_answers_once [OF server_reach_written] server_reach_written by (simp add: srv_written_def)

theorem server_workers_safe_witness:
  "server_reach {echo} (\<lambda>_. ''peer'') srv_started \<and>
   (\<exists>r. fst (serveRequest_begin 0 (ss_s srv_started)) = Ret r)"
  using server_workers_safe [OF server_reach_started] server_reach_started by (auto simp: srv_started_def)

end
