(* ===== verification/Lifecycle.thy ===== *)
theory Lifecycle
  imports Conn_Stats Service_Dispatcher
begin

text \<open>
  Starting and stopping: the settings and their defaults (\<^verbatim>\<open>src/common.go\<close>), the listeners and
  constructors (\<^verbatim>\<open>src/transport.go\<close>), \<open>Start\<close>, \<open>Stop\<close> and the dial and accept loops of client
  (\<^verbatim>\<open>src/client.go\<close>) and server (\<^verbatim>\<open>src/server.go\<close>). A listener is used through its interface
  only: a record of operations, whose contract is the locale \<open>listener\<close>.

  What package \<^verbatim>\<open>net\<close> does is an argument: \<open>listen\<close> for \<open>net.Listen\<close>, a list of answers for
  the connections that arrive at a socket. Logging is left out.
\<close>

section \<open>Settings\<close>

definition DefaultConcurrency :: int where "DefaultConcurrency = 8 * 1024"
definition DefaultRequestTimeout :: int where "DefaultRequestTimeout = 20 * 10 ^ 9"
definition DefaultPendingMessages :: int where "DefaultPendingMessages = 32 * 1024"
definition DefaultFlushDelay :: int where "DefaultFlushDelay = -1"
definition DefaultBufferSize :: int where "DefaultBufferSize = 64 * 1024"

lemmas defaults = DefaultConcurrency_def DefaultRequestTimeout_def DefaultPendingMessages_def
  DefaultFlushDelay_def DefaultBufferSize_def

definition or_default :: "int \<Rightarrow> int \<Rightarrow> int" where
  "or_default x d = (if x \<le> 0 then d else x)"

section \<open>Sockets and listeners\<close>

text \<open>
  A listening socket: whether it is closed and what its next calls of \<open>Accept\<close> find, the
  address of a peer or an error. \<open>None\<close> is a call that blocks.
\<close>

record socket =
  so_network :: string
  so_addr :: string
  so_closed :: bool
  so_incoming :: "(goerr + string) list"

definition so_Accept :: "socket \<Rightarrow> (goerr + string) option \<times> socket" where
  "so_Accept so =
     (if so_closed so then (Some (Inl (Errorf ''use of closed network connection'')), so)
      else case so_incoming so of
          [] \<Rightarrow> (None, so)
        | x # xs \<Rightarrow> (Some x, so\<lparr>so_incoming := xs\<rparr>))"

definition so_Close :: "socket \<Rightarrow> goerr option \<times> socket" where
  "so_Close so =
     (if so_closed so then (Some (Errorf ''use of closed network connection''), so)
      else (None, so\<lparr>so_closed := True\<rparr>))"

text \<open>The interface \<open>Listener\<close>.\<close>

record 'l Listener =
  ln_Init :: "string \<Rightarrow> 'l \<Rightarrow> goerr option \<times> 'l"
  ln_Accept :: "'l \<Rightarrow> string outcome option \<times> 'l"
  ln_Close :: "'l \<Rightarrow> goerr option outcome \<times> 'l"
  ln_ListenAddr :: "'l \<Rightarrow> string option"

text \<open>
  \<open>defaultListener\<close>; \<open>setKeepAlive\<close> and \<open>setPeriod\<close> are the results of the system calls on a
  connection. Without a socket \<open>Accept\<close> and \<open>Close\<close> dereference nil.
\<close>

record defaultListener =
  dl_L :: "socket option"

definition dl_Init :: "(string \<Rightarrow> string \<Rightarrow> goerr + socket) \<Rightarrow> string \<Rightarrow> defaultListener \<Rightarrow> goerr option \<times> defaultListener" where
  "dl_Init listen addr ln =
     (case listen ''tcp'' addr of
        Inr so \<Rightarrow> (None, ln\<lparr>dl_L := Some so\<rparr>)
      | Inl e \<Rightarrow> (Some e, ln\<lparr>dl_L := None\<rparr>))"

definition dl_ListenAddr :: "defaultListener \<Rightarrow> string option" where
  "dl_ListenAddr ln = map_option so_addr (dl_L ln)"

definition setupKeepalive :: "(string \<Rightarrow> goerr option) \<Rightarrow> (string \<Rightarrow> goerr option) \<Rightarrow> string \<Rightarrow> goerr option" where
  "setupKeepalive setKeepAlive setPeriod conn =
     (case setKeepAlive conn of Some e \<Rightarrow> Some e
      | None \<Rightarrow> (case setPeriod conn of Some e \<Rightarrow> Some e | None \<Rightarrow> None))"

definition dl_Accept :: "(string \<Rightarrow> goerr option) \<Rightarrow> (string \<Rightarrow> goerr option) \<Rightarrow> defaultListener \<Rightarrow> string outcome option \<times> defaultListener" where
  "dl_Accept setKeepAlive setPeriod ln =
     (case dl_L ln of
        None \<Rightarrow> (Some (Panic ''nil pointer dereference''), ln)
      | Some so \<Rightarrow>
          (case so_Accept so of
             (x, so') \<Rightarrow>
               (case x of
                  None \<Rightarrow> None
                | Some (Inl e) \<Rightarrow> Some (Fail e)
                | Some (Inr c) \<Rightarrow>
                    (case setupKeepalive setKeepAlive setPeriod c of None \<Rightarrow> Some (Ret c) | Some e \<Rightarrow> Some (Fail e)), ln\<lparr>dl_L := Some so'\<rparr>)))"

definition dl_Close :: "defaultListener \<Rightarrow> goerr option outcome \<times> defaultListener" where
  "dl_Close ln =
     (case dl_L ln of
        None \<Rightarrow> (Panic ''nil pointer dereference'', ln)
      | Some so \<Rightarrow> (case so_Close so of (e, so') \<Rightarrow> (Ret e, ln\<lparr>dl_L := Some so'\<rparr>)))"

definition defaultListener_ops :: "(string \<Rightarrow> string \<Rightarrow> goerr + socket) \<Rightarrow> (string \<Rightarrow> goerr option) \<Rightarrow>
    (string \<Rightarrow> goerr option) \<Rightarrow> defaultListener Listener" where
  "defaultListener_ops listen setKeepAlive setPeriod = \<lparr>ln_Init = dl_Init listen, ln_Accept = dl_Accept setKeepAlive setPeriod,
     ln_Close = dl_Close, ln_ListenAddr = dl_ListenAddr\<rparr>"

text \<open>\<open>netListener\<close>: the way to listen is a field.\<close>

record netListener =
  nl_F :: "string \<Rightarrow> goerr + socket"
  nl_L :: "socket option"

definition nl_Init :: "string \<Rightarrow> netListener \<Rightarrow> goerr option \<times> netListener" where
  "nl_Init addr ln =
     (case nl_F ln addr of
        Inr so \<Rightarrow> (None, ln\<lparr>nl_L := Some so\<rparr>)
      | Inl e \<Rightarrow> (Some e, ln\<lparr>nl_L := None\<rparr>))"

definition nl_ListenAddr :: "netListener \<Rightarrow> string option" where
  "nl_ListenAddr ln = map_option so_addr (nl_L ln)"

definition nl_Accept :: "netListener \<Rightarrow> string outcome option \<times> netListener" where
  "nl_Accept ln =
     (case nl_L ln of
        None \<Rightarrow> (Some (Panic ''nil pointer dereference''), ln)
      | Some so \<Rightarrow> (case so_Accept so of
             (x, so') \<Rightarrow>
               (case x of None \<Rightarrow> None | Some (Inl e) \<Rightarrow> Some (Fail e) | Some (Inr c) \<Rightarrow> Some (Ret c),
                ln\<lparr>nl_L := Some so'\<rparr>)))"

definition nl_Close :: "netListener \<Rightarrow> goerr option outcome \<times> netListener" where
  "nl_Close ln =
     (case nl_L ln of
        None \<Rightarrow> (Panic ''nil pointer dereference'', ln)
      | Some so \<Rightarrow> (case so_Close so of (e, so') \<Rightarrow> (Ret e, ln\<lparr>nl_L := Some so'\<rparr>)))"

definition netListener_ops :: "netListener Listener" where
  "netListener_ops = \<lparr>ln_Init = nl_Init, ln_Accept = nl_Accept, ln_Close = nl_Close, ln_ListenAddr = nl_ListenAddr\<rparr>"

section \<open>The server\<close>

text \<open>
  \<open>sv_stopChan\<close>: whether \<open>serverStopChan\<close> is set; \<open>sv_handler\<close>: the capacity of the channel
  of workers the running \<open>serverHandler\<close> was given.
\<close>

record ('f, 'l) Server =
  sv_Addr :: string
  sv_Handler :: "'f option"
  sv_Concurrency :: int
  sv_FlushDelay :: int
  sv_PendingResponses :: int
  sv_SendBufferSize :: int
  sv_RecvBufferSize :: int
  sv_Listener :: "'l option"
  sv_Stats :: ConnStats
  sv_stopChan :: bool
  sv_handler :: "int option"

definition server_settings :: "('f, 'l) Server \<Rightarrow> ('f, 'l) Server" where
  "server_settings s = s\<lparr>
     sv_Concurrency := or_default (sv_Concurrency s) DefaultConcurrency,
     sv_FlushDelay := (if sv_FlushDelay s = 0 then DefaultFlushDelay else sv_FlushDelay s),
     sv_PendingResponses := or_default (sv_PendingResponses s) DefaultPendingMessages,
     sv_SendBufferSize := or_default (sv_SendBufferSize s) DefaultBufferSize,
     sv_RecvBufferSize := or_default (sv_RecvBufferSize s) DefaultBufferSize\<rparr>"

text \<open>\<open>Server.Start\<close>; \<open>dflt\<close> is a new \<open>defaultListener\<close>.\<close>

definition server_Start :: "'l Listener \<Rightarrow> 'l \<Rightarrow> ('f, 'l) Server \<Rightarrow> goerr option outcome \<times> ('f, 'l) Server" where
  "server_Start ops dflt s =
     (if sv_Handler s = None then (Panic ''Server.Handler cannot be nil'', s)
      else if sv_stopChan s then (Panic ''server is already running. Stop it before starting it again'', s)
      else
        (let s1 = server_settings (s\<lparr>sv_stopChan := True\<rparr>);
             ln = (case sv_Listener s of None \<Rightarrow> dflt | Some l \<Rightarrow> l);
             go = (\<lambda>l. (Ret None, s1\<lparr>sv_Listener := Some l, sv_handler := Some (sv_Concurrency s1)\<rparr>))
         in case ln_ListenAddr ops ln of
              Some _ \<Rightarrow> go ln
            | None \<Rightarrow>
                (case ln_Init ops (sv_Addr s) ln of
                   (None, l) \<Rightarrow> go l
                 | (Some e, l) \<Rightarrow> (Ret (Some (Wrap e ''Cannot listen to'')), s1\<lparr>sv_Listener := Some l\<rparr>))))"

text \<open>
  One round of \<open>serverHandler\<close>: a connection to serve, or an error that is counted and
  followed by a second of sleep. \<open>None\<close>: it waits.
\<close>

datatype accepted = Serve string | AcceptFailed goerr | HandlerPanics string

definition serverHandler_round :: "'l Listener \<Rightarrow> ('f, 'l) Server \<Rightarrow> accepted option \<times> ('f, 'l) Server" where
  "serverHandler_round ops s =
     (case sv_Listener s of
        None \<Rightarrow> (Some (HandlerPanics ''nil pointer dereference''), s)
      | Some l \<Rightarrow>
          (case ln_Accept ops l of
             (None, l') \<Rightarrow> (None, s\<lparr>sv_Listener := Some l'\<rparr>)
           | (Some (Ret a), l') \<Rightarrow>
               (Some (Serve a), s\<lparr>sv_Listener := Some l', sv_Stats := incAcceptCalls (sv_Stats s)\<rparr>)
           | (Some (Fail e), l') \<Rightarrow>
               (Some (AcceptFailed e), s\<lparr>sv_Listener := Some l',
                  sv_Stats := incAcceptErrors (incAcceptCalls (sv_Stats s))\<rparr>)
           | (Some (Panic p), l') \<Rightarrow> (Some (HandlerPanics p), s\<lparr>sv_Listener := Some l'\<rparr>)))"

primrec serverHandler_rounds :: "'l Listener \<Rightarrow> nat \<Rightarrow> ('f, 'l) Server \<Rightarrow> accepted option list \<times> ('f, 'l) Server" where
  "serverHandler_rounds ops 0 s = ([], s)"
| "serverHandler_rounds ops (Suc n) s =
     (case serverHandler_round ops s of (x, s1) \<Rightarrow> (case serverHandler_rounds ops n s1 of (xs, s2) \<Rightarrow> (x # xs, s2)))"

text \<open>
  \<open>Server.Stop\<close> and the end of \<open>serverHandler\<close> it waits for: the handler closes the listener
  if it is accepting, but not if it sleeps after an error (\<open>asleep\<close>).
\<close>

definition serverHandler_stop :: "'l Listener \<Rightarrow> bool \<Rightarrow> ('f, 'l) Server \<Rightarrow> unit outcome \<times> ('f, 'l) Server" where
  "serverHandler_stop ops asleep s =
     (if asleep then (Ret (), s\<lparr>sv_handler := None\<rparr>)
      else case sv_Listener s of
          None \<Rightarrow> (Panic ''nil pointer dereference'', s)
        | Some l \<Rightarrow>
            (case ln_Close ops l of
               (Ret _, l') \<Rightarrow> (Ret (), s\<lparr>sv_Listener := Some l', sv_handler := None\<rparr>)
             | (Fail e, l') \<Rightarrow> (Fail e, s\<lparr>sv_Listener := Some l'\<rparr>)
             | (Panic p, l') \<Rightarrow> (Panic p, s\<lparr>sv_Listener := Some l'\<rparr>)))"

definition server_Stop :: "'l Listener \<Rightarrow> bool \<Rightarrow> ('f, 'l) Server \<Rightarrow> unit outcome \<times> ('f, 'l) Server" where
  "server_Stop ops asleep s =
     (if \<not> sv_stopChan s then (Panic ''server must be started before stopping it'', s)
      else case (if sv_handler s = None then (Ret (), s) else serverHandler_stop ops asleep s) of
          (Ret _, s1) \<Rightarrow> (Ret (), s1\<lparr>sv_stopChan := False\<rparr>)
        | (x, s1) \<Rightarrow> (x, s1))"

text \<open>\<open>Serve\<close> starts the server and waits; \<open>run\<close> is what happens until it is stopped.\<close>

definition server_Serve :: "'l Listener \<Rightarrow> 'l \<Rightarrow> (('f, 'l) Server \<Rightarrow> ('f, 'l) Server) \<Rightarrow> ('f, 'l) Server \<Rightarrow>
    goerr option outcome \<times> ('f, 'l) Server" where
  "server_Serve ops dflt run s =
     (case server_Start ops dflt s of
        (Ret None, s1) \<Rightarrow> (Ret None, run s1)
      | (x, s1) \<Rightarrow> (x, s1))"

section \<open>The client\<close>

record 'd ClientSettings =
  cs_Addr :: string
  cs_Conns :: int
  cs_PendingRequests :: int
  cs_FlushDelay :: int
  cs_RequestTimeout :: int
  cs_DisableCompression :: bool
  cs_SendBufferSize :: int
  cs_RecvBufferSize :: int
  cs_Dial :: "'d option"
  cs_stopChan :: bool
  cs_queue :: int
  cs_handlers :: nat

definition client_Start :: "'d \<Rightarrow> 'd ClientSettings \<Rightarrow> unit outcome \<times> 'd ClientSettings" where
  "client_Start defaultDial c =
     (if cs_stopChan c then (Panic ''the given client is already started'', c)
      else
        (let c1 = c\<lparr>
               cs_PendingRequests := or_default (cs_PendingRequests c) DefaultPendingMessages,
               cs_FlushDelay := (if cs_FlushDelay c = 0 then DefaultFlushDelay else cs_FlushDelay c),
               cs_RequestTimeout := or_default (cs_RequestTimeout c) DefaultRequestTimeout,
               cs_SendBufferSize := or_default (cs_SendBufferSize c) DefaultBufferSize,
               cs_RecvBufferSize := or_default (cs_RecvBufferSize c) DefaultBufferSize,
               cs_stopChan := True,
               cs_Conns := or_default (cs_Conns c) 1,
               cs_Dial := (case cs_Dial c of None \<Rightarrow> Some defaultDial | Some d \<Rightarrow> Some d)\<rparr>
         in (Ret (), c1\<lparr>cs_queue := cs_PendingRequests c1, cs_handlers := nat (cs_Conns c1)\<rparr>)))"

definition client_Stop :: "'d ClientSettings \<Rightarrow> unit outcome \<times> 'd ClientSettings" where
  "client_Stop c =
     (if \<not> cs_stopChan c then (Panic ''the client must be started before stopping it'', c)
      else (Ret (), c\<lparr>cs_handlers := 0, cs_stopChan := False\<rparr>))"

text \<open>
  One round of \<open>clientHandler\<close> up to \<open>clientHandleConnection\<close>. When the client is stopped
  while dialling, the handler waits for the dial and returns; a connection that the dial
  delivers then is dropped without being closed.
\<close>

datatype 'c dial_event = Dialed "goerr + 'c" | StopWhileDialing "goerr + 'c"
datatype 'c dial_next = Connected 'c | RetryLater | HandlerReturns "'c option"

fun clientHandler_dial :: "'c dial_event \<Rightarrow> ConnStats \<Rightarrow> 'c dial_next \<times> ConnStats" where
  "clientHandler_dial (Dialed (Inr conn)) st = (Connected conn, incDialCalls st)"
| "clientHandler_dial (Dialed (Inl e)) st = (RetryLater, incDialErrors (incDialCalls st))"
| "clientHandler_dial (StopWhileDialing (Inr conn)) st = (HandlerReturns (Some conn), st)"
| "clientHandler_dial (StopWhileDialing (Inl e)) st = (HandlerReturns None, st)"

section \<open>Constructors\<close>

definition zeroSettings :: "'d ClientSettings" where
  "zeroSettings = \<lparr>cs_Addr = [], cs_Conns = 0, cs_PendingRequests = 0, cs_FlushDelay = 0, cs_RequestTimeout = 0,
     cs_DisableCompression = False, cs_SendBufferSize = 0, cs_RecvBufferSize = 0, cs_Dial = None,
     cs_stopChan = False, cs_queue = 0, cs_handlers = 0\<rparr>"

definition zeroServer :: "('f, 'l) Server" where
  "zeroServer = \<lparr>sv_Addr = [], sv_Handler = None, sv_Concurrency = 0, sv_FlushDelay = 0, sv_PendingResponses = 0,
     sv_SendBufferSize = 0, sv_RecvBufferSize = 0, sv_Listener = None, sv_Stats = zeroStats,
     sv_stopChan = False, sv_handler = None\<rparr>"

definition NewTCPClient :: "'d \<Rightarrow> string \<Rightarrow> 'd ClientSettings" where
  "NewTCPClient defaultDial addr = zeroSettings\<lparr>cs_Addr := addr, cs_Dial := Some defaultDial\<rparr>"

definition NewTCPServer :: "string \<Rightarrow> 'f \<Rightarrow> ('f, defaultListener) Server" where
  "NewTCPServer addr handler = zeroServer\<lparr>sv_Addr := addr, sv_Handler := Some handler,
     sv_Listener := Some \<lparr>dl_L = None\<rparr>\<rparr>"

definition NewUnixClient :: "'d \<Rightarrow> string \<Rightarrow> 'd ClientSettings" where
  "NewUnixClient unixDial addr = zeroSettings\<lparr>cs_Addr := addr, cs_Dial := Some unixDial,
     cs_DisableCompression := True, cs_FlushDelay := -1\<rparr>"

definition NewUnixServer :: "(string \<Rightarrow> string \<Rightarrow> goerr + socket) \<Rightarrow> string \<Rightarrow> 'f \<Rightarrow> ('f, netListener) Server" where
  "NewUnixServer listen addr handler = zeroServer\<lparr>sv_Addr := addr, sv_Handler := Some handler,
     sv_Listener := Some \<lparr>nl_F = listen ''unix'', nl_L = None\<rparr>, sv_FlushDelay := -1\<rparr>"

section \<open>The contract of a listener\<close>

text \<open>
  What \<open>Server\<close> relies on: after \<open>Init\<close> succeeds there is an address, and it stays; \<open>Accept\<close>
  does not panic then; \<open>Close\<close> closes, and \<open>Accept\<close> of a closed listener fails at once.
\<close>

locale listener =
  fixes ops :: "'l Listener" and closed :: "'l \<Rightarrow> bool"
  assumes init_ok: "ln_Init ops addr l = (None, l') \<Longrightarrow> ln_ListenAddr ops l' \<noteq> None"
    and init_fail: "ln_Init ops addr l = (Some e, l') \<Longrightarrow> ln_ListenAddr ops l' = None"
    and accept_ok: "ln_ListenAddr ops l \<noteq> None \<Longrightarrow> ln_Accept ops l = (x, l') \<Longrightarrow>
      ln_ListenAddr ops l' \<noteq> None \<and> (\<forall>p. x \<noteq> Some (Panic p))"
    and close_ok: "ln_ListenAddr ops l \<noteq> None \<Longrightarrow>
      \<exists>e l'. ln_Close ops l = (Ret e, l') \<and> ln_ListenAddr ops l' \<noteq> None \<and> closed l'"
    and accept_closed: "ln_ListenAddr ops l \<noteq> None \<Longrightarrow> closed l \<Longrightarrow> \<exists>e. ln_Accept ops l = (Some (Fail e), l)"
begin

lemma start_listens:
  assumes "server_Start ops dflt s = (Ret None, s')"
  shows "\<exists>l. sv_Listener s' = Some l \<and> ln_ListenAddr ops l \<noteq> None \<and> sv_stopChan s' \<and> sv_handler s' \<noteq> None \<and>
    sv_Handler s' = sv_Handler s \<and> sv_Handler s \<noteq> None"
  using assms init_ok
  by (auto simp: server_Start_def server_settings_def Let_def split: if_splits option.splits prod.splits)

lemma rounds_listen:
  assumes "sv_Listener s = Some l" "ln_ListenAddr ops l \<noteq> None"
  shows "\<exists>l'. sv_Listener (snd (serverHandler_rounds ops n s)) = Some l' \<and> ln_ListenAddr ops l' \<noteq> None \<and>
    sv_stopChan (snd (serverHandler_rounds ops n s)) = sv_stopChan s \<and>
    sv_handler (snd (serverHandler_rounds ops n s)) = sv_handler s \<and>
    sv_Handler (snd (serverHandler_rounds ops n s)) = sv_Handler s \<and>
    (\<forall>p. Some (HandlerPanics p) \<notin> set (fst (serverHandler_rounds ops n s)))"
  using assms
proof (induction n arbitrary: s l)
  case (Suc n)
  obtain x l1 where x: "ln_Accept ops l = (x, l1)" by (cases "ln_Accept ops l")
  note ok = accept_ok [OF Suc.prems(2) x]
  obtain y s1 where y: "serverHandler_round ops s = (y, s1)" by (cases "serverHandler_round ops s")
  have s1: "sv_Listener s1 = Some l1 \<and> sv_stopChan s1 = sv_stopChan s \<and> sv_handler s1 = sv_handler s \<and>
      sv_Handler s1 = sv_Handler s \<and> (\<forall>p. y \<noteq> Some (HandlerPanics p))"
    using y x Suc.prems(1) ok by (auto simp: serverHandler_round_def split: option.splits outcome.splits)
  then show ?case using Suc.IH [of s1 l1] ok y by (auto split: prod.splits)
qed simp

lemma closed_rounds:
  assumes "sv_Listener s = Some l" "ln_ListenAddr ops l \<noteq> None" "closed l"
  shows "\<forall>ev \<in> set (fst (serverHandler_rounds ops n s)). \<exists>e. ev = Some (AcceptFailed e)"
  using assms
proof (induction n arbitrary: s)
  case (Suc n)
  obtain e where e: "ln_Accept ops l = (Some (Fail e), l)" using accept_closed [OF Suc.prems(2,3)] by blast
  let ?s = "s\<lparr>sv_Listener := Some l, sv_Stats := incAcceptErrors (incAcceptCalls (sv_Stats s))\<rparr>"
  have "serverHandler_round ops s = (Some (AcceptFailed e), ?s)"
    using Suc.prems(1) e by (simp add: serverHandler_round_def)
  then show ?case using Suc.IH [of ?s] Suc.prems by (auto split: prod.splits)
qed simp

lemma restart_deaf:
  assumes "server_Start ops dflt s = (Ret None, s1)" "s2 = snd (serverHandler_rounds ops k s1)"
  shows "\<exists>s3 s4. server_Stop ops False s2 = (Ret (), s3) \<and> server_Start ops dflt s3 = (Ret None, s4) \<and>
    (\<forall>ev \<in> set (fst (serverHandler_rounds ops n s4)). \<exists>e. ev = Some (AcceptFailed e))"
proof -
  obtain l1 where l1: "sv_Listener s1 = Some l1" "ln_ListenAddr ops l1 \<noteq> None" "sv_stopChan s1" "sv_handler s1 \<noteq> None"
    "sv_Handler s1 \<noteq> None" using start_listens [OF assms(1)] by auto
  then obtain l2 where l2: "sv_Listener s2 = Some l2" "ln_ListenAddr ops l2 \<noteq> None" "sv_stopChan s2" "sv_handler s2 \<noteq> None"
    "sv_Handler s2 \<noteq> None" using rounds_listen [OF l1(1,2), of k] assms(2) by auto
  obtain e l3 where l3: "ln_Close ops l2 = (Ret e, l3)" "ln_ListenAddr ops l3 \<noteq> None" "closed l3"
    using close_ok [OF l2(2)] by blast
  let ?s3 = "s2\<lparr>sv_Listener := Some l3, sv_handler := None, sv_stopChan := False\<rparr>"
  have "server_Stop ops False s2 = (Ret (), ?s3)"
    using l2 l3(1) by (auto simp: server_Stop_def serverHandler_stop_def)
  moreover obtain s4 where "server_Start ops dflt ?s3 = (Ret None, s4)" "sv_Listener s4 = Some l3"
    using l2(5) l3(2) by (auto simp: server_Start_def server_settings_def Let_def)
  ultimately show ?thesis using closed_rounds [OF _ l3(2,3)] by blast
qed

lemma failed_start_sticks:
  assumes "server_Start ops dflt s = (Ret (Some e), s')"
  shows "fst (server_Start ops dflt s') = Panic ''server is already running. Stop it before starting it again''"
  using assms by (auto simp: server_Start_def server_settings_def Let_def split: if_splits option.splits prod.splits)

end

definition dl_closed :: "defaultListener \<Rightarrow> bool" where
  "dl_closed ln \<longleftrightarrow> (\<exists>so. dl_L ln = Some so \<and> so_closed so)"

interpretation dfl: listener "defaultListener_ops listen ka kp" dl_closed for listen ka kp
  by unfold_locales
    (auto simp: defaultListener_ops_def dl_Init_def dl_ListenAddr_def dl_Accept_def dl_Close_def dl_closed_def
      so_Accept_def so_Close_def split: sum.splits option.splits if_splits list.splits)

definition nl_closed :: "netListener \<Rightarrow> bool" where
  "nl_closed ln \<longleftrightarrow> (\<exists>so. nl_L ln = Some so \<and> so_closed so)"

interpretation nll: listener netListener_ops nl_closed
  by unfold_locales
    (auto simp: netListener_ops_def nl_Init_def nl_ListenAddr_def nl_Accept_def nl_Close_def nl_closed_def
      so_Accept_def so_Close_def split: sum.splits option.splits if_splits list.splits)

section \<open>Starting and stopping\<close>

text \<open>
  C38. A server that was stopped while accepting can be started again without an error, but it
  never serves another connection: its listener keeps its address, so \<open>Start\<close> does not open
  it again, and every \<open>Accept\<close> fails. This holds for both listeners of the library.
\<close>

theorem restarted_server_is_deaf:
  assumes "server_Start (defaultListener_ops listen ka kp) dflt s = (Ret None, s1)"
    and "server_Start netListener_ops dflt' t = (Ret None, t1)"
  shows "(\<exists>s3 s4. server_Stop (defaultListener_ops listen ka kp) False
        (snd (serverHandler_rounds (defaultListener_ops listen ka kp) k s1)) = (Ret (), s3) \<and>
      server_Start (defaultListener_ops listen ka kp) dflt s3 = (Ret None, s4) \<and>
      (\<forall>ev \<in> set (fst (serverHandler_rounds (defaultListener_ops listen ka kp) n s4)). \<exists>e. ev = Some (AcceptFailed e))) \<and>
    (\<exists>t3 t4. server_Stop netListener_ops False (snd (serverHandler_rounds netListener_ops k t1)) = (Ret (), t3) \<and>
      server_Start netListener_ops dflt' t3 = (Ret None, t4) \<and>
      (\<forall>ev \<in> set (fst (serverHandler_rounds netListener_ops n t4)). \<exists>e. ev = Some (AcceptFailed e)))"
  using dfl.restart_deaf [OF assms(1) refl] nll.restart_deaf [OF assms(2) refl] by blast

definition demo_listen :: "string \<Rightarrow> string \<Rightarrow> goerr + socket" where
  "demo_listen network addr = (if addr = [] then Inl (Errno EINVAL)
     else Inr \<lparr>so_network = network, so_addr = addr, so_closed = False, so_incoming = [Inr ''peer'']\<rparr>)"

lemmas start_eval = server_Start_def server_settings_def NewTCPServer_def NewUnixServer_def zeroServer_def
  demo_listen_def defaultListener_ops_def dl_ListenAddr_def dl_Init_def netListener_ops_def nl_ListenAddr_def nl_Init_def

theorem restarted_server_is_deaf_witness:
  "\<exists>s1 s3 s4. server_Start (defaultListener_ops demo_listen (\<lambda>_. None) (\<lambda>_. None)) \<lparr>dl_L = None\<rparr> (NewTCPServer ''host'' ()) = (Ret None, s1) \<and>
     server_Stop (defaultListener_ops demo_listen (\<lambda>_. None) (\<lambda>_. None)) False
       (snd (serverHandler_rounds (defaultListener_ops demo_listen (\<lambda>_. None) (\<lambda>_. None)) 1 s1)) = (Ret (), s3) \<and>
     server_Start (defaultListener_ops demo_listen (\<lambda>_. None) (\<lambda>_. None)) \<lparr>dl_L = None\<rparr> s3 = (Ret None, s4)"
proof -
  let ?ops = "defaultListener_ops demo_listen (\<lambda>_. None) (\<lambda>_. None)"
  obtain s1 where s1: "server_Start ?ops \<lparr>dl_L = None\<rparr> (NewTCPServer ''host'' ()) = (Ret None, s1)"
    by (simp add: start_eval Let_def)
  obtain t1 where "server_Start netListener_ops dflt' (NewUnixServer demo_listen ''sock'' ()) = (Ret None, t1)" for dflt'
    by (simp add: start_eval Let_def)
  from restarted_server_is_deaf [OF s1 this, of 1] s1 show ?thesis by blast
qed

text \<open>
  A \<open>Start\<close> whose listener cannot be opened returns the error but leaves the server marked
  as running: the next \<open>Start\<close> panics instead of trying again.
\<close>

lemma failed_start_blocks_restart:
  assumes "sv_Handler s \<noteq> None" "\<not> sv_stopChan s" "sv_Listener s = Some \<lparr>dl_L = None\<rparr>" "listen ''tcp'' (sv_Addr s) = Inl e"
  shows "\<exists>s'. server_Start (defaultListener_ops listen ka kp) dflt s = (Ret (Some (Wrap e ''Cannot listen to'')), s') \<and>
    fst (server_Start (defaultListener_ops listen ka kp) dflt s') =
      Panic ''server is already running. Stop it before starting it again''"
proof -
  obtain s' where "server_Start (defaultListener_ops listen ka kp) dflt s = (Ret (Some (Wrap e ''Cannot listen to'')), s')"
    using assms by (simp add: server_Start_def Let_def defaultListener_ops_def dl_ListenAddr_def dl_Init_def)
  with dfl.failed_start_sticks [OF this] show ?thesis by blast
qed

lemma failed_start_blocks_restart_witness:
  "\<exists>s'. server_Start (defaultListener_ops demo_listen (\<lambda>_. None) (\<lambda>_. None)) \<lparr>dl_L = None\<rparr> (NewTCPServer [] ()) =
       (Ret (Some (Wrap (Errno EINVAL) ''Cannot listen to'')), s') \<and>
     fst (server_Start (defaultListener_ops demo_listen (\<lambda>_. None) (\<lambda>_. None)) \<lparr>dl_L = None\<rparr> s') =
       Panic ''server is already running. Stop it before starting it again''"
  using failed_start_blocks_restart [of "NewTCPServer [] ()" demo_listen "Errno EINVAL" "\<lambda>_. None" "\<lambda>_. None" "\<lparr>dl_L = None\<rparr>"]
  by (simp add: NewTCPServer_def zeroServer_def demo_listen_def)



end
