(* ===== verification/Rpc_Roundtrip.thy ===== *)
theory Rpc_Roundtrip
  imports Client_Results Server_Safety
begin

text \<open>
  Client and server together: a request that a caller has queued goes through the client's
  writer, the wire, the server's reader, a worker with the user's handler, the server's writer,
  the wire again and the client's reader, and its answer arrives at the caller that waits for
  it. Everything is composed from the definitions of the components.
\<close>

section \<open>The stations of a call\<close>

text \<open>The client's writer encodes and flushes one request.\<close>

definition client_sends :: "('h, 'ty) headers_impl \<Rightarrow> ('h, 'ty) registry \<Rightarrow> growth \<Rightarrow> 'h wireRequest \<Rightarrow>
    messageEncoder \<Rightarrow> 'h Client \<Rightarrow> spliceWorld \<Rightarrow> unit outcome \<times> messageEncoder \<times> 'h Client \<times> spliceWorld" where
  "client_sends H reg grw wr e c wd =
     (case clientWriter_send H reg grw wr e c wd of
        (Ret _, e1, c1, wd1) \<Rightarrow> (case clientWriter_flush e1 c1 of (x, e2, c2) \<Rightarrow> (x, e2, c2, wd1))
      | (x, e1, c1, wd1) \<Rightarrow> (x, e1, c1, wd1))"

text \<open>The server reads one request, a worker serves it, the writer encodes and flushes the reply.\<close>

definition server_serves :: "('h, 'ty) headers_impl \<Rightarrow> ('h, 'ty) registry \<Rightarrow> growth \<Rightarrow> nat option \<Rightarrow> nat option \<Rightarrow>
    string \<Rightarrow> byte list \<Rightarrow> 'h handler \<Rightarrow> uint64 \<Rightarrow> messageDecoder \<Rightarrow> pools \<Rightarrow> messageEncoder \<Rightarrow>
    'h serverState \<Rightarrow> 'h serverConn \<Rightarrow> (messageEncoder \<times> 'h serverState \<times> 'h serverConn) option" where
  "server_serves H reg grw ch mch addr trace h dt d st e s sc =
     (case serverReader_step H reg grw ch mch addr False zeroRequest d st s of
        ((Ret a, _), _, _, st1, s1) \<Rightarrow>
          (case workers_enter s1 of
             (True, s2) \<Rightarrow>
               (case serveRequest trace h dt a s2 sc of
                  Some (Ret _, s3, sc1) \<Rightarrow>
                    (case serverWriter_take s3 sc1 of
                       (Some wr, s4, sc2) \<Rightarrow>
                         (case serverWriter_send H reg grw wr e s4 sc2 (snd st1) of
                            (Ret _, e1, s5, sc3, _) \<Rightarrow>
                              (case serverWriter_flush e1 s5 of
                                 (Ret _, e2, s6) \<Rightarrow> Some (e2, s6, sc3)
                               | _ \<Rightarrow> None)
                          | _ \<Rightarrow> None)
                     | _ \<Rightarrow> None)
                | _ \<Rightarrow> None)
           | _ \<Rightarrow> None)
      | _ \<Rightarrow> None)"

text \<open>A new stream with the bytes a peer has sent so far.\<close>

definition arriving :: "byte list \<Rightarrow> ConnStats \<Rightarrow> messageDecoder" where
  "arriving bs stat = newMessageDecoder \<lparr>rchunks = [bs], rerr = EOF\<rparr> False stat False"

definition zeroInResponse :: "'h inResponse" where
  "zeroInResponse = \<lparr>is_ID = 0, is_Headers = None, is_Size = 0, is_Reader = None, is_Error = []\<rparr>"

text \<open>An encoder with nothing in it whose connection takes everything and whose buffer is large enough.\<close>

definition idle_encoder :: "nat \<Rightarrow> messageEncoder \<Rightarrow> bool" where
  "idle_encoder n e \<longleftrightarrow> bb_data (me_buf e) = [] \<and> wsent (me_w e) = [] \<and> wlimit (me_w e) = None \<and> 28 + n \<le> bb_cap (me_buf e)"

lemma idle_encoder_stat: "idle_encoder n e \<Longrightarrow> idle_encoder n (e\<lparr>me_stat := st\<rparr>)"
  by (simp add: idle_encoder_def)

lemma idle_encoder_room: "idle_encoder n e \<Longrightarrow> enc_room k e \<and> bb_wf (me_buf e) \<and> stream e = []"
  by (simp add: idle_encoder_def enc_room_def conn_room_def bb_wf_def stream_def)

lemma idle_encoder_fits: "idle_encoder n e \<Longrightarrow> head_fits grw n (head_buf b (me_buf e))"
  by (auto simp: idle_encoder_def head_fits_def head_buf_def bb_Write_fits)

lemma flushed_stream:
  assumes "sends hs bs e e1" "idle_encoder n e"
  shows "\<exists>e2. Flush (e1\<lparr>me_stat := st\<rparr>) = (Ret (), e2) \<and> wsent (me_w e2) = hs @ bs"
proof -
  have "enc_room 0 e1" "bb_wf (me_buf e1)" "stream e1 = hs @ bs"
    using assms(1) idle_encoder_room [OF assms(2)] by (auto simp: sends_def)
  then have "enc_room 0 (e1\<lparr>me_stat := st\<rparr>)" "bb_wf (me_buf (e1\<lparr>me_stat := st\<rparr>))" "stream (e1\<lparr>me_stat := st\<rparr>) = hs @ bs"
    by (simp_all add: enc_room_def stream_def)
  with Flush_sends [OF this(1,2)] show ?thesis by (auto simp: sends_def stream_def)
qed

lemma client_sends_ok:
  assumes "\<And>n c. n \<le> grw n c" "header_encodes H reg (rq_Headers wr)"
    and "copied_body (rq_Body wr) (me_w e) wd" "idle_encoder (length (header_bytes H reg (rq_Headers wr))) e"
  shows "\<exists>e' st. client_sends H reg grw wr e c wd = (Ret (), e', c\<lparr>c_Stats := st\<rparr>, wd) \<and>
    wsent (me_w e') = request_head H reg wr @ body_bytes (rq_Body wr)"
proof -
  let ?e = "e\<lparr>me_stat := c_Stats c\<rparr>"
  note idle = idle_encoder_stat [OF assms(4), of "c_Stats c"]
  have cb: "copied_body (rq_Body wr) (me_w ?e) wd" using assms(3) by simp
  from EncodeRequest_spec [where grw = grw, OF _ assms(1,2) idle_encoder_fits [OF idle] cb] idle_encoder_room [OF idle]
  obtain wr' e1 where E: "EncodeRequest H reg grw wr ?e wd = (Ret (), wr', e1, wd)"
    "sends (request_head H reg wr) (body_bytes (rq_Body wr)) ?e e1" by blast
  from flushed_stream [OF E(2) idle, of "me_stat e1"] obtain e2 where
    "Flush e1 = (Ret (), e2)" "wsent (me_w e2) = request_head H reg wr @ body_bytes (rq_Body wr)" by auto
  with E(1) show ?thesis by (auto simp: client_sends_def clientWriter_send_def clientWriter_flush_def)
qed

lemma arriving_stat [simp]: "(arriving bs stat)\<lparr>md_stat := st\<rparr> = arriving bs st"
  by (simp add: arriving_def newMessageDecoder_def)

lemma arriving_fields [simp]:
  "rbytes (md_r (arriving bs stat)) = bs" "\<not> md_conn (arriving bs stat)" "\<not> md_closeBody (arriving bs stat)"
  "n \<le> 32768 \<Longrightarrow> stageable n (arriving bs stat)"
  by (simp_all add: arriving_def fresh_decoder rbytes_def stageable_def)

text \<open>A worker with a free slot in an empty queue: the handler's response is what the writer takes.\<close>

lemma serve_and_take:
  assumes m: "sm_ID (s_heap s a) = i" "i \<noteq> 0" "sm_Request (s_heap s a) = Some r" "sm_ClientAddr (s_heap s a) = addr"
    and h: "h addr r = Inr (Some resp, None)"
    and sc: "sc_responses sc = []" "0 < sc_cap sc" "rs_Headers (sc_wr sc) = None" "rs_Body (sc_wr sc) = emptyBody"
  shows "\<exists>s1 sc1 s2 sc2. serveRequest trace h dt a s sc = Some (Ret (), s1, sc1) \<and>
    serverWriter_take s1 sc1 = (Some \<lparr>rs_ID = i, rs_Headers = resp_Headers resp, rs_Body = resp_Body resp, rs_Error = []\<rparr>, s2, sc2)"
proof -
  have "sc_wr sc = \<lparr>rs_ID = rs_ID (sc_wr sc), rs_Headers = None, rs_Body = emptyBody, rs_Error = rs_Error (sc_wr sc)\<rparr>"
    using sc(3,4) by simp
  then show ?thesis using m h sc(1,2)
    by (simp add: serveRequest_def serveRequest_begin_def serveRequest_result_def callHandlerWithRecover_def
        serveRequest_send_def serverWriter_take_def workers_leave_def set_message_def Let_def)
qed

lemma server_serves_ok:
  assumes codec: "registered_codec H valid reg" and grw: "\<And>n c. n \<le> grw n c"
    and wr: "header_ok H reg valid (rq_Headers wr)" "length (header_bytes H reg (rq_Headers wr)) \<le> 32768"
      "body_ok (rq_Body wr)" "rq_ID wr \<noteq> 0"
    and pool: "pool_inv (fst st) live"
    and h: "\<And>body. h addr \<lparr>req_Service = rq_Service wr, req_Headers = recv_headers H reg (rq_Headers wr),
      req_Body = \<lparr>cb_Size = b_Size (rq_Body wr), cb_Reader = Some body\<rparr>\<rparr> = Inr (Some (resp body), None)"
    and resp: "\<And>body. header_ok H reg valid (resp_Headers (resp body))"
      "\<And>body. copied_body (resp_Body (resp body)) (me_w e) (snd st)"
      "\<And>body. idle_encoder (length (header_bytes H reg (resp_Headers (resp body)))) e"
    and s: "s_workers s < s_Concurrency s" "sc_responses sc = []" "0 < sc_cap sc"
      "rs_Headers (sc_wr sc) = None" "rs_Body (sc_wr sc) = emptyBody"
  shows "\<exists>body st' e' s' sc'. decoded_bytes body st' = body_bytes (rq_Body wr) \<and>
    server_serves H reg grw ch mch addr trace h dt (arriving (request_head H reg wr @ body_bytes (rq_Body wr)) stat) st e s sc =
      Some (e', s', sc') \<and>
    wsent (me_w e') = response_head H reg \<lparr>rs_ID = rq_ID wr, rs_Headers = resp_Headers (resp body),
      rs_Body = resp_Body (resp body), rs_Error = []\<rparr> @ body_bytes (resp_Body (resp body))"
proof -
  let ?d = "arriving (request_head H reg wr @ body_bytes (rq_Body wr)) (s_Stats s)"
  have r: "rbytes (md_r ?d) = request_head H reg wr @ body_bytes (rq_Body wr) @ []" by simp
  from registered_codec.DecodeRequest_ok [OF codec wr(1,3) pool _ _ _ r, of grw ch zeroRequest] wr(2)
  obtain inq d1 st1 body where D: "DecodeRequest H reg grw ch zeroRequest ?d st = (Ret (), inq, d1, st1)"
    "iq_ID inq = rq_ID wr" "decoded_bytes body st1 = body_bytes (rq_Body wr)" "snd st1 = snd st"
    "request_of inq = \<lparr>req_Service = rq_Service wr, req_Headers = recv_headers H reg (rq_Headers wr),
      req_Body = \<lparr>cb_Size = b_Size (rq_Body wr), cb_Reader = Some body\<rparr>\<rparr>"
    by (auto simp: keeps_def request_of_def)
  let ?s = "s\<lparr>s_Stats := md_stat d1\<rparr>"
  obtain a s1 where g: "getMessage mch ?s = (a, s1)" by (cases "getMessage mch ?s")
  then have w1: "s_workers s1 < s_Concurrency s1"
    using s(1) by (auto simp: getMessage_def set_message_def split: prod.splits option.splits)
  let ?m = "(s_heap s1 a)\<lparr>sm_ID := iq_ID inq, sm_Request := Some (request_of inq), sm_ClientAddr := addr\<rparr>"
  let ?s2 = "(set_message a ?m s1)\<lparr>s_workers := Suc (s_workers s1)\<rparr>"
  have R: "serverReader_step H reg grw ch mch addr False zeroRequest (arriving (request_head H reg wr @ body_bytes (rq_Body wr)) stat) st s =
      ((Ret a, False), clear_request inq, d1, st1, set_message a ?m s1)"
    using D(1) g by (simp add: serverReader_step_def serverReader_message_def)
  have W: "workers_enter (set_message a ?m s1) = (True, ?s2)"
    using w1 by (simp add: workers_enter_def set_message_def)
  let ?w = "\<lparr>rs_ID = rq_ID wr, rs_Headers = resp_Headers (resp body), rs_Body = resp_Body (resp body), rs_Error = []\<rparr>"
  have "\<exists>s3 sc1 s4 sc2. serveRequest trace h dt a ?s2 sc = Some (Ret (), s3, sc1) \<and>
      serverWriter_take s3 sc1 = (Some ?w, s4, sc2)"
    using wr(4) h s(2-5) D(2,5) by (intro serve_and_take [where r = "request_of inq"]) (simp_all add: set_message_def)
  then obtain s3 sc1 s4 sc2 where S: "serveRequest trace h dt a ?s2 sc = Some (Ret (), s3, sc1)"
    "serverWriter_take s3 sc1 = (Some ?w, s4, sc2)" by blast
  let ?e = "e\<lparr>me_stat := s_Stats s4\<rparr>"
  have idle: "idle_encoder (length (header_bytes H reg (rs_Headers ?w))) ?e"
    using idle_encoder_stat [OF resp(3)] by simp
  have cb: "copied_body (rs_Body ?w) (me_w ?e) (snd st)" using resp(2) by simp
  have he: "header_encodes H reg (rs_Headers ?w)"
    using registered_codec.header_ok_encodes [OF codec resp(1)] by simp
  from EncodeResponse_spec [where grw = grw, OF _ grw he idle_encoder_fits [OF idle] cb] idle_encoder_room [OF idle]
  obtain w' e1 where E: "EncodeResponse H reg grw ?w ?e (snd st) = (Ret (), w', e1, snd st)"
    "sends (response_head H reg ?w) (body_bytes (rs_Body ?w)) ?e e1" by blast
  from flushed_stream [OF E(2) idle, of "incRPCCalls (me_stat e1)"] obtain e2 where
    F: "Flush (e1\<lparr>me_stat := incRPCCalls (me_stat e1)\<rparr>) = (Ret (), e2)"
    "wsent (me_w e2) = response_head H reg ?w @ body_bytes (resp_Body (resp body))" by auto
  have "\<exists>s' sc'. server_serves H reg grw ch mch addr trace h dt
      (arriving (request_head H reg wr @ body_bytes (rq_Body wr)) stat) st e s sc = Some (e2, s', sc')"
    using R W S E(1) F(1) D(4) by (simp add: server_serves_def serverWriter_send_def serverWriter_flush_def)
  then show ?thesis using F(2) D(3) by blast
qed

text \<open>The client's reader delivers a response without an error text to the result it answers.\<close>

lemma client_receives_ok:
  assumes codec: "registered_codec H valid reg"
    and s: "client_reach s" "i < length (sy_conns s)" "map_of (cc_pending (sy_conns s ! i)) (rs_ID w) = Some a"
    and w: "header_ok H reg valid (rs_Headers w)" "length (header_bytes H reg (rs_Headers w)) \<le> 32768"
      "body_ok (rs_Body w)" "rs_Error w = []"
    and pool: "pool_inv (fst st) live"
  shows "\<exists>inr d st' c cc rbody.
    clientReader_step H reg grw ch dt zeroInResponse (arriving (response_head H reg w @ body_bytes (rs_Body w)) stat)
      st (sy_c s) (sy_conns s ! i) = (Ret (), inr, d, st', c, cc) \<and>
    done_ready a c \<and> ar_Error (c_heap c a) = None \<and>
    resp_Headers (ar_Response (c_heap c a)) = recv_headers H reg (rs_Headers w) \<and>
    cb_Reader (resp_Body (ar_Response (c_heap c a))) = Some rbody \<and> decoded_bytes rbody st' = body_bytes (rs_Body w) \<and>
    (\<forall>b \<in> sy_waiting s - {a}. c_heap c b = c_heap (sy_c s) b \<and> (done_ready b c \<longleftrightarrow> done_ready b (sy_c s)))"
proof -
  let ?d = "arriving (response_head H reg w @ body_bytes (rs_Body w)) (c_Stats (sy_c s))"
  have bytes: "rbytes (md_r ?d) = put_response (response_line H reg w) @ rs_Error w @
      header_bytes H reg (rs_Headers w) @ body_bytes (rs_Body w) @ []"
    using w(4) by (simp add: response_head_def)
  have ok: "length (rs_Error w) < 2 ^ 32" "stageable (length (header_bytes H reg (rs_Headers w))) ?d"
    using w(2,4) by simp_all
  from registered_codec.DecodeResponse_ok [OF codec w(1,3) ok(1) pool _ _ ok(2) bytes, of grw ch zeroInResponse] w(4)
  obtain inr d st' rbody where R: "DecodeResponse H reg grw ch zeroInResponse ?d st = (Ret (), inr, d, st')"
    "is_ID inr = rs_ID w" "is_Error inr = []" "is_Headers inr = recv_headers H reg (rs_Headers w)"
    "is_Reader inr = Some rbody" "decoded_bytes rbody st' = body_bytes (rs_Body w)"
    by (auto simp: zeroInResponse_def)
  let ?s = "s\<lparr>sy_c := (sy_c s)\<lparr>c_Stats := md_stat d\<rparr>\<rparr>"
  have "client_reach ?s" "i < length (sy_conns ?s)" "map_of (cc_pending (sy_conns ?s ! i)) (is_ID inr) = Some a"
    using client_reach_stats [OF s(1)] s(2,3) R(2) by simp_all
  from deliver_result [OF this, of dt] obtain c cc where
    D: "clientReader_deliver dt inr ((sy_c s)\<lparr>c_Stats := md_stat d\<rparr>) (sy_conns s ! i) = (Ret (), clear_response inr, c, cc)"
    "done_ready a c" "ar_Response (c_heap c a) = \<lparr>resp_Headers = is_Headers inr,
       resp_Body = \<lparr>cb_Size = is_Size inr, cb_Reader = is_Reader inr\<rparr>\<rparr>" "ar_Error (c_heap c a) = None"
    "\<forall>b \<in> sy_waiting s - {a}. c_heap c b = c_heap (sy_c s) b \<and>
       (done_ready b c \<longleftrightarrow> done_ready b ((sy_c s)\<lparr>c_Stats := md_stat d\<rparr>))"
    using R(3) by auto
  have "done_ready b (c'\<lparr>c_Stats := x\<rparr>) \<longleftrightarrow> done_ready b c'" for b x and c' :: "'a Client"
    by (cases "ar_done (c_heap c' b)") (simp_all add: done_ready_def)
  moreover have "clientReader_step H reg grw ch dt zeroInResponse (arriving (response_head H reg w @ body_bytes (rs_Body w)) stat)
      st (sy_c s) (sy_conns s ! i) = (Ret (), clear_response inr, d, st', c, cc)"
    using R(1) D(1) by (simp add: clientReader_step_def)
  ultimately show ?thesis using R(4-6) D(2-5) by auto
qed

section \<open>The whole call\<close>

text \<open>What the client's writer takes from the queue is filed under its identifier.\<close>

lemma taken_pending:
  assumes "clientWriter_take c cc = Some (Ret (WSend wr), c', cc')" "c_requests c = a # q" "rq_ID wr \<noteq> 0"
  shows "map_of (cc_pending cc') (rq_ID wr) = Some a \<and> wr = wire_request (rq_ID wr) (ar_request (c_heap c a)) \<and>
    c_heap c' = c_heap c \<and> c_closed c' = c_closed c"
proof (cases "isCanceled a (c\<lparr>c_requests := q\<rparr>)")
  case True
  then show ?thesis using assms(1,2)
    by (auto simp: clientWriter_take_def Let_def split: prod.splits outcome.splits)
next
  case False
  then show ?thesis using assms
    by (auto simp: clientWriter_take_def Let_def wire_request_def split: option.splits if_splits)
qed


definition rpc_resp :: "(test_headers, Body) Response" where
  "rpc_resp = \<lparr>resp_Headers = Some (RequestHeaders 3), resp_Body = demoBody [[7, 8], [9]] 3\<rparr>"


end
