(* ===== verification/Writer_Loops.thy ===== *)
theory Writer_Loops
  imports Client_Safety Server_Safety Timer_Pool
begin

text \<open>
  The loops of \<open>clientWriter\<close> (\<^verbatim>\<open>src/client.go\<close>) and \<open>serverWriter\<close> (\<^verbatim>\<open>src/server.go\<close>), one
  round at a time: the \<open>select\<close> over the queue, the flush channel and the stop channel, the
  arming of the flush channel, and the exits with an error. \<open>Client_Conn\<close> and \<open>Server_Requests\<close>
  have what a round does with the message it took.

  A message stays in the encoder's buffer until somebody flushes it, so the question is whether
  a flush is always on its way; \<open>flush_loop\<close> answers it once for both loops.
\<close>

section \<open>The flush channel of a writer\<close>

text \<open>\<open>t\<close> and \<open>flushChan\<close>: a nil channel, which is never ready, is \<open>None\<close>.\<close>

record flusher =
  fl_t :: timer
  fl_chan :: "flushChan option"

record writerState =
  ws_e :: messageEncoder
  ws_f :: flusher

definition newFlusher :: flusher where
  "newFlusher = \<lparr>fl_t = NewTimer, fl_chan = None\<rparr>"

definition flush_ready :: "flusher \<Rightarrow> bool" where
  "flush_ready f \<longleftrightarrow>
     (case fl_chan f of None \<Rightarrow> False | Some ClosedFlushChan \<Rightarrow> True | Some TimerC \<Rightarrow> tm_chan (fl_t f))"

text \<open>The receive from \<open>flushChan\<close> and the assignment \<open>flushChan = nil\<close> after the flush.\<close>

definition flush_receive :: "flusher \<Rightarrow> flusher" where
  "flush_receive f = (if fl_chan f = Some TimerC then f\<lparr>fl_t := drain (fl_t f)\<rparr> else f)"

definition flush_disarm :: "flusher \<Rightarrow> flusher" where
  "flush_disarm f = f\<lparr>fl_chan := None\<rparr>"

text \<open>\<open>if flushChan == nil { flushChan = getFlushChan(t, FlushDelay) }\<close>\<close>

definition flush_arm :: "int \<Rightarrow> flusher \<Rightarrow> flusher" where
  "flush_arm delay f =
     (if fl_chan f = None then (case getFlushChan delay (fl_t f) of (ch, t) \<Rightarrow> \<lparr>fl_t = t, fl_chan = Some ch\<rparr>)
      else f)"

definition flush_tick :: "flusher \<Rightarrow> flusher" where
  "flush_tick f = f\<lparr>fl_t := expire (fl_t f)\<rparr>"

section \<open>One round\<close>

text \<open>
  Which branch of the two nested \<open>select\<close>s is taken. The first one prefers a message, but one
  may arrive between the two, so every branch whose channel is ready can be taken.
\<close>

datatype branch = TakeMessage | TakeFlush | TakeStop

text \<open>How a round ends: the loop goes on, the goroutine returns with its \<open>err\<close>, or it panics.\<close>

datatype round_end = Again | Returns "goerr option" | Crashes string

text \<open>
  \<open>clientWriter\<close>. \<open>None\<close>: the channel of this branch is not ready, or the search for an
  identifier does not end. \<open>stopped\<close> says that \<open>stopChan\<close> is closed.
\<close>

definition clientWriter_round :: "('h, 'ty) headers_impl \<Rightarrow> ('h, 'ty) registry \<Rightarrow> growth \<Rightarrow> int \<Rightarrow> bool \<Rightarrow>
    branch \<Rightarrow> writerState \<Rightarrow> 'h Client \<Rightarrow> clientConn \<Rightarrow> spliceWorld \<Rightarrow>
    (round_end \<times> writerState \<times> 'h Client \<times> clientConn \<times> spliceWorld) option" where
  "clientWriter_round H reg grw delay stopped br w c cc wd =
     (case br of
        TakeStop \<Rightarrow> if stopped then Some (Returns None, w, c, cc, wd) else None
      | TakeFlush \<Rightarrow>
          if \<not> flush_ready (ws_f w) then None
          else let f = flush_receive (ws_f w) in
            (case clientWriter_flush (ws_e w) c of
               (Ret _, e, c') \<Rightarrow> Some (Again, \<lparr>ws_e = e, ws_f = flush_disarm f\<rparr>, c', cc, wd)
             | (Fail err, e, c') \<Rightarrow> Some (Returns (Some err), \<lparr>ws_e = e, ws_f = f\<rparr>, c', cc, wd)
             | (Panic s, e, c') \<Rightarrow> Some (Crashes s, \<lparr>ws_e = e, ws_f = f\<rparr>, c', cc, wd))
      | TakeMessage \<Rightarrow>
          if c_requests c = [] then None
          else let w' = w\<lparr>ws_f := flush_arm delay (ws_f w)\<rparr> in
            (case clientWriter_take c cc of
               None \<Rightarrow> None
             | Some (Ret (WSend wr), c1, cc1) \<Rightarrow>
                 (case clientWriter_send H reg grw wr (ws_e w) c1 wd of
                    (Ret _, e, c2, wd') \<Rightarrow> Some (Again, w'\<lparr>ws_e := e\<rparr>, c2, cc1, wd')
                  | (Fail err, e, c2, wd') \<Rightarrow> Some (Returns (Some err), w'\<lparr>ws_e := e\<rparr>, c2, cc1, wd')
                  | (Panic s, e, c2, wd') \<Rightarrow> Some (Crashes s, w'\<lparr>ws_e := e\<rparr>, c2, cc1, wd'))
             | Some (Ret (WQuit err), c1, cc1) \<Rightarrow> Some (Returns (Some err), w', c1, cc1, wd)
             | Some (Ret _, c1, cc1) \<Rightarrow> Some (Again, w', c1, cc1, wd)
             | Some (Fail err, c1, cc1) \<Rightarrow> Some (Returns (Some err), w', c1, cc1, wd)
             | Some (Panic s, c1, cc1) \<Rightarrow> Some (Crashes s, w', c1, cc1, wd)))"

text \<open>
  \<open>serverWriter\<close>; its errors are logged and not returned, a flush error only while the
  connection is not stopped (\<open>isServerStop\<close>). The result also says what is logged.
\<close>

definition isServerStop :: "'h serverConn \<Rightarrow> bool" where
  "isServerStop sc = sc_stopped sc"

definition serverWriter_round :: "('h, 'ty) headers_impl \<Rightarrow> ('h, 'ty) registry \<Rightarrow> growth \<Rightarrow> int \<Rightarrow>
    branch \<Rightarrow> writerState \<Rightarrow> 'h serverState \<Rightarrow> 'h serverConn \<Rightarrow> spliceWorld \<Rightarrow>
    (round_end \<times> goerr option \<times> writerState \<times> 'h serverState \<times> 'h serverConn \<times> spliceWorld) option" where
  "serverWriter_round H reg grw delay br w s sc wd =
     (case br of
        TakeStop \<Rightarrow> if isServerStop sc then Some (Returns None, None, w, s, sc, wd) else None
      | TakeFlush \<Rightarrow>
          if \<not> flush_ready (ws_f w) then None
          else let f = flush_receive (ws_f w) in
            (case serverWriter_flush (ws_e w) s of
               (Ret _, e, s') \<Rightarrow> Some (Again, None, \<lparr>ws_e = e, ws_f = flush_disarm f\<rparr>, s', sc, wd)
             | (Fail err, e, s') \<Rightarrow>
                 Some (Returns None, if isServerStop sc then None else Some err, \<lparr>ws_e = e, ws_f = f\<rparr>, s', sc, wd)
             | (Panic p, e, s') \<Rightarrow> Some (Crashes p, None, \<lparr>ws_e = e, ws_f = f\<rparr>, s', sc, wd))
      | TakeMessage \<Rightarrow>
          let w' = w\<lparr>ws_f := flush_arm delay (ws_f w)\<rparr> in
            (case serverWriter_take s sc of
               (None, s1, sc1) \<Rightarrow> None
             | (Some wr, s1, sc1) \<Rightarrow>
                 (case serverWriter_send H reg grw wr (ws_e w) s1 sc1 wd of
                    (Ret _, e, s2, sc2, wd') \<Rightarrow> Some (Again, None, w'\<lparr>ws_e := e\<rparr>, s2, sc2, wd')
                  | (Fail err, e, s2, sc2, wd') \<Rightarrow> Some (Returns None, Some err, w'\<lparr>ws_e := e\<rparr>, s2, sc2, wd')
                  | (Panic p, e, s2, sc2, wd') \<Rightarrow> Some (Crashes p, None, w'\<lparr>ws_e := e\<rparr>, s2, sc2, wd'))))"

text \<open>
  The start of both: an encoder for the connection with its counters, and a timer that is
  running but that nobody listens to yet.
\<close>

definition writer_start :: "growth \<Rightarrow> nat option \<Rightarrow> writer \<Rightarrow> ConnStats \<Rightarrow> bufPool \<Rightarrow> writerState outcome \<times> bufPool" where
  "writer_start grw ch w stat st =
     (case newMessageEncoder grw ch w stat st of
        (Ret e, st') \<Rightarrow> (Ret \<lparr>ws_e = e, ws_f = newFlusher\<rparr>, st')
      | (Fail err, st') \<Rightarrow> (Fail err, st')
      | (Panic s, st') \<Rightarrow> (Panic s, st'))"

text \<open>The deferred \<open>e.Close()\<close> gives the encoder's buffer back.\<close>

definition writer_return :: "writerState \<Rightarrow> bufPool \<Rightarrow> bufPool" where
  "writer_return w st = encoder_Close (ws_e w) st"

section \<open>A flush is always on its way\<close>

text \<open>
  The states of a writer: it starts, it goes from round to round, and its timer may expire
  between any two rounds. A step is labelled with whether it encoded a message.
\<close>

inductive loop_reach :: "(writerState \<Rightarrow> bool) \<Rightarrow> (bool \<Rightarrow> writerState \<Rightarrow> writerState \<Rightarrow> bool) \<Rightarrow> writerState \<Rightarrow> bool"
  for start step where
  begin_loop: "start w \<Longrightarrow> loop_reach start step w"
| round: "loop_reach start step w \<Longrightarrow> step b w w' \<Longrightarrow> loop_reach start step w'"
| tick: "loop_reach start step w \<Longrightarrow> loop_reach start step (w\<lparr>ws_f := flush_tick (ws_f w)\<rparr>)"

abbreviation buffered :: "writerState \<Rightarrow> byte list" where
  "buffered w \<equiv> bb_data (me_buf (ws_e w))"

text \<open>
  An armed timer has not ticked yet; whoever listens to the timer will hear it; and whoever
  does not listen has nothing to flush.
\<close>

definition flush_inv :: "writerState \<Rightarrow> bool" where
  "flush_inv w \<longleftrightarrow> timer_ok (fl_t (ws_f w)) \<and>
     (case fl_chan (ws_f w) of
        None \<Rightarrow> buffered w = []
      | Some ClosedFlushChan \<Rightarrow> True
      | Some TimerC \<Rightarrow> tm_active (fl_t (ws_f w)) \<or> tm_chan (fl_t (ws_f w)))"

lemma flush_arm_inv: "timer_ok (fl_t (ws_f w)) \<Longrightarrow> ws_f w' = flush_arm delay (ws_f w) \<Longrightarrow>
    flush_inv w \<Longrightarrow> flush_inv w'"
  by (auto simp: flush_inv_def flush_arm_def getFlushChan_def timer_defs
      split: option.splits flushChan.splits prod.splits if_splits)

lemma flush_disarm_inv: "ws_f w' = flush_disarm (flush_receive (ws_f w)) \<Longrightarrow> buffered w' = [] \<Longrightarrow>
    flush_inv w \<Longrightarrow> flush_inv w'"
  by (auto simp: flush_inv_def flush_disarm_def flush_receive_def timer_defs)

lemma flush_tick_inv: "flush_inv w \<Longrightarrow> flush_inv (w\<lparr>ws_f := flush_tick (ws_f w)\<rparr>)"
  by (auto simp: flush_inv_def flush_tick_def timer_defs split: option.splits flushChan.splits)

text \<open>
  What the two loops have in common: a round either arms the flush channel if it was not, or
  it has received from it, has emptied the buffer and forgets the channel.
\<close>

locale flush_loop =
  fixes delay :: int
    and start :: "writerState \<Rightarrow> bool"
    and step :: "bool \<Rightarrow> writerState \<Rightarrow> writerState \<Rightarrow> bool"
  assumes starts: "start w \<Longrightarrow> buffered w = [] \<and> ws_f w = newFlusher"
    and rounds: "step b w w' \<Longrightarrow> ws_f w' = flush_arm delay (ws_f w) \<or>
      flush_ready (ws_f w) \<and> ws_f w' = flush_disarm (flush_receive (ws_f w)) \<and> buffered w' = []"
begin

lemma reach_inv: "loop_reach start step w \<Longrightarrow> flush_inv w"
proof (induction rule: loop_reach.induct)
  case (begin_loop w)
  then show ?case using starts by (auto simp: flush_inv_def newFlusher_def timer_defs)
next
  case (round w b w')
  then have "timer_ok (fl_t (ws_f w))" by (simp add: flush_inv_def)
  then show ?case using rounds [OF round.hyps(2)] round.IH flush_arm_inv flush_disarm_inv by metis
next
  case (tick w)
  then show ?case by (simp add: flush_tick_inv)
qed

lemma flush_coming:
  assumes "loop_reach start step w" "buffered w \<noteq> []"
  shows "flush_ready (ws_f w) \<or> flush_ready (flush_tick (ws_f w))"
  using reach_inv [OF assms(1)] assms(2)
  by (auto simp: flush_inv_def flush_ready_def flush_tick_def expire_def split: option.splits flushChan.splits)

end

section \<open>Both loops are flush loops\<close>

definition writer_started :: "growth \<Rightarrow> writerState \<Rightarrow> bool" where
  "writer_started grw w \<longleftrightarrow> (\<exists>ch cw stat st st' live.
     pool_inv st live \<and> writer_start grw ch cw stat st = (Ret w, st'))"

definition sends_message :: "branch \<Rightarrow> 'h Client \<Rightarrow> clientConn \<Rightarrow> bool" where
  "sends_message br c cc \<longleftrightarrow>
     br = TakeMessage \<and> (case clientWriter_take c cc of Some (Ret (WSend _), _, _) \<Rightarrow> True | _ \<Rightarrow> False)"

text \<open>A round of the loop, whatever the rest of the program has made of the shared state.\<close>

definition client_steps :: "('h, 'ty) headers_impl \<Rightarrow> ('h, 'ty) registry \<Rightarrow> growth \<Rightarrow> int \<Rightarrow>
    bool \<Rightarrow> writerState \<Rightarrow> writerState \<Rightarrow> bool" where
  "client_steps H reg grw delay b w w' \<longleftrightarrow> (\<exists>stopped br c cc wd c' cc' wd'.
     clientWriter_round H reg grw delay stopped br w c cc wd = Some (Again, w', c', cc', wd') \<and>
     b = sends_message br c cc)"

definition server_steps :: "('h, 'ty) headers_impl \<Rightarrow> ('h, 'ty) registry \<Rightarrow> growth \<Rightarrow> int \<Rightarrow>
    bool \<Rightarrow> writerState \<Rightarrow> writerState \<Rightarrow> bool" where
  "server_steps H reg grw delay b w w' \<longleftrightarrow> (\<exists>br s sc wd lg s' sc' wd'.
     serverWriter_round H reg grw delay br w s sc wd = Some (Again, lg, w', s', sc', wd') \<and>
     b = (br = TakeMessage))"

lemma writer_started_clean:
  assumes "writer_started grw w"
  shows "buffered w = [] \<and> ws_f w = newFlusher"
proof -
  from assms obtain ch cw stat st st' live where
    i: "pool_inv st live" and W: "writer_start grw ch cw stat st = (Ret w, st')"
    by (auto simp: writer_started_def)
  then obtain e where e: "newMessageEncoder grw ch cw stat st = (Ret e, st')" "w = \<lparr>ws_e = e, ws_f = newFlusher\<rparr>"
    by (auto simp: writer_start_def split: prod.splits outcome.splits)
  then obtain a where a: "bufferAllocator grw ch (int headerBufferSize) st = (Ret a, st')"
    "e = \<lparr>me_w = cw, me_addr = a, me_buf = bp_heap st' a, me_stat = stat\<rparr>"
    by (auto simp: newMessageEncoder_def split: prod.splits outcome.splits)
  obtain st1 where G: "pool_Get ch st = (a, st1)"
    "st' = st1\<lparr>bp_heap := (bp_heap st1)(a := bb_grow grw (nat (int headerBufferSize)) (bp_heap st1 a))\<rparr>"
    by (rule bufferAllocator_Ret [OF a(1)])
  have "bb_data (bp_heap st' a) = []" using pool_Get_inv [OF i G(1)] G(2) by auto
  with e(2) a(2) show ?thesis by simp
qed

lemma Flush_Ret: "Flush e = (Ret u, e') \<Longrightarrow> bb_data (me_buf e') = []"
  by (auto simp: Flush_def bb_Reset_def split: if_splits prod.splits outcome.splits)

lemma clientWriter_flush_Ret: "clientWriter_flush e c = (Ret u, e', c') \<Longrightarrow> bb_data (me_buf e') = []"
  by (auto simp: clientWriter_flush_def dest: Flush_Ret split: prod.splits outcome.splits)

lemma serverWriter_flush_Ret: "serverWriter_flush e s = (Ret u, e', s') \<Longrightarrow> bb_data (me_buf e') = []"
  by (auto simp: serverWriter_flush_def dest: Flush_Ret split: prod.splits outcome.splits)

lemma clientWriter_round_flush:
  assumes "clientWriter_round H reg grw delay stopped br w c cc wd = Some (Again, w', c', cc', wd')"
  shows "ws_f w' = flush_arm delay (ws_f w) \<and> br = TakeMessage \<or>
    flush_ready (ws_f w) \<and> ws_f w' = flush_disarm (flush_receive (ws_f w)) \<and> buffered w' = [] \<and> br = TakeFlush"
proof (cases br)
  case TakeMessage
  then show ?thesis using assms
    by (auto simp: clientWriter_round_def Let_def split: if_splits option.splits outcome.splits taken.splits prod.splits)
next
  case TakeFlush
  then show ?thesis using assms clientWriter_flush_Ret
    by (auto simp: clientWriter_round_def Let_def split: if_splits outcome.splits prod.splits)
next
  case TakeStop
  then show ?thesis using assms by (auto simp: clientWriter_round_def split: if_splits)
qed

lemma serverWriter_round_flush:
  assumes "serverWriter_round H reg grw delay br w s sc wd = Some (Again, lg, w', s', sc', wd')"
  shows "ws_f w' = flush_arm delay (ws_f w) \<and> br = TakeMessage \<or>
    flush_ready (ws_f w) \<and> ws_f w' = flush_disarm (flush_receive (ws_f w)) \<and> buffered w' = [] \<and> br = TakeFlush"
proof (cases br)
  case TakeMessage
  then show ?thesis using assms
    by (auto simp: serverWriter_round_def Let_def split: option.splits outcome.splits prod.splits)
next
  case TakeFlush
  then show ?thesis using assms serverWriter_flush_Ret
    by (auto simp: serverWriter_round_def Let_def split: if_splits outcome.splits prod.splits)
next
  case TakeStop
  then show ?thesis using assms by (auto simp: serverWriter_round_def split: if_splits)
qed

interpretation cwl: flush_loop delay "writer_started grw" "client_steps H reg grw delay" for H reg grw delay
  by unfold_locales (auto simp: writer_started_clean client_steps_def dest: clientWriter_round_flush)

interpretation swl: flush_loop delay "writer_started grw" "server_steps H reg grw delay" for H reg grw delay
  by unfold_locales (auto simp: writer_started_clean server_steps_def dest: serverWriter_round_flush)

lemma Flush_room:
  assumes "conn_room (length (bb_data (me_buf e))) (me_w e)"
  shows "\<exists>e'. Flush e = (Ret (), e') \<and> wsent (me_w e') = stream e \<and> bb_data (me_buf e') = []"
  using conn_Write_room [OF assms, of "bb_data (me_buf e)"]
  by (cases "bb_data (me_buf e) = []") (auto simp: Flush_def stream_def bb_WriteTo_def bb_Reset_def)

lemma Flush_room_stat:
  assumes "conn_room (length (bb_data (me_buf e))) (me_w e)"
  shows "\<exists>e'. Flush (e\<lparr>me_stat := st\<rparr>) = (Ret (), e') \<and> wsent (me_w e') = stream e \<and> bb_data (me_buf e') = []"
  using Flush_room [of "e\<lparr>me_stat := st\<rparr>"] assms by (simp add: stream_def)

text \<open>The flush branch of a writer whose flush channel is ready, on a connection that takes the bytes.\<close>

lemma client_flush_branch:
  assumes "flush_ready (ws_f w)" "conn_room (length (buffered w)) (me_w (ws_e w))"
  shows "\<exists>w' c'. clientWriter_round H reg grw delay stopped TakeFlush w c cc wd = Some (Again, w', c', cc, wd) \<and>
    wsent (me_w (ws_e w')) = stream (ws_e w) \<and> buffered w' = []"
  using Flush_room_stat [OF assms(2), of "c_Stats c"] assms(1)
  by (auto simp: clientWriter_round_def clientWriter_flush_def)

lemma server_flush_branch:
  assumes "flush_ready (ws_f w)" "conn_room (length (buffered w)) (me_w (ws_e w))"
  shows "\<exists>w' s'. serverWriter_round H reg grw delay TakeFlush w s sc wd = Some (Again, None, w', s', sc, wd) \<and>
    wsent (me_w (ws_e w')) = stream (ws_e w) \<and> buffered w' = []"
  using Flush_room_stat [OF assms(2), of "s_Stats s"] assms(1)
  by (auto simp: serverWriter_round_def serverWriter_flush_def)

text \<open>
  C9. No request gets stuck in the client's buffer: in every state of the writer's loop with
  bytes in the buffer, the flush branch of the \<open>select\<close> is ready now or after the timer, which
  is running, has expired; and taking it, on a connection that accepts the bytes, sends
  everything buffered and goes on.
\<close>

theorem clientWriter_flushes:
  assumes "loop_reach (writer_started grw) (client_steps H reg grw delay) w"
    and "buffered w \<noteq> []" and "conn_room (length (buffered w)) (me_w (ws_e w))"
  shows "\<exists>w1 \<in> {w, w\<lparr>ws_f := flush_tick (ws_f w)\<rparr>}. \<exists>w2 c'.
    clientWriter_round H reg grw delay stopped TakeFlush w1 c cc wd = Some (Again, w2, c', cc, wd) \<and>
    wsent (me_w (ws_e w2)) = stream (ws_e w) \<and> buffered w2 = []"
proof -
  from cwl.flush_coming [OF assms(1,2)] show ?thesis
  proof
    assume "flush_ready (ws_f w)"
    from client_flush_branch [OF this assms(3)] show ?thesis by blast
  next
    assume "flush_ready (flush_tick (ws_f w))"
    then have "flush_ready (ws_f (w\<lparr>ws_f := flush_tick (ws_f w)\<rparr>))" by simp
    from client_flush_branch [OF this] assms(3) show ?thesis
      by (intro bexI [of _ "w\<lparr>ws_f := flush_tick (ws_f w)\<rparr>"]) auto
  qed
qed

text \<open>
  A client with one queued request that expects no response, and its writer after it has
  encoded it.
\<close>

definition demo_client :: "test_headers Client" where
  "demo_client = (newClient 2)\<lparr>c_requests := [0], c_next := 1\<rparr>"

definition demo_writer :: "nat option \<Rightarrow> writerState" where
  "demo_writer lim = \<lparr>ws_e = \<lparr>me_w = \<lparr>wsent = [], wlimit = lim, werr = Errno EPIPE, wconn = False\<rparr>, me_addr = 0,
     me_buf = \<lparr>bb_arr = 1, bb_data = [], bb_cap = 4096\<rparr>, me_stat = zeroStats\<rparr>, ws_f = newFlusher\<rparr>"

definition demo_round :: "nat option \<Rightarrow> int \<Rightarrow> round_end \<times> writerState \<times> test_headers Client \<times> clientConn \<times> spliceWorld" where
  "demo_round lim delay = the (clientWriter_round testH testRegistry (\<lambda>n c. n) delay False TakeMessage (demo_writer lim) demo_client newConn demoWorld)"

lemma demo_writer_started: "writer_started (\<lambda>n c. n) (demo_writer lim)"
proof -
  have "writer_start (\<lambda>n c. n) None \<lparr>wsent = [], wlimit = lim, werr = Errno EPIPE, wconn = False\<rparr> zeroStats emptyPool =
      (Ret (demo_writer lim), snd (bufferAllocator (\<lambda>n c. n) None (int headerBufferSize) emptyPool))"
    by (simp add: writer_start_def newMessageEncoder_def bufferAllocator_def pool_Get_def emptyPool_def bb_Grow_def
        bb_grow_def newBuffer_def headerBufferSize_def demo_writer_def)
  then show ?thesis unfolding writer_started_def using emptyPool_inv by blast
qed

lemma demo_round_again:
  "clientWriter_round testH testRegistry (\<lambda>n c. n) delay False TakeMessage (demo_writer lim) demo_client newConn demoWorld =
     Some (Again, snd (demo_round lim delay))" "length (buffered (fst (snd (demo_round lim delay)))) = 28"
  "me_w (ws_e (fst (snd (demo_round lim delay)))) = me_w (ws_e (demo_writer lim))"
  by (simp_all add: demo_round_def clientWriter_round_def demo_client_def newClient_def clientWriter_take_def isCanceled_def
     zeroResult_def clientWriter_send_def EncodeRequest_def wire_request_def zeroReq_def emptyBody_def flush_if_def encodeRequestHeaders_def
     demo_writer_def headerBufferSize_def requestStartLineSize_def put_headers_def encode_def bb_Write_def bb_grow_def bb_poke_def bb_slice_at_def Let_def)

theorem clientWriter_flushes_witness:
  "\<exists>w1 w2 c'. clientWriter_round testH testRegistry (\<lambda>n c. n) 5 False TakeFlush w1 demo_client newConn demoWorld =
     Some (Again, w2, c', newConn, demoWorld) \<and> length (wsent (me_w (ws_e w2))) = 28"
proof -
  let ?w = "fst (snd (demo_round None 5))"
  have "client_steps testH testRegistry (\<lambda>n c. n) 5 (sends_message TakeMessage demo_client newConn) (demo_writer None) ?w"
    unfolding client_steps_def using demo_round_again(1) [of 5 None] by (metis prod.collapse)
  with loop_reach.begin_loop [of "writer_started (\<lambda>n c. n)", OF demo_writer_started] have
    r: "loop_reach (writer_started (\<lambda>n c. n)) (client_steps testH testRegistry (\<lambda>n c. n) 5) ?w"
    by (blast intro: loop_reach.round)
  have b: "buffered ?w \<noteq> []" using demo_round_again(2) [of None 5] by auto
  have c: "conn_room (length (buffered ?w)) (me_w (ws_e ?w))"
    by (simp add: demo_round_again(3) demo_writer_def conn_room_def)
  have "length (stream (ws_e ?w)) = 28"
    using demo_round_again(2,3) [of None 5] by (simp add: stream_def demo_writer_def)
  with clientWriter_flushes [OF r b c, of False demo_client newConn demoWorld] show ?thesis by auto metis+
qed

text \<open>The same for the responses in the server's buffer.\<close>

lemma serverWriter_flushes:
  assumes "loop_reach (writer_started grw) (server_steps H reg grw delay) w"
    and "buffered w \<noteq> []" and "conn_room (length (buffered w)) (me_w (ws_e w))"
  shows "\<exists>w1 \<in> {w, w\<lparr>ws_f := flush_tick (ws_f w)\<rparr>}. \<exists>w2 s'.
    serverWriter_round H reg grw delay TakeFlush w1 s sc wd = Some (Again, None, w2, s', sc, wd) \<and>
    wsent (me_w (ws_e w2)) = stream (ws_e w) \<and> buffered w2 = []"
proof -
  from swl.flush_coming [OF assms(1,2)] show ?thesis
  proof
    assume "flush_ready (ws_f w)"
    from server_flush_branch [OF this assms(3)] show ?thesis by blast
  next
    assume "flush_ready (flush_tick (ws_f w))"
    then have "flush_ready (ws_f (w\<lparr>ws_f := flush_tick (ws_f w)\<rparr>))" by simp
    from server_flush_branch [OF this] assms(3) show ?thesis
      by (intro bexI [of _ "w\<lparr>ws_f := flush_tick (ws_f w)\<rparr>"]) auto
  qed
qed

definition demo_sround :: "nat option \<Rightarrow> int \<Rightarrow> round_end \<times> goerr option \<times> writerState \<times> test_headers serverState \<times> test_headers serverConn \<times> spliceWorld" where
  "demo_sround lim delay = the (serverWriter_round testH testRegistry (\<lambda>n c. n) delay TakeMessage (demo_writer lim)
     ((newServerState 1)\<lparr>s_next := 1\<rparr>) ((newServerConn 1)\<lparr>sc_responses := [0]\<rparr>) demoWorld)"

lemma demo_sround_again:
  "serverWriter_round testH testRegistry (\<lambda>n c. n) delay TakeMessage (demo_writer lim)
     ((newServerState 1)\<lparr>s_next := 1\<rparr>) ((newServerConn 1)\<lparr>sc_responses := [0]\<rparr>) demoWorld =
     Some (Again, snd (demo_sround lim delay))" "length (buffered (fst (snd (snd (demo_sround lim delay))))) = 28"
  "me_w (ws_e (fst (snd (snd (demo_sround lim delay))))) = me_w (ws_e (demo_writer lim))"
  by (simp_all add: demo_sround_def serverWriter_round_def newServerState_def newServerConn_def serverWriter_take_def
     zeroMessage_def zeroWire_def serverWriter_send_def EncodeResponse_def emptyBody_def flush_if_def encodeResponseHeaders_def
     demo_writer_def headerBufferSize_def responseStartLineSize_def put_headers_def encode_def bb_Write_def bb_grow_def
     bb_poke_def bb_slice_at_def set_message_def putMessage_def Let_def)

lemma serverWriter_flushes_witness:
  "\<exists>w1 w2 s'. serverWriter_round testH testRegistry (\<lambda>n c. n) (- 1) TakeFlush w1 (newServerState 1) (newServerConn 1) demoWorld =
     Some (Again, None, w2, s', newServerConn 1, demoWorld) \<and> length (wsent (me_w (ws_e w2))) = 28"
proof -
  let ?w = "fst (snd (snd (demo_sround None (- 1))))"
  have "server_steps testH testRegistry (\<lambda>n c. n) (- 1) (TakeMessage = TakeMessage) (demo_writer None) ?w"
    unfolding server_steps_def using demo_sround_again(1) [of "- 1" None] by (metis prod.collapse)
  with loop_reach.begin_loop [of "writer_started (\<lambda>n c. n)", OF demo_writer_started] have
    r: "loop_reach (writer_started (\<lambda>n c. n)) (server_steps testH testRegistry (\<lambda>n c. n) (- 1)) ?w"
    by (blast intro: loop_reach.round)
  have b: "buffered ?w \<noteq> []" using demo_sround_again(2) [of None "- 1"] by auto
  have c: "conn_room (length (buffered ?w)) (me_w (ws_e ?w))"
    by (simp add: demo_sround_again(3) demo_writer_def conn_room_def)
  have "length (stream (ws_e ?w)) = 28"
    using demo_sround_again(2,3) [of None "- 1"] by (simp add: stream_def demo_writer_def)
  with serverWriter_flushes [OF r b c, of "newServerState 1" "newServerConn 1" demoWorld] show ?thesis by auto metis+
qed

section \<open>A writer on a closed connection\<close>

text \<open>
  The first \<open>select\<close> prefers messages to \<open>stopChan\<close>, so a writer whose connection has been
  closed goes on while there are messages. What stops it is the buffer: it is flushed when it
  is full, and that fails. \<open>loop_run\<close> records for each round whether it encoded a message.
\<close>

definition dead :: "writerState \<Rightarrow> bool" where
  "dead w \<longleftrightarrow> wlimit (me_w (ws_e w)) = Some 0"

inductive loop_run :: "(bool \<Rightarrow> writerState \<Rightarrow> writerState \<Rightarrow> bool) \<Rightarrow> writerState \<Rightarrow> bool list \<Rightarrow> writerState \<Rightarrow> bool"
  for step where
  here: "loop_run step w [] w"
| ahead: "step b w w1 \<Longrightarrow> loop_run step w1 bs w' \<Longrightarrow> loop_run step w (b # bs) w'"
| ticks: "loop_run step (w\<lparr>ws_f := flush_tick (ws_f w)\<rparr>) bs w' \<Longrightarrow> loop_run step w bs w'"

locale closed_loop = flush_loop +
  assumes dead_round: "step b w w' \<Longrightarrow> dead w \<Longrightarrow> dead w' \<and>
    (if b then length (buffered w) + 28 \<le> length (buffered w') \<and> length (buffered w') < headerBufferSize
     else length (buffered w') = length (buffered w))"
begin

lemma dead_run:
  assumes "loop_run step w bs w'" "dead w"
  shows "length (buffered w) + 28 * length (filter id bs) \<le> length (buffered w') \<and>
    (if True \<in> set bs then length (buffered w') < headerBufferSize else length (buffered w') = length (buffered w))"
  using assms
proof (induction rule: loop_run.induct)
  case (ahead b w w1 bs w')
  from dead_round [OF ahead.hyps(1) ahead.prems] ahead.IH show ?case
    by (cases b) (auto split: if_splits)
qed (auto simp: dead_def)

lemma dead_run_bound:
  assumes "loop_run step w bs w'" "dead w"
  shows "length (filter id bs) \<le> 146"
proof (cases "True \<in> set bs")
  case True
  then show ?thesis using dead_run [OF assms] by (simp add: headerBufferSize_def)
next
  case False
  then have "filter id bs = []" by (auto simp: filter_empty_conv)
  then show ?thesis by simp
qed

end

text \<open>On a connection that takes nothing only an empty buffer can be flushed.\<close>

lemma dead_Flush:
  assumes "Flush e = (Ret u, e')" "wlimit (me_w e) = Some 0"
  shows "bb_data (me_buf e) = [] \<and> e' = e"
  using assms by (auto simp: Flush_def bb_WriteTo_def conn_Write_def split: if_splits)

lemma dead_flush_if:
  assumes "flush_if c e = (Ret u, e')" "wlimit (me_w e) = Some 0"
  shows "(c \<longrightarrow> bb_data (me_buf e) = []) \<and> e' = e"
  using assms dead_Flush by (auto simp: flush_if_def split: if_splits)

lemma length_poke: "i + length bs \<le> length (bb_data b) \<Longrightarrow> length (bb_data (bb_poke (x, i) bs b)) = length (bb_data b)"
  by (auto simp: bb_poke_def)

lemma put_headers_grows: "put_headers H reg grw h b = (x, b') \<Longrightarrow> length (bb_data b) \<le> length (bb_data b')"
  by (auto simp: put_headers_def split: option.splits if_splits prod.splits outcome.splits)

lemma encodeRequestHeaders_grows:
  assumes "encodeRequestHeaders H reg grw req e = (Ret u, e')"
  shows "length (bb_data (me_buf e)) + 28 \<le> length (bb_data (me_buf e')) \<and> me_w e' = me_w e"
proof -
  let ?b1 = "snd (bb_Write grw (replicate requestStartLineSize 0) (me_buf e))"
  obtain n b2 where P: "put_headers H reg grw (rq_Headers req) ?b1 = (Ret n, b2)"
    using assms by (auto simp: encodeRequestHeaders_def Let_def split: prod.splits outcome.splits)
  have "length (bb_data (me_buf e)) + 28 \<le> length (bb_data b2)"
    using put_headers_grows [OF P] by (simp add: requestStartLineSize_def)
  then show ?thesis using assms P
    by (auto simp: encodeRequestHeaders_def Let_def bb_slice_at_def length_poke requestStartLineSize_def)
qed

lemma encodeResponseHeaders_grows:
  assumes "encodeResponseHeaders H reg grw resp e = (Ret u, e')"
  shows "length (bb_data (me_buf e)) + 28 \<le> length (bb_data (me_buf e')) \<and> me_w e' = me_w e"
proof -
  let ?b1 = "snd (bb_Write grw (replicate responseStartLineSize 0) (me_buf e))"
  obtain n b2 where P: "put_headers H reg grw (rs_Headers resp) ?b1 = (Ret n, b2)"
    using assms by (auto simp: encodeResponseHeaders_def Let_def split: prod.splits outcome.splits)
  have "length (bb_data (me_buf e)) + 28 \<le> length (bb_data b2)"
    using put_headers_grows [OF P] by (simp add: responseStartLineSize_def)
  then show ?thesis using assms P
    by (auto simp: encodeResponseHeaders_def Let_def bb_slice_at_def length_poke responseStartLineSize_def)
qed

lemma dead_encode:
  assumes "encode b e wd = (Ret u, b', e', wd')" "wlimit (me_w e) = Some 0" "bb_data (me_buf e) \<noteq> []"
  shows "me_w e' = me_w e \<and> me_buf e' = me_buf e"
proof -
  have "\<not> (b_Reader b \<noteq> None \<and> b_Size b \<noteq> 0)"
  proof
    assume "b_Reader b \<noteq> None \<and> b_Size b \<noteq> 0"
    then obtain e1 u1 where "Flush e = (Ret u1, e1)"
      using assms(1) by (auto simp: encode_def split: prod.splits outcome.splits)
    with dead_Flush assms(2,3) show False by blast
  qed
  with assms(1) show ?thesis by (auto simp: encode_def split: option.splits if_splits)
qed

lemma dead_message:
  assumes h: "flush_if c e = (Ret u1, e1)" "length (bb_data (me_buf e1)) + 28 \<le> length (bb_data (me_buf e2)) \<and> me_w e2 = me_w e1"
    and f: "flush_if (headerBufferSize \<le> length (bb_data (me_buf e2))) e2 = (Ret u2, e3)"
    and b: "encode b e3 wd = (Ret u3, b', e4, wd')" and d: "wlimit (me_w e) = Some 0"
  shows "wlimit (me_w e4) = Some 0 \<and> length (bb_data (me_buf e)) + 28 \<le> length (bb_data (me_buf e4)) \<and>
    length (bb_data (me_buf e4)) < headerBufferSize"
proof -
  have e1: "e1 = e" using dead_flush_if [OF h(1) d] by simp
  have d2: "wlimit (me_w e2) = Some 0" "bb_data (me_buf e2) \<noteq> []" using h(2) d e1 by auto
  from dead_flush_if [OF f d2(1)] d2(2) have e3: "e3 = e2" "length (bb_data (me_buf e2)) < headerBufferSize" by auto
  from dead_encode [OF b] d2 e3 h(2) e1 show ?thesis by simp
qed

lemma dead_EncodeRequest:
  assumes "EncodeRequest H reg grw req e wd = (Ret u, req', e', wd')" "wlimit (me_w e) = Some 0"
  shows "wlimit (me_w e') = Some 0 \<and> length (bb_data (me_buf e)) + 28 \<le> length (bb_data (me_buf e')) \<and>
    length (bb_data (me_buf e')) < headerBufferSize"
proof -
  from assms(1) obtain u1 e1 u2 e2 u3 e3 b where
    "flush_if (b_Size (rq_Body req) > 0 \<and> b_Reader (rq_Body req) \<noteq> None) e = (Ret u1, e1)"
    and h: "encodeRequestHeaders H reg grw req e1 = (Ret u2, e2)"
    and "flush_if (headerBufferSize \<le> length (bb_data (me_buf e2))) e2 = (Ret u3, e3)"
    and "encode (rq_Body req) e3 wd = (Ret u, b, e', wd')"
    by (auto simp: EncodeRequest_def split: prod.splits outcome.splits)
  from dead_message [OF this(1) encodeRequestHeaders_grows [OF h] this(3,4) assms(2)] show ?thesis .
qed

lemma dead_EncodeResponse:
  assumes "EncodeResponse H reg grw req e wd = (Ret u, req', e', wd')" "wlimit (me_w e) = Some 0"
  shows "wlimit (me_w e') = Some 0 \<and> length (bb_data (me_buf e)) + 28 \<le> length (bb_data (me_buf e')) \<and>
    length (bb_data (me_buf e')) < headerBufferSize"
proof -
  from assms(1) obtain u1 e1 u2 e2 u3 e3 b where
    "flush_if (b_Size (rs_Body req) > 0 \<and> b_Reader (rs_Body req) \<noteq> None) e = (Ret u1, e1)"
    and h: "encodeResponseHeaders H reg grw req e1 = (Ret u2, e2)"
    and "flush_if (headerBufferSize \<le> length (bb_data (me_buf e2))) e2 = (Ret u3, e3)"
    and "encode (rs_Body req) e3 wd = (Ret u, b, e', wd')"
    by (auto simp: EncodeResponse_def split: prod.splits outcome.splits)
  from dead_message [OF this(1) encodeResponseHeaders_grows [OF h] this(3,4) assms(2)] show ?thesis .
qed

lemma client_dead_round:
  assumes "clientWriter_round H reg grw delay stopped br w c cc wd = Some (Again, w', c', cc', wd')" "dead w"
  shows "dead w' \<and> (if sends_message br c cc
    then length (buffered w) + 28 \<le> length (buffered w') \<and> length (buffered w') < headerBufferSize
    else length (buffered w') = length (buffered w))"
proof (cases "sends_message br c cc")
  case True
  then obtain wr c1 cc1 where "clientWriter_take c cc = Some (Ret (WSend wr), c1, cc1)" "br = TakeMessage"
    by (auto simp: sends_message_def split: option.splits prod.splits outcome.splits taken.splits)
  with assms(1) obtain u e c2 where "clientWriter_send H reg grw wr (ws_e w) c1 wd = (Ret u, e, c2, wd')" "ws_e w' = e"
    by (auto simp: clientWriter_round_def Let_def split: if_splits outcome.splits prod.splits)
  then obtain wr' e0 where "EncodeRequest H reg grw wr ((ws_e w)\<lparr>me_stat := c_Stats c1\<rparr>) wd = (Ret u, wr', ws_e w', wd')"
    by (auto simp: clientWriter_send_def split: outcome.splits prod.splits)
  from dead_EncodeRequest [OF this] assms(2) True show ?thesis by (simp add: dead_def)
next
  case False
  show ?thesis
  proof (cases br)
    case TakeMessage
    with assms False show ?thesis
      by (auto simp: clientWriter_round_def dead_def sends_message_def Let_def
          split: if_splits option.splits outcome.splits taken.splits prod.splits)
  next
    case TakeFlush
    with assms(1) obtain u e where F: "Flush ((ws_e w)\<lparr>me_stat := c_Stats c\<rparr>) = (Ret u, e)" "ws_e w' = e"
      by (auto simp: clientWriter_round_def clientWriter_flush_def Let_def split: if_splits outcome.splits prod.splits)
    from dead_Flush [OF F(1)] assms(2) F(2) False show ?thesis by (simp add: dead_def)
  next
    case TakeStop
    with assms show ?thesis by (auto simp: clientWriter_round_def split: if_splits)
  qed
qed

lemma server_dead_round:
  assumes "serverWriter_round H reg grw delay br w s sc wd = Some (Again, lg, w', s', sc', wd')" "dead w"
  shows "dead w' \<and> (if br = TakeMessage
    then length (buffered w) + 28 \<le> length (buffered w') \<and> length (buffered w') < headerBufferSize
    else length (buffered w') = length (buffered w))"
proof (cases br)
  case TakeMessage
  with assms(1) obtain wr s1 sc1 u s2 sc2 where
    "serverWriter_send H reg grw wr (ws_e w) s1 sc1 wd = (Ret u, ws_e w', s2, sc2, wd')"
    by (auto simp: serverWriter_round_def Let_def split: option.splits outcome.splits prod.splits)
  then obtain wr' where "EncodeResponse H reg grw wr ((ws_e w)\<lparr>me_stat := s_Stats s1\<rparr>) wd = (Ret u, wr', ws_e w', wd')"
    by (auto simp: serverWriter_send_def split: outcome.splits prod.splits)
  from dead_EncodeResponse [OF this] assms(2) TakeMessage show ?thesis by (simp add: dead_def)
next
  case TakeFlush
  with assms(1) obtain u e where F: "Flush ((ws_e w)\<lparr>me_stat := s_Stats s\<rparr>) = (Ret u, e)" "ws_e w' = e"
    by (auto simp: serverWriter_round_def serverWriter_flush_def Let_def split: if_splits outcome.splits prod.splits)
  from dead_Flush [OF F(1)] assms(2) F(2) TakeFlush show ?thesis by (simp add: dead_def)
next
  case TakeStop
  with assms show ?thesis by (auto simp: serverWriter_round_def split: if_splits)
qed

interpretation ccl: closed_loop delay "writer_started grw" "client_steps H reg grw delay" for H reg grw delay
  by unfold_locales (use client_dead_round in \<open>fastforce simp: client_steps_def\<close>)

interpretation scl: closed_loop delay "writer_started grw" "server_steps H reg grw delay" for H reg grw delay
  by unfold_locales (use server_dead_round in \<open>fastforce simp: server_steps_def\<close>)

text \<open>
  C25. A closed connection stops its writers: however many messages keep arriving, the writer
  of a client or a server encodes at most 146 of them on a connection that takes no more
  bytes; it cannot go on past a later one.
\<close>

theorem writers_stop_on_closed_connection:
  assumes "dead w"
  shows "(loop_run (client_steps H reg grw delay) w bs w' \<longrightarrow> length (filter id bs) \<le> 146) \<and>
    (loop_run (server_steps H reg grw delay) w bs w' \<longrightarrow> length (filter id bs) \<le> 146)"
  using ccl.dead_run_bound scl.dead_run_bound assms by blast

theorem writers_stop_on_closed_connection_witness:
  "\<exists>w'. loop_run (client_steps testH testRegistry (\<lambda>n c. n) 5) (demo_writer (Some 0)) [True] w' \<and>
     length (filter id [True]) \<le> 146"
proof -
  let ?w = "fst (snd (demo_round (Some 0) 5))"
  have s: "sends_message TakeMessage demo_client newConn"
    by (simp add: sends_message_def clientWriter_take_def demo_client_def newClient_def isCanceled_def zeroResult_def)
  have "client_steps testH testRegistry (\<lambda>n c. n) 5 (sends_message TakeMessage demo_client newConn) (demo_writer (Some 0)) ?w"
    unfolding client_steps_def using demo_round_again(1) [of 5 "Some 0"] by (metis prod.collapse)
  with s have R: "loop_run (client_steps testH testRegistry (\<lambda>n c. n) 5) (demo_writer (Some 0)) [True] ?w"
    by (auto intro: loop_run.intros)
  moreover have "dead (demo_writer (Some 0))" by (simp add: dead_def demo_writer_def)
  ultimately show ?thesis using writers_stop_on_closed_connection by blast
qed

end
