(* ===== verification/Request_Stream.thy ===== *)
theory Request_Stream
  imports Rpc_Roundtrip Writer_Loops
begin

text \<open>
  Streams of several requests: encoder and decoder over a whole connection, and the client's
  queue drained by the loop of its writer.
\<close>

section \<open>Streams of requests\<close>

text \<open>
  The wire image of a request, a client that encodes a list of requests, and a server that
  decodes as many; the pool's choices are an argument, one per message.
\<close>

definition frame :: "('h, 'ty) headers_impl \<Rightarrow> ('h, 'ty) registry \<Rightarrow> 'h wireRequest \<Rightarrow> byte list" where
  "frame H reg req = request_head H reg req @ body_bytes (rq_Body req)"

fun EncodeRequests :: "('h, 'ty) headers_impl \<Rightarrow> ('h, 'ty) registry \<Rightarrow> growth \<Rightarrow> 'h wireRequest list \<Rightarrow>
    messageEncoder \<Rightarrow> spliceWorld \<Rightarrow> unit outcome \<times> messageEncoder \<times> spliceWorld" where
  "EncodeRequests H reg grw [] e wd = (Ret (), e, wd)"
| "EncodeRequests H reg grw (req # reqs) e wd =
     (case EncodeRequest H reg grw req e wd of
        (Ret _, _, e', wd') \<Rightarrow> EncodeRequests H reg grw reqs e' wd'
      | (x, _, e', wd') \<Rightarrow> (x, e', wd'))"

text \<open>What a handler sees of a request: service, identifier, headers and the bytes of the body.\<close>

type_synonym 'h received = "uint32 \<times> uint64 \<times> 'h option \<times> byte list"

definition received :: "'h inRequest \<Rightarrow> pools \<Rightarrow> 'h received" where
  "received inq st = (iq_Service inq, iq_ID inq, iq_Headers inq,
     case iq_Reader inq of None \<Rightarrow> [] | Some body \<Rightarrow> decoded_bytes body st)"

definition expected :: "('h, 'ty) headers_impl \<Rightarrow> ('h, 'ty) registry \<Rightarrow> 'h wireRequest \<Rightarrow> 'h received" where
  "expected H reg req = (rq_Service req, rq_ID req, recv_headers H reg (rq_Headers req),
     body_bytes (rq_Body req))"

fun DecodeRequests :: "('h, 'ty) headers_impl \<Rightarrow> ('h, 'ty) registry \<Rightarrow> growth \<Rightarrow> nat option list \<Rightarrow>
    messageDecoder \<Rightarrow> pools \<Rightarrow> 'h received list \<times> unit outcome \<times> messageDecoder \<times> pools" where
  "DecodeRequests H reg grw [] d st = ([], Ret (), d, st)"
| "DecodeRequests H reg grw (ch # chs) d st =
     (case DecodeRequest H reg grw ch zeroRequest d st of
        (Ret _, inq, d', st') \<Rightarrow>
          (case DecodeRequests H reg grw chs d' st' of (xs, y) \<Rightarrow> (received inq st' # xs, y))
      | (x, _, d', st') \<Rightarrow> ([], x, d', st'))"

lemma head_fits_cap:
  "length (bb_data b) + 28 + n \<le> bb_cap b \<Longrightarrow> head_fits grw n (head_buf body b)"
  by (auto simp: head_fits_def head_buf_def bb_Write_fits)

lemma length_request_head:
  "length (request_head H reg req) = 28 + length (header_bytes H reg (rq_Headers req))"
  by (simp add: request_head_def requestStartLineSize_def)

lemma EncodeRequests_ok:
  assumes "\<And>n c. n \<le> grw n c" "bb_wf (me_buf e)"
    and "\<And>req. req \<in> set reqs \<Longrightarrow> header_encodes H reg (rq_Headers req)"
    and "\<And>req. req \<in> set reqs \<Longrightarrow> copied_body (rq_Body req) (me_w e) wd"
    and "length (bb_data (me_buf e)) + (\<Sum>req\<leftarrow>reqs. length (request_head H reg req)) \<le> bb_cap (me_buf e)"
    and "enc_room (\<Sum>req\<leftarrow>reqs. length (frame H reg req)) e"
  shows "\<exists>e'. EncodeRequests H reg grw reqs e wd = (Ret (), e', wd) \<and>
    stream e' = stream e @ concat (map (frame H reg) reqs) \<and> bb_wf (me_buf e') \<and> enc_room 0 e'"
  using assms(2-)
proof (induction reqs arbitrary: e)
  case Nil
  then show ?case by simp
next
  case (Cons req reqs)
  let ?h = "request_head H reg req" and ?b = "body_bytes (rq_Body req)"
    and ?n = "\<Sum>req\<leftarrow>reqs. length (frame H reg req)"
  have fits: "head_fits grw (length (header_bytes H reg (rq_Headers req))) (head_buf (rq_Body req) (me_buf e))"
    using Cons.prems(4) by (intro head_fits_cap) (simp add: length_request_head)
  have room: "enc_room (?n + length ?h + length ?b) e"
    using Cons.prems(5) by (simp add: frame_def ac_simps)
  then have "enc_room (length ?h + length ?b) e"
    by (auto simp: enc_room_def elim: conn_room_mono)
  moreover have "header_encodes H reg (rq_Headers req)" "copied_body (rq_Body req) (me_w e) wd"
    using Cons.prems(2,3) by simp_all
  ultimately obtain req' e1 where E: "EncodeRequest H reg grw req e wd = (Ret (), req', e1, wd)"
    and S: "sends ?h ?b e e1"
    using EncodeRequest_spec [where grw = grw, OF Cons.prems(1) assms(1) _ fits] by blast
  have w: "wconn (me_w e1) = wconn (me_w e)" and wf: "bb_wf (me_buf e1)"
    and r1: "enc_room ?n e1" and st: "stream e1 = stream e @ ?h @ ?b"
    and cap: "length (bb_data (me_buf e1)) + (\<Sum>req\<leftarrow>reqs. length (request_head H reg req)) \<le> bb_cap (me_buf e1)"
    using S room Cons.prems(4) by (auto simp: sends_def)
  have cb: "copied_body (rq_Body q) (me_w e1) wd" if "q \<in> set reqs" for q
    using Cons.prems(3) [of q] that w by (simp add: copied_body_def split: option.splits)
  from Cons.IH [OF wf Cons.prems(2) cb cap r1] E st [folded frame_def] show ?case by (auto simp: frame_def)
qed

context registered_codec
begin

lemma DecodeRequests_ok:
  assumes "\<And>req. req \<in> set reqs \<Longrightarrow> header_ok H reg valid (rq_Headers req)"
    and "\<And>req. req \<in> set reqs \<Longrightarrow> body_ok (rq_Body req)"
    and "\<And>req. req \<in> set reqs \<Longrightarrow> length (header_bytes H reg (rq_Headers req)) \<le> 32768"
    and "length chs = length reqs" "pool_inv (fst st) live"
    and "\<not> md_conn d" "\<not> md_closeBody d" "ring_idle d" "length (rchunks (md_r d)) \<le> 1"
    and "rbytes (md_r d) = concat (map (frame H reg) reqs) @ rest"
  shows "\<exists>d' st'. DecodeRequests H reg grw chs d st = (map (expected H reg) reqs, Ret (), d', st') \<and>
    rbytes (md_r d') = rest \<and> rerr (md_r d') = rerr (md_r d)"
  using assms
proof (induction reqs arbitrary: chs d st live)
  case Nil
  then show ?case by simp
next
  case (Cons req reqs)
  obtain ch chs' where chs: "chs = ch # chs'" using Cons.prems(4) by (cases chs) auto
  have sg: "stageable (length (header_bytes H reg (rq_Headers req))) d"
    using Cons.prems(3) [of req] Cons.prems(8,9) by (simp add: stageable_def)
  have bs: "rbytes (md_r d) = request_head H reg req @ body_bytes (rq_Body req) @
      concat (map (frame H reg) reqs) @ rest"
    using Cons.prems(10) by (simp add: frame_def [of H reg req])
  from DecodeRequest_ok [OF Cons.prems(1,2) Cons.prems(5-7) sg bs, of grw ch zeroRequest]
  obtain inq d1 st1 body where
    D: "DecodeRequest H reg grw ch zeroRequest d st = (Ret (), inq, d1, st1)"
    and v: "received inq st1 = expected H reg req"
    and c: "consumes (length (request_head H reg req) + length (body_bytes (rq_Body req))) d d1"
    and i: "ring_idle d1" and k: "keeps live st st1"
    by (auto simp: received_def expected_def)
  from k obtain live1 where l: "pool_inv (fst st1) live1" by (auto simp: keeps_def)
  have r1: "rbytes (md_r d1) = concat (map (frame H reg) reqs) @ rest"
    and re: "rerr (md_r d1) = rerr (md_r d)"
    using c bs by (simp_all add: consumes_def)
  have e: "\<not> md_conn d1" "\<not> md_closeBody d1" "length (rchunks (md_r d1)) \<le> 1"
    using c Cons.prems(6,7,9) by (auto simp: consumes_def)
  from Cons.IH [OF Cons.prems(1-3) _ l e(1,2) i e(3) r1, of chs'] Cons.prems(4) chs
  obtain d' st' where "DecodeRequests H reg grw chs' d1 st1 = (map (expected H reg) reqs, Ret (), d', st')"
    "rbytes (md_r d') = rest" "rerr (md_r d') = rerr (md_r d1)" by auto
  with D v chs re show ?case by simp
qed

end

text \<open>
  Requests survive the wire. A client encodes any number of requests into its header
  buffer and flushes it; the server's decoder reads from the resulting stream exactly these
  requests, in order, with their services, identifiers, headers and body bytes, and then
  finds the end of the stream at a message boundary.
\<close>

lemma requests_roundtrip:
  assumes codec: "registered_codec H valid reg" and grw: "\<And>n c. n \<le> grw n c"
    and hdrs: "\<And>req. req \<in> set reqs \<Longrightarrow> header_ok H reg valid (rq_Headers req)"
    and size: "\<And>req. req \<in> set reqs \<Longrightarrow> length (header_bytes H reg (rq_Headers req)) \<le> 32768"
    and bodies: "\<And>req. req \<in> set reqs \<Longrightarrow> body_ok (rq_Body req) \<and> copied_body (rq_Body req) (me_w e) wd"
    and fresh: "bb_data (me_buf e) = []" "wsent (me_w e) = []" "wlimit (me_w e) = None"
    and fits: "(\<Sum>req\<leftarrow>reqs. length (request_head H reg req)) \<le> bb_cap (me_buf e)"
    and pool: "pool_inv (fst st) live" "length chs = length reqs"
  shows "\<exists>e1 e2 d st'. EncodeRequests H reg grw reqs e wd = (Ret (), e1, wd) \<and> Flush e1 = (Ret (), e2) \<and>
    DecodeRequests H reg grw chs
      (newMessageDecoder \<lparr>rchunks = [wsent (me_w e2)], rerr = EOF\<rparr> False s False) st =
      (map (expected H reg) reqs, Ret (), d, st') \<and>
    fst (DecodeRequest H reg grw ch zeroRequest d st') = Fail EOF"
proof -
  have room: "enc_room k e" for k using fresh(3) by (simp add: enc_room_def conn_room_def)
  have wf: "bb_wf (me_buf e)" using fresh(1) by (simp add: bb_wf_def)
  have he: "header_encodes H reg (rq_Headers req)" if "req \<in> set reqs" for req
    by (rule registered_codec.header_ok_encodes [OF codec hdrs [OF that]])
  have cap: "length (bb_data (me_buf e)) + (\<Sum>req\<leftarrow>reqs. length (request_head H reg req)) \<le> bb_cap (me_buf e)"
    using fresh(1) fits by simp
  obtain e1 where E: "EncodeRequests H reg grw reqs e wd = (Ret (), e1, wd)"
    "stream e1 = concat (map (frame H reg) reqs)" "bb_wf (me_buf e1)" "enc_room 0 e1"
    using EncodeRequests_ok [where grw = grw, OF grw wf he _ cap room] bodies fresh
    by (auto simp: stream_def [of e])
  obtain e2 where F: "Flush e1 = (Ret (), e2)" "sends [] [] e1 e2" "bb_data (me_buf e2) = []"
    using Flush_sends [OF E(4,3)] by blast
  have w: "wsent (me_w e2) = concat (map (frame H reg) reqs)"
    using F(2,3) E(2) by (simp add: sends_def stream_def [of e2])
  let ?d = "newMessageDecoder \<lparr>rchunks = [wsent (me_w e2)], rerr = EOF\<rparr> False s False"
  have r: "rbytes (md_r ?d) = concat (map (frame H reg) reqs) @ []"
    using w by (simp add: fresh_decoder rbytes_def)
  obtain d st' where D: "DecodeRequests H reg grw chs ?d st = (map (expected H reg) reqs, Ret (), d, st')"
    "rbytes (md_r d) = []" "rerr (md_r d) = EOF"
    using registered_codec.DecodeRequests_ok [where grw = grw, OF codec hdrs _ size pool(2,1) _ _ _ _ r] bodies
    by (auto simp: fresh_decoder)
  have "fst (DecodeRequest H reg grw ch zeroRequest d st') = Fail EOF"
    using DecodeRequest_short [of d H reg grw ch zeroRequest st'] D(2,3) by auto
  with E(1) F(1) D(1) show ?thesis by blast
qed

lemma requests_roundtrip_witness:
  "\<exists>e1 e2 d st'. EncodeRequests testH testRegistry (\<lambda>n c. n) [demoRequest, demoRequest] (demoEncoder 4096 [])
      demoWorld = (Ret (), e1, demoWorld) \<and> Flush e1 = (Ret (), e2) \<and>
    DecodeRequests testH testRegistry (\<lambda>n c. n) [None, None]
      (newMessageDecoder \<lparr>rchunks = [wsent (me_w e2)], rerr = EOF\<rparr> False zeroStats False)
      (emptyPool, demoWorld) =
      ([(1, 2, Some (RequestHeaders 3), [7, 8, 9]), (1, 2, Some (RequestHeaders 3), [7, 8, 9])], Ret (), d, st')"
proof -
  have i: "pool_inv (fst (emptyPool, demoWorld)) {}" by (simp add: emptyPool_inv)
  have h: "header_ok testH testRegistry test_valid (rq_Headers demoRequest)"
    "length (header_bytes testH testRegistry (rq_Headers demoRequest)) \<le> 32768"
    "body_ok (rq_Body demoRequest)" "copied_body (rq_Body demoRequest) (me_w (demoEncoder 4096 [])) demoWorld"
    by (simp_all add: demo_header_ok demo_key demo_body demo_copied)
  have x: "expected testH testRegistry demoRequest = (1, 2, Some (RequestHeaders 3), [7, 8, 9])"
    by (simp add: expected_def demo_body recv_headers_def testH_def testRegistry_def
        RegisterHeaders_def initRegistry_def indexHeaders_def)
  have f: "(\<Sum>req\<leftarrow>[demoRequest, demoRequest]. length (request_head testH testRegistry req)) \<le>
      bb_cap (me_buf (demoEncoder 4096 []))"
    by (simp add: length_request_head demo_key demoEncoder_def)
  have e: "bb_data (me_buf (demoEncoder 4096 [])) = []" "wsent (me_w (demoEncoder 4096 [])) = []"
    "wlimit (me_w (demoEncoder 4096 [])) = None"
    by (simp_all add: demoEncoder_def)
  from requests_roundtrip [where grw = "\<lambda>n c. n" and reqs = "[demoRequest, demoRequest]"
      and chs = "[None, None]" and ch = None and s = zeroStats and wd = demoWorld, OF test.registered_codec_axioms _ _ _ _ e f i] h x
  show ?thesis by (auto simp del: EncodeRequests.simps DecodeRequests.simps)
qed

section \<open>The client's queue on the wire\<close>

text \<open>Several rounds of \<open>clientWriter\<close> in a row; its timer may expire in between.\<close>

datatype sched = Round branch | Tick

fun clientWriter_run :: "('h, 'ty) headers_impl \<Rightarrow> ('h, 'ty) registry \<Rightarrow> growth \<Rightarrow> int \<Rightarrow> bool \<Rightarrow>
    sched list \<Rightarrow> writerState \<Rightarrow> 'h Client \<Rightarrow> clientConn \<Rightarrow> spliceWorld \<Rightarrow>
    (round_end \<times> writerState \<times> 'h Client \<times> clientConn \<times> spliceWorld) option" where
  "clientWriter_run H reg grw delay stopped [] w c cc wd = Some (Again, w, c, cc, wd)"
| "clientWriter_run H reg grw delay stopped (Tick # ss) w c cc wd =
     clientWriter_run H reg grw delay stopped ss (w\<lparr>ws_f := flush_tick (ws_f w)\<rparr>) c cc wd"
| "clientWriter_run H reg grw delay stopped (Round br # ss) w c cc wd =
     (case clientWriter_round H reg grw delay stopped br w c cc wd of
        Some (Again, w', c', cc', wd') \<Rightarrow> clientWriter_run H reg grw delay stopped ss w' c' cc' wd'
      | r \<Rightarrow> r)"

text \<open>The identifiers the writer of a new connection gives: 0 to a request without a response.\<close>

fun numbered :: "uint64 \<Rightarrow> 'h AsyncResult list \<Rightarrow> 'h wireRequest list" where
  "numbered i [] = []"
| "numbered i (m # ms) =
     (case ar_done m of
        None \<Rightarrow> wire_request 0 (ar_request m) # numbered i ms
      | Some _ \<Rightarrow> wire_request (i + 1) (ar_request m) # numbered (i + 1) ms)"

text \<open>Identifiers up to \<open>msgID\<close> are in use, so the next one is free.\<close>

definition ids_below :: "clientConn \<Rightarrow> bool" where
  "ids_below cc \<longleftrightarrow> (\<forall>k \<in> fst ` set (cc_pending cc). k \<le> cc_msgID cc)"

lemma next_above:
  fixes i :: uint64
  assumes "unat i + 1 < 2 ^ 64"
  shows "i < i + 1 \<and> unat (i + 1) = unat i + 1 \<and> i + 1 \<noteq> 0"
proof -
  have u: "unat (i + 1) = unat i + 1" using assms by (simp add: unat_word_ariths(1))
  have "i + 1 \<noteq> 0"
  proof
    assume "i + 1 = 0"
    with u show False by simp
  qed
  with u show ?thesis by (simp add: word_less_nat_alt)
qed

lemma nextMsgID_next:
  assumes "ids_below cc" "unat (cc_msgID cc) + 1 < 2 ^ 64"
  shows "nextMsgID cc = Some (cc_msgID cc + 1)"
proof -
  note n = next_above [OF assms(2)]
  have "cc_msgID cc + 1 \<notin> fst ` set (cc_pending cc)" using assms(1) n by (fastforce simp: ids_below_def)
  then have "map_of (cc_pending cc) (cc_msgID cc + 1) = None" by (simp add: map_of_eq_None_iff)
  with n show ?thesis by (simp add: nextMsgID_def Let_def freeID.simps [of _ "cc_msgID cc + 1"])
qed

lemma take_next:
  assumes q: "c_requests c = a # q" "\<not> ar_canceled (c_heap c a)"
    and cc: "ids_below cc" "unat (cc_msgID cc) + 1 < 2 ^ 64" "length (cc_pending cc) \<le> 10 * c_cap c"
  shows "\<exists>c' i. clientWriter_take c cc = Some (Ret (WSend (wire_request i (ar_request (c_heap c a)))), c',
      if ar_done (c_heap c a) = None then cc else cc\<lparr>cc_pending := (i, a) # cc_pending cc, cc_msgID := i\<rparr>) \<and>
    i = (if ar_done (c_heap c a) = None then 0 else cc_msgID cc + 1) \<and>
    c_requests c' = q \<and> c_cap c' = c_cap c \<and> (\<forall>b. b \<noteq> a \<longrightarrow> c_heap c' b = c_heap c b)"
proof (cases "ar_done (c_heap c a)")
  case None
  with q show ?thesis
    by (simp add: clientWriter_take_def isCanceled_def releaseAsyncResult_def set_result_def Let_def)
next
  case (Some d)
  with q cc(3) nextMsgID_next [OF cc(1,2)] show ?thesis
    by (simp add: clientWriter_take_def isCanceled_def Let_def)
qed

text \<open>The state of a writer that drains a queue: nothing lost, a flush on its way, room for more.\<close>

definition draining :: "writerState \<Rightarrow> nat \<Rightarrow> nat \<Rightarrow> bool" where
  "draining w heads n \<longleftrightarrow> bb_wf (me_buf (ws_e w)) \<and> flush_inv w \<and> enc_room n (ws_e w) \<and>
     length (buffered w) + heads \<le> bb_cap (me_buf (ws_e w))"

lemma message_round:
  assumes grw: "\<And>n c. n \<le> grw n c"
    and q: "c_requests c = a # q" "\<not> ar_canceled (c_heap c a)"
    and cc: "ids_below cc" "unat (cc_msgID cc) + 1 < 2 ^ 64" "length (cc_pending cc) \<le> 10 * c_cap c"
    and wr: "wr = wire_request (if ar_done (c_heap c a) = None then 0 else cc_msgID cc + 1) (ar_request (c_heap c a))"
      "header_encodes H reg (rq_Headers wr)" "copied_body (rq_Body wr) (me_w (ws_e w)) wd"
    and d: "draining w (length (request_head H reg wr) + heads) (n + length (frame H reg wr))"
  shows "\<exists>w' c'. clientWriter_round H reg grw delay stopped TakeMessage w c cc wd = Some (Again, w', c',
      if ar_done (c_heap c a) = None then cc
      else cc\<lparr>cc_pending := (cc_msgID cc + 1, a) # cc_pending cc, cc_msgID := cc_msgID cc + 1\<rparr>, wd) \<and>
    c_requests c' = q \<and> c_cap c' = c_cap c \<and> (\<forall>b. b \<noteq> a \<longrightarrow> c_heap c' b = c_heap c b) \<and>
    stream (ws_e w') = stream (ws_e w) @ frame H reg wr \<and> draining w' heads n \<and>
    fl_chan (ws_f w') \<noteq> None \<and> wconn (me_w (ws_e w')) = wconn (me_w (ws_e w))"
proof -
  obtain c1 where T: "clientWriter_take c cc = Some (Ret (WSend wr), c1,
      if ar_done (c_heap c a) = None then cc
      else cc\<lparr>cc_pending := (cc_msgID cc + 1, a) # cc_pending cc, cc_msgID := cc_msgID cc + 1\<rparr>)"
    "c_requests c1 = q" "c_cap c1 = c_cap c" "\<forall>b. b \<noteq> a \<longrightarrow> c_heap c1 b = c_heap c b"
    using take_next [OF q cc] unfolding wr(1) by (auto split: if_splits)
  let ?e = "(ws_e w)\<lparr>me_stat := c_Stats c1\<rparr>" and ?h = "request_head H reg wr" and ?b = "body_bytes (rq_Body wr)"
  have fits: "head_fits grw (length (header_bytes H reg (rq_Headers wr))) (head_buf (rq_Body wr) (me_buf ?e))"
    using d by (intro head_fits_cap) (simp add: draining_def length_request_head)
  have room: "enc_room (n + length ?h + length ?b) ?e"
    using d by (simp add: draining_def enc_room_def frame_def ac_simps)
  have pre: "bb_wf (me_buf ?e)" "copied_body (rq_Body wr) (me_w ?e) wd" "enc_room (length ?h + length ?b) ?e"
    using d wr(3) room by (auto simp: draining_def enc_room_def elim: conn_room_mono)
  obtain wr' e1 where E: "EncodeRequest H reg grw wr ?e wd = (Ret (), wr', e1, wd)" "sends ?h ?b ?e e1"
    using EncodeRequest_spec [where grw = grw, OF pre(1) grw wr(2) fits pre(2,3)] by blast
  let ?w = "\<lparr>ws_e = e1, ws_f = flush_arm delay (ws_f w)\<rparr>"
  have R: "clientWriter_round H reg grw delay stopped TakeMessage w c cc wd = Some (Again, ?w, c1\<lparr>c_Stats := me_stat e1\<rparr>,
      if ar_done (c_heap c a) = None then cc
      else cc\<lparr>cc_pending := (cc_msgID cc + 1, a) # cc_pending cc, cc_msgID := cc_msgID cc + 1\<rparr>, wd)"
    using q(1) T(1) E(1) by (simp add: clientWriter_round_def clientWriter_send_def)
  have "stream e1 = stream (ws_e w) @ frame H reg wr" "enc_room n e1" "bb_wf (me_buf e1)"
    "length (bb_data (me_buf e1)) + heads \<le> bb_cap (me_buf e1)" "wconn (me_w e1) = wconn (me_w (ws_e w))"
    using E(2) room d by (auto simp: sends_def frame_def stream_def draining_def)
  moreover have "flush_inv ?w" using flush_arm_inv [of w ?w] d by (simp add: draining_def flush_inv_def [of w])
  moreover have "fl_chan (ws_f ?w) \<noteq> None" by (auto simp: flush_arm_def split: prod.splits)
  ultimately show ?thesis using R T(2-4) by (simp add: draining_def)
qed

text \<open>Whole queues: one message round per request.\<close>

lemma drain_queue:
  assumes grw: "\<And>n c. n \<le> grw n c"
  shows "distinct as \<Longrightarrow> c_requests c = as \<Longrightarrow> (\<And>a. a \<in> set as \<Longrightarrow> \<not> ar_canceled (c_heap c a)) \<Longrightarrow>
    ids_below cc \<Longrightarrow> unat (cc_msgID cc) + length as < 2 ^ 64 \<Longrightarrow>
    length (cc_pending cc) + length as \<le> Suc (10 * c_cap c) \<Longrightarrow> reqs = numbered (cc_msgID cc) (map (c_heap c) as) \<Longrightarrow>
    (\<And>wr. wr \<in> set reqs \<Longrightarrow> header_encodes H reg (rq_Headers wr) \<and> copied_body (rq_Body wr) (me_w (ws_e w)) wd) \<Longrightarrow>
    draining w (\<Sum>wr\<leftarrow>reqs. length (request_head H reg wr)) (\<Sum>wr\<leftarrow>reqs. length (frame H reg wr)) \<Longrightarrow>
    \<exists>w' c' cc'. clientWriter_run H reg grw delay stopped (replicate (length as) (Round TakeMessage) @ ss) w c cc wd =
        clientWriter_run H reg grw delay stopped ss w' c' cc' wd \<and> c_requests c' = [] \<and>
      stream (ws_e w') = stream (ws_e w) @ concat (map (frame H reg) reqs) \<and> draining w' 0 0 \<and>
      (as \<noteq> [] \<or> fl_chan (ws_f w) \<noteq> None \<longrightarrow> fl_chan (ws_f w') \<noteq> None) \<and> set (cc_pending cc) \<subseteq> set (cc_pending cc') \<and>
      (\<forall>a \<in> set as. ar_done (c_heap c a) \<noteq> None \<longrightarrow>
         (\<exists>i. (i, a) \<in> set (cc_pending cc') \<and> wire_request i (ar_request (c_heap c a)) \<in> set reqs))"
proof (induction as arbitrary: c cc w reqs)
  case Nil
  then show ?case by auto
next
  case (Cons a q)
  let ?m = "c_heap c a"
  define cc1 where "cc1 = (if ar_done ?m = None then cc
    else cc\<lparr>cc_pending := (cc_msgID cc + 1, a) # cc_pending cc, cc_msgID := cc_msgID cc + 1\<rparr>)"
  define wr where "wr = wire_request (if ar_done ?m = None then 0 else cc_msgID cc + 1) (ar_request ?m)"
  define rest where "rest = numbered (cc_msgID cc1) (map (c_heap c) q)"
  have reqs: "reqs = wr # rest"
    using Cons.prems(7) by (auto simp: wr_def rest_def cc1_def split: option.splits)
  have id: "unat (cc_msgID cc) + 1 < 2 ^ 64" using Cons.prems(5) by simp
  note up = next_above [OF id]
  have al: "\<not> ar_canceled ?m" and len: "length (cc_pending cc) \<le> 10 * c_cap c" using Cons.prems(3,6) by auto
  have hd: "header_encodes H reg (rq_Headers wr)" and hb: "copied_body (rq_Body wr) (me_w (ws_e w)) wd"
    using Cons.prems(8) by (auto simp: reqs)
  have d: "draining w (length (request_head H reg wr) + (\<Sum>wr\<leftarrow>rest. length (request_head H reg wr)))
      ((\<Sum>wr\<leftarrow>rest. length (frame H reg wr)) + length (frame H reg wr))"
    using Cons.prems(9) by (simp add: reqs add.commute)
  obtain w1 c1 where R: "clientWriter_round H reg grw delay stopped TakeMessage w c cc wd = Some (Again, w1, c1, cc1, wd)"
    "c_requests c1 = q" "c_cap c1 = c_cap c" "\<forall>b. b \<noteq> a \<longrightarrow> c_heap c1 b = c_heap c b"
    "stream (ws_e w1) = stream (ws_e w) @ frame H reg wr"
    "draining w1 (\<Sum>wr\<leftarrow>rest. length (request_head H reg wr)) (\<Sum>wr\<leftarrow>rest. length (frame H reg wr))"
    "fl_chan (ws_f w1) \<noteq> None" "wconn (me_w (ws_e w1)) = wconn (me_w (ws_e w))"
    using message_round [where grw = grw, OF grw Cons.prems(2) al Cons.prems(4) id len wr_def hd hb d] cc1_def by blast
  have heap: "map (c_heap c1) q = map (c_heap c) q" using R(4) Cons.prems(1) by auto
  have rest: "rest = numbered (cc_msgID cc1) (map (c_heap c1) q)" by (simp only: rest_def heap)
  have ok: "header_encodes H reg (rq_Headers x) \<and> copied_body (rq_Body x) (me_w (ws_e w1)) wd" if "x \<in> set rest" for x
    using Cons.prems(8) [of x] that R(8) reqs by (simp add: copied_body_def split: option.splits)
  have dist: "distinct q" using Cons.prems(1) by simp
  have alive: "\<not> ar_canceled (c_heap c1 b)" if "b \<in> set q" for b
  proof -
    have "b \<noteq> a" using Cons.prems(1) that by auto
    then show ?thesis using Cons.prems(3) [of b] R(4) that by simp
  qed
  have below: "ids_below cc1" "unat (cc_msgID cc1) + length q < 2 ^ 64" "length (cc_pending cc1) + length q \<le> Suc (10 * c_cap c1)"
    using Cons.prems(4-6) up R(3) by (auto simp: cc1_def ids_below_def)
  obtain w' c' cc' where IH: "clientWriter_run H reg grw delay stopped (replicate (length q) (Round TakeMessage) @ ss) w1 c1 cc1 wd =
        clientWriter_run H reg grw delay stopped ss w' c' cc' wd" "c_requests c' = []"
      "stream (ws_e w') = stream (ws_e w1) @ concat (map (frame H reg) rest)" "draining w' 0 0"
      "fl_chan (ws_f w') \<noteq> None" "set (cc_pending cc1) \<subseteq> set (cc_pending cc')"
      "\<forall>a \<in> set q. ar_done (c_heap c1 a) \<noteq> None \<longrightarrow>
         (\<exists>i. (i, a) \<in> set (cc_pending cc') \<and> wire_request i (ar_request (c_heap c1 a)) \<in> set rest)"
    using Cons.IH [OF dist R(2) alive below rest ok R(6)] R(7) by blast
  have filed: "\<exists>i. (i, b) \<in> set (cc_pending cc') \<and> wire_request i (ar_request (c_heap c b)) \<in> set reqs"
    if "b \<in> set (a # q)" "ar_done (c_heap c b) \<noteq> None" for b
  proof (cases "b = a")
    case True
    then show ?thesis using that(2) IH(6) by (auto simp: reqs wr_def cc1_def split: if_splits)
  next
    case False
    then have "b \<in> set q" "c_heap c1 b = c_heap c b" using that(1) R(4) by auto
    then show ?thesis using that(2) IH(7) by (metis list.set_intros(2) reqs)
  qed
  have "set (cc_pending cc) \<subseteq> set (cc_pending cc')" using IH(6) by (auto simp: cc1_def split: if_splits)
  moreover have "stream (ws_e w') = stream (ws_e w) @ concat (map (frame H reg) reqs)" using R(5) IH(3) by (simp add: reqs)
  moreover have "clientWriter_run H reg grw delay stopped (replicate (length (a # q)) (Round TakeMessage) @ ss) w c cc wd =
      clientWriter_run H reg grw delay stopped ss w' c' cc' wd" using R(1) IH(1) by simp
  ultimately show ?case using filed IH(2,4,5) by blast
qed



end
