(* ===== verification/Pipe_IO.thy ===== *)
theory Pipe_IO
  imports Body_Splice
begin

text \<open>
  The rest of package \<^verbatim>\<open>src/splice\<close> and of the type \<open>Pipe\<close> (\<^verbatim>\<open>src/body.go\<close>): reading, writing
  and loading a pipe pair directly, the package functions over the one pool, what \<open>init\<close> finds
  out about the kernel, and \<open>CopyFile\<close>. The main result is that a pair is a queue of bytes,
  whichever operations fill and empty it and whatever the kernel answers.
\<close>

section \<open>More operations on pairs\<close>

definition Cap :: "Pair \<Rightarrow> int" where
  "Cap p = pr_size p"

definition ReadFd :: "Pair \<Rightarrow> nat" where
  "ReadFd p = pr_r p"

definition WriteFd :: "Pair \<Rightarrow> nat" where
  "WriteFd p = pr_w p"

text \<open>
  \<open>Read\<close> and \<open>Write\<close> are one system call each. The kernel moves as much as it says, but not
  more than there is.
\<close>

definition pair_Read :: "nat \<Rightarrow> kernel \<Rightarrow> Pair \<Rightarrow> byte list outcome \<times> kernel \<times> Pair" where
  "pair_Read n ks p =
     (case ksize ks of
        (Ret k, ks') \<Rightarrow>
          let m = min k (min n (length (pr_bytes p)))
          in (Ret (take m (pr_bytes p)), ks', p\<lparr>pr_bytes := drop m (pr_bytes p)\<rparr>)
      | (Fail e, ks') \<Rightarrow> (Fail e, ks', p)
      | (Panic s, ks') \<Rightarrow> (Panic s, ks', p))"

definition pair_Write :: "byte list \<Rightarrow> kernel \<Rightarrow> Pair \<Rightarrow> nat outcome \<times> kernel \<times> Pair" where
  "pair_Write d ks p =
     (case ksize ks of
        (Ret k, ks') \<Rightarrow> let m = min k (length d) in (Ret m, ks', p\<lparr>pr_bytes := pr_bytes p @ take m d\<rparr>)
      | (Fail e, ks') \<Rightarrow> (Fail e, ks', p)
      | (Panic s, ks') \<Rightarrow> (Panic s, ks', p))"

text \<open>
  \<open>vmsplice\<close> takes the address of the first \<open>Iovec\<close> and \<open>LoadBuffer\<close> that of the first byte of
  every segment; both panic when there is none. The check of \<open>sz\<close> is all \<open>sz\<close> is used for.
\<close>

definition vmsplice :: "byte list list \<Rightarrow> kernel \<Rightarrow> Pair \<Rightarrow> nat outcome \<times> kernel \<times> Pair" where
  "vmsplice iovs ks p =
     (if iovs = [] then (Panic ''index out of range'', ks, p)
      else case ksize ks of
          (Ret k, ks') \<Rightarrow>
            let bs = concat iovs; m = min k (length bs)
            in (Ret m, ks', p\<lparr>pr_bytes := pr_bytes p @ take m bs\<rparr>)
        | (Fail e, ks') \<Rightarrow> (Fail e, ks', p)
        | (Panic s, ks') \<Rightarrow> (Panic s, ks', p))"

definition LoadBuffer :: "byte list list \<Rightarrow> int \<Rightarrow> kernel \<Rightarrow> Pair \<Rightarrow> nat outcome \<times> kernel \<times> Pair" where
  "LoadBuffer buffer sz ks p =
     (if sz > pr_size p then (Fail (Errorf ''LoadFrom: not enough space''), ks, p)
      else if [] \<in> set buffer then (Panic ''index out of range'', ks, p)
      else vmsplice buffer ks p)"

section \<open>The pool of the package\<close>

text \<open>The package functions work on \<open>splicePool\<close>, which \<open>init\<close> creates.\<close>

definition splicePool_init :: pairPool where
  "splicePool_init = newSplicePairPool"

definition ClearSplicePool :: "pairPool \<Rightarrow> pairPool" where
  "ClearSplicePool pp = pool_clear pp"

definition Get :: "kernel \<Rightarrow> pairPool \<Rightarrow> nat outcome \<times> kernel \<times> pairPool" where
  "Get ks pp = pool_get ks pp"

definition Total :: "pairPool \<Rightarrow> int" where
  "Total pp = pool_total pp"

definition Used :: "pairPool \<Rightarrow> int" where
  "Used pp = pool_used pp"

definition Done :: "nat \<Rightarrow> kernel \<Rightarrow> pairPool \<Rightarrow> unit outcome \<times> kernel \<times> pairPool" where
  "Done a ks pp = pool_done a ks pp"

definition Drop :: "nat \<Rightarrow> pairPool \<Rightarrow> pairPool" where
  "Drop a pp = pool_drop a pp"

section \<open>What the package finds out at its start\<close>

text \<open>
  \<^verbatim>\<open>/proc/sys/fs/pipe-max-size\<close> cannot be read, or it is read and \<open>Sscan\<close> stores a number, or
  none; then \<open>maxPipeSize\<close> stays 0. The trial pipe is asked for its size and for twice that;
  \<open>fcntl\<close> returns \<open>-1\<close> when it fails, and the second call is made all the same.
\<close>

datatype max_size_file = Unreadable | Scanned int | NotANumber

definition splice_init :: "max_size_file \<Rightarrow> kernel \<Rightarrow> spliceEnv outcome \<times> kernel" where
  "splice_init f ks =
     (let mx = (case f of Unreadable \<Rightarrow> DefaultPipeSize | Scanned n \<Rightarrow> n | NotANumber \<Rightarrow> 0) in
      case osPipe ks of
        (Fail e, ks1) \<Rightarrow> (Panic ''cannot create pipe'', ks1)
      | (Panic s, ks1) \<Rightarrow> (Panic s, ks1)
      | (Ret _, ks1) \<Rightarrow>
          (case ksize ks1 of
             (x1, ks2) \<Rightarrow>
               (case ksize ks2 of
                  (x2, ks3) \<Rightarrow>
                    (case ksize ks3 of
                       (Ret fd, ks4) \<Rightarrow> (Ret \<lparr>resizable = (is_ret x1 \<and> is_ret x2), maxPipeSize = mx\<rparr>, ks4)
                     | (_, ks4) \<Rightarrow> (Panic ''splice: open /dev/null'', ks4)))))"

definition Resizable :: "spliceEnv \<Rightarrow> bool" where
  "Resizable env = resizable env"

definition MaxPipeSize :: "spliceEnv \<Rightarrow> int" where
  "MaxPipeSize env = maxPipeSize env"

section \<open>Pipes as body readers\<close>

text \<open>
  \<open>(*Pipe).WriteTo\<close> and \<open>(*Pipe).ReadFd\<close>; only the first checks that there is a pair.
\<close>

definition pipe_WriteTo :: "nat \<Rightarrow> nat option \<Rightarrow> spliceWorld \<Rightarrow> byte list outcome \<times> spliceWorld" where
  "pipe_WriteTo n pr wd =
     (case pr of
        None \<Rightarrow> (Fail EOF, wd)
      | Some a \<Rightarrow>
          (case WriteTo n (sw_kernel wd) (pp_heap (sw_pool wd) a) of
             (x, ks, p) \<Rightarrow> (x, wd\<lparr>sw_kernel := ks, sw_pool := (sw_pool wd)\<lparr>pp_heap := (pp_heap (sw_pool wd))(a := p)\<rparr>\<rparr>)))"

definition pipe_ReadFd :: "nat option \<Rightarrow> spliceWorld \<Rightarrow> nat outcome" where
  "pipe_ReadFd pr wd =
     (case pr of None \<Rightarrow> Panic ''nil pointer dereference'' | Some a \<Rightarrow> Ret (ReadFd (pp_heap (sw_pool wd) a)))"

section \<open>Copying files by name\<close>

text \<open>
  Files by name; \<open>fs_denied\<close> gives the error of a file that exists or could be created but
  cannot be opened for reading (\<open>False\<close>) or writing (\<open>True\<close>). Opening for writing with
  \<open>O_CREATE|O_TRUNC\<close> empties the file, also when it is the one that has just been opened for
  reading.
\<close>

record filesys =
  fs_files :: "string \<Rightarrow> byte list option"
  fs_denied :: "bool \<Rightarrow> string \<Rightarrow> goerr option"

definition os_Open :: "string \<Rightarrow> filesys \<Rightarrow> goerr option" where
  "os_Open name fs =
     (if fs_files fs name = None then Some (Errorf ''no such file or directory'') else fs_denied fs False name)"

definition os_Create :: "string \<Rightarrow> filesys \<Rightarrow> goerr option \<times> filesys" where
  "os_Create name fs =
     (case fs_denied fs True name of
        Some e \<Rightarrow> (Some e, fs)
      | None \<Rightarrow> (None, fs\<lparr>fs_files := (fs_files fs)(name \<mapsto> [])\<rparr>))"

definition CopyFile :: "spliceEnv \<Rightarrow> kernel \<Rightarrow> string \<Rightarrow> string \<Rightarrow> filesys \<Rightarrow> pairPool \<Rightarrow>
    unit outcome \<times> kernel \<times> filesys \<times> pairPool" where
  "CopyFile env ks dstName srcName fs pp =
     (case os_Open srcName fs of
        Some e \<Rightarrow> (Fail e, ks, fs, pp)
      | None \<Rightarrow>
          (case os_Create dstName fs of
             (Some e, fs1) \<Rightarrow> (Fail e, ks, fs1, pp)
           | (None, fs1) \<Rightarrow>
               (case CopyFds env ks (the (fs_files fs1 srcName)) [] pp of
                  (x, ks', dst, pp') \<Rightarrow>
                    (x, ks', fs1\<lparr>fs_files := (fs_files fs1)(dstName \<mapsto> dst)\<rparr>, pp'))))"

section \<open>A pair is a queue of bytes\<close>

text \<open>Every operation that moves bytes, with what it took in and what it gave out.\<close>

datatype pair_op = OpWrite "byte list" | OpLoadFrom int "byte list" | OpLoadBuffer "byte list list" int
  | OpRead nat | OpWriteTo nat | OpDiscard | OpGrow spliceEnv int

fun pair_exec :: "pair_op \<Rightarrow> kernel \<Rightarrow> Pair \<Rightarrow> byte list \<times> byte list \<times> kernel \<times> Pair" where
  "pair_exec (OpWrite d) ks p =
     (case pair_Write d ks p of (x, ks', p') \<Rightarrow> (case x of Ret n \<Rightarrow> take n d | _ \<Rightarrow> [], [], ks', p'))"
| "pair_exec (OpLoadFrom sz src) ks p =
     (case LoadFrom sz ks src p of (x, ks', _, p') \<Rightarrow> (case x of Ret n \<Rightarrow> take n src | _ \<Rightarrow> [], [], ks', p'))"
| "pair_exec (OpLoadBuffer iov sz) ks p =
     (case LoadBuffer iov sz ks p of (x, ks', p') \<Rightarrow> (case x of Ret n \<Rightarrow> take n (concat iov) | _ \<Rightarrow> [], [], ks', p'))"
| "pair_exec (OpRead n) ks p =
     (case pair_Read n ks p of (x, ks', p') \<Rightarrow> ([], case x of Ret bs \<Rightarrow> bs | _ \<Rightarrow> [], ks', p'))"
| "pair_exec (OpWriteTo n) ks p =
     (case WriteTo n ks p of (x, ks', p') \<Rightarrow> ([], case x of Ret bs \<Rightarrow> bs | _ \<Rightarrow> [], ks', p'))"
| "pair_exec OpDiscard ks p =
     (case discard ks p of (x, ks', p') \<Rightarrow> ([], take (length (pr_bytes p) - length (pr_bytes p')) (pr_bytes p), ks', p'))"
| "pair_exec (OpGrow env n) ks p = (case Grow env n ks p of (x, ks', p') \<Rightarrow> ([], [], ks', p'))"

fun pair_run :: "pair_op list \<Rightarrow> kernel \<Rightarrow> Pair \<Rightarrow> byte list \<times> byte list \<times> kernel \<times> Pair" where
  "pair_run [] ks p = ([], [], ks, p)"
| "pair_run (op # ops) ks p =
     (case pair_exec op ks p of
        (i, ou, ks1, p1) \<Rightarrow> (case pair_run ops ks1 p1 of (is', ous, r) \<Rightarrow> (i @ is', ou @ ous, r)))"

lemma discard_prefix:
  assumes "discard ks p = (x, ks', p')"
  shows "\<exists>m. pr_bytes p' = drop m (pr_bytes p) \<and> m \<le> length (pr_bytes p)"
proof -
  obtain y k q where W: "WriteTo (nat (pr_size p)) ks p = (y, k, q)" by (cases "WriteTo (nat (pr_size p)) ks p")
  show ?thesis
  proof (cases y)
    case (Ret bs)
    then show ?thesis using assms W WriteTo_Ret [of "nat (pr_size p)" ks p bs k q]
      by (intro exI [of _ "length bs"]) (metis (no_types, lifting) discard_def case_prod_conv outcome.simps(10) prod.inject length_take min.cobounded1)
  next
    case (Fail e)
    then show ?thesis using assms W WriteTo_Fail [of "nat (pr_size p)" ks p e k q]
      by (intro exI [of _ 0]) (auto simp: discard_def pair_Close_def split: if_splits)
  qed (use W in auto)
qed

lemma pair_exec_fifo:
  "pair_exec op ks p = (i, ou, ks', p') \<Longrightarrow> pr_bytes p @ i = ou @ pr_bytes p'"
proof (cases op)
  case OpDiscard
  assume "pair_exec op ks p = (i, ou, ks', p')"
  with OpDiscard obtain x where d: "discard ks p = (x, ks', p')" "i = []"
    "ou = take (length (pr_bytes p) - length (pr_bytes p')) (pr_bytes p)" by (auto split: prod.splits)
  from discard_prefix [OF d(1)] d(2,3) show ?thesis by auto
qed (auto simp: pair_Write_def pair_Read_def LoadFrom_def LoadBuffer_def vmsplice_def WriteTo_def Grow_def Let_def
    split: prod.splits outcome.splits if_splits)



section \<open>Loading buffers\<close>

text \<open>\<open>LoadBuffer\<close> panics exactly when the check of its size passes and there is no byte to point to.\<close>

lemma LoadBuffer_panics_iff:
  "(\<exists>s. fst (LoadBuffer buffer sz ks p) = Panic s) \<longleftrightarrow> sz \<le> pr_size p \<and> (buffer = [] \<or> [] \<in> set buffer)"
  by (cases "ksize ks") (auto simp: LoadBuffer_def vmsplice_def Let_def split: outcome.splits)

text \<open>It loads everything the kernel takes; \<open>sz\<close> does not bound it.\<close>

lemma LoadBuffer_ignores_size:
  assumes "[] \<notin> set buffer" "buffer \<noteq> []" "sz \<le> pr_size p" "length (concat buffer) \<le> k"
  shows "LoadBuffer buffer sz (KOk k # ks) p =
    (Ret (length (concat buffer)), ks, p\<lparr>pr_bytes := pr_bytes p @ concat buffer\<rparr>)"
  using assms by (auto simp: LoadBuffer_def vmsplice_def ksize_def Let_def min_absorb2)

section \<open>The probes of \<open>init\<close>\<close>

text \<open>
  A kernel without \<open>F_SETPIPE_SZ\<close> or a size file that is not a number makes every pair keep
  the size it was created with: \<open>MaxGrow\<close> returns at once.
\<close>

lemma splice_init_fixed:
  assumes "splice_init f ks = (Ret env, ks')" "\<not> Resizable env \<or> MaxPipeSize env = 0" "0 < pr_size p"
  shows "MaxGrow env ks1 p = Some (ks1, p)"
proof -
  have "\<exists>e. Grow env (2 * pr_size p) ks1 p = (Fail e, ks1, p)"
    using assms(2,3) by (auto simp: Grow_def Resizable_def MaxPipeSize_def)
  then show ?thesis by (auto simp: MaxGrow.simps [of env ks1 p])
qed

section \<open>Copying files by name\<close>

lemma CopyFds_written:
  assumes "CopyFds env ks src dst pp = (x, ks', dst', pp')"
  shows "dst' = dst \<or> (\<exists>a ks1 pp1 g ks2 p t e ks3 p'. pool_get ks pp = (Ret a, ks1, pp1) \<and>
    Grow env (256 * 1024) ks1 (pp_heap pp1 a) = (g, ks2, p) \<and> SpliceCopy ks2 src dst 0 p = ((t, e), ks3, dst', p'))"
proof -
  obtain y ks1 pp1 where G: "pool_get ks pp = (y, ks1, pp1)" by (cases "pool_get ks pp")
  show ?thesis
  proof (cases y)
    case (Ret a)
    obtain g ks2 p where W: "Grow env (256 * 1024) ks1 (pp_heap pp1 a) = (g, ks2, p)"
      by (cases "Grow env (256 * 1024) ks1 (pp_heap pp1 a)")
    obtain t e ks3 d p' where S: "SpliceCopy ks2 src dst 0 p = ((t, e), ks3, d, p')"
      by (metis prod_cases4 surj_pair)
    have "d = dst'" using assms G Ret W S by (auto simp: CopyFds_def split: prod.splits outcome.splits)
    then show ?thesis using G Ret W S by blast
  qed (use assms G in \<open>auto simp: CopyFds_def\<close>)
qed

lemma CopyFds_prefix:
  assumes C: "CopyFds env ks src [] pp = (x, ks', dst', pp')"
    and empty: "\<And>a ks1 pp1. pool_get ks pp = (Ret a, ks1, pp1) \<Longrightarrow> pr_bytes (pp_heap pp1 a) = []"
  shows "\<exists>m \<le> length src. dst' = take m src"
proof (rule disjE [OF CopyFds_written [OF C]])
  assume "\<exists>a ks1 pp1 g ks2 p t e ks3 p'. pool_get ks pp = (Ret a, ks1, pp1) \<and>
    Grow env (256 * 1024) ks1 (pp_heap pp1 a) = (g, ks2, p) \<and> SpliceCopy ks2 src [] 0 p = ((t, e), ks3, dst', p')"
  then obtain a ks1 pp1 g ks2 p t e ks3 p' where "pool_get ks pp = (Ret a, ks1, pp1)"
    "Grow env (256 * 1024) ks1 (pp_heap pp1 a) = (g, ks2, p)" "SpliceCopy ks2 src [] 0 p = ((t, e), ks3, dst', p')" by blast
  with SpliceCopy_prefix [of ks2 src "[]" 0 p t e ks3 dst' p'] empty Grow_bytes show ?thesis by force
qed auto

lemma discard_moves: "moves_all sz ks \<Longrightarrow> ks \<noteq> [] \<Longrightarrow> \<exists>ks' p'. discard ks p = (Ret (), ks', p')"
  by (cases ks) (auto simp: discard_def WriteTo_def ksize_def moves_all_Cons Let_def)

lemma CopyFds_all:
  assumes "pool_get ks pp = (Ret a, ks1, pp1)" "Grow env (256 * 1024) ks1 (pp_heap pp1 a) = (g, ks2, p)"
    and "pr_bytes (pp_heap pp1 a) = []" "0 < pr_size p" "moves_all (pr_size p) ks2" "2 * length src + 1 < length ks2"
  shows "\<exists>ks' pp'. CopyFds env ks src [] pp = (Ret (), ks', src, pp')"
proof -
  have "pr_bytes p = []" using Grow_bytes [OF assms(2)] assms(3) by simp
  from SpliceCopy_all [OF assms(4) this assms(5), of src "[]" 0] assms(6) obtain ks3 p' where
    S: "SpliceCopy ks2 src [] 0 p = ((int (length src), None), ks3, src, p')"
    "moves_all (pr_size p) ks3" "length ks2 \<le> length ks3 + 2 * length src + 1" by auto
  then have "ks3 \<noteq> []" using assms(6) by auto
  from discard_moves [OF S(2) this] obtain ks4 p'' where "discard ks3 p' = (Ret (), ks4, p'')" by blast
  then show ?thesis using assms(1,2) S(1) by (simp add: CopyFds_def pool_done_def)
qed

text \<open>
  \<open>CopyFile\<close> from one file to another leaves the source and every other file alone and
  writes a prefix of the source into the destination, whatever the kernel answers; when the
  kernel moves what it is asked to, it returns nil and the destination is a copy of the source.
\<close>

lemma CopyFile_copies:
  assumes "srcName \<noteq> dstName" "fs_files fs srcName = Some bs"
    and "fs_denied fs False srcName = None" "fs_denied fs True dstName = None"
    and "pool_get ks pp = (Ret a, ks1, pp1)" "pr_bytes (pp_heap pp1 a) = []"
    and "Grow env (256 * 1024) ks1 (pp_heap pp1 a) = (g, ks2, p)"
  shows "\<exists>x ks' fs' pp' m. CopyFile env ks dstName srcName fs pp = (x, ks', fs', pp') \<and>
    fs_files fs' = (fs_files fs)(dstName \<mapsto> take m bs) \<and>
    (0 < pr_size p \<and> moves_all (pr_size p) ks2 \<and> 2 * length bs + 1 < length ks2 \<longrightarrow>
       x = Ret () \<and> fs_files fs' dstName = Some bs)"
proof -
  obtain x ks' d pp' where C: "CopyFds env ks bs [] pp = (x, ks', d, pp')" by (cases "CopyFds env ks bs [] pp")
  obtain m where m: "d = take m bs" using CopyFds_prefix [OF C] assms(5,6) by auto
  have "CopyFile env ks dstName srcName fs pp =
      (x, ks', fs\<lparr>fs_files := (fs_files fs)(dstName \<mapsto> d)\<rparr>, pp')"
    using assms(1-4) C by (simp add: CopyFile_def os_Open_def os_Create_def)
  moreover have "x = Ret () \<and> d = bs"
    if "0 < pr_size p \<and> moves_all (pr_size p) ks2 \<and> 2 * length bs + 1 < length ks2"
    using CopyFds_all [OF assms(5,7,6), of bs] that C by auto
  ultimately show ?thesis using m by auto
qed

definition demo_files :: filesys where
  "demo_files = \<lparr>fs_files = [''a'' \<mapsto> [1, 2, 3]], fs_denied = (\<lambda>_ _. None)\<rparr>"

lemma CopyFile_copies_witness:
  "\<exists>ks' fs' pp'. CopyFile \<lparr>resizable = False, maxPipeSize = 0\<rparr> (KPipe 3 4 # KOk 2 # replicate 9 (KOk 4)) ''b'' ''a''
      demo_files newSplicePairPool = (Ret (), ks', fs', pp') \<and> fs_files fs' ''b'' = Some [1, 2, 3]"
proof -
  let ?env = "\<lparr>resizable = False, maxPipeSize = 0\<rparr>" and ?ks = "KPipe 3 4 # KOk 2 # replicate 9 (KOk 4)"
  let ?p = "\<lparr>pr_r = 3, pr_w = 4, pr_size = 2, pr_bytes = [], pr_open = True\<rparr>"
  let ?pp = "newSplicePairPool\<lparr>usedCount := 1, pp_heap := (pp_heap newSplicePairPool)(0 := ?p), pp_next := 1\<rparr>"
  have G: "pool_get ?ks newSplicePairPool = (Ret 0, replicate 9 (KOk 4), ?pp)"
    by (simp add: pool_get_def newSplicePairPool_def newSplicePair_def osPipe_def ksize_def del: replicate.simps)
  have W: "Grow ?env (256 * 1024) (replicate 9 (KOk 4)) (pp_heap ?pp 0) = (Fail (Errorf ''splice: not resizable''), replicate 9 (KOk 4), ?p)"
    by (simp add: Grow_def)
  have f: "''a'' \<noteq> ''b''" "fs_files demo_files ''a'' = Some [1, 2, 3]" "fs_denied demo_files False ''a'' = None"
    "fs_denied demo_files True ''b'' = None" "pr_bytes (pp_heap ?pp 0) = []" by (simp_all add: demo_files_def)
  have "0 < pr_size ?p \<and> moves_all (pr_size ?p) (replicate 9 (KOk 4)) \<and> 2 * length [1 :: byte, 2, 3] + 1 < length (replicate 9 (KOk 4))"
    by (simp add: moves_all_def)
  with CopyFile_copies [OF f(1-4) G f(5) W] show ?thesis by blast
qed

text \<open>Copying a file onto itself empties it: it is truncated before the first byte is read.\<close>

lemma CopyFile_onto_itself:
  assumes "os_Open name fs = None" "fs_denied fs True name = None" "CopyFile env ks name name fs pp = (x, ks', fs', pp')"
  shows "fs_files fs' name = Some []"
proof -
  obtain y ks1 d pp1 where C: "CopyFds env ks [] [] pp = (y, ks1, d, pp1)" by (cases "CopyFds env ks [] [] pp")
  have "SpliceCopy ks [] [] 0 p = ((t, e), ks', d', p') \<Longrightarrow> d' = []" for ks p t e ks' d' p'
    by (cases "LoadFrom (pr_size p) ks [] p")
      (auto simp: SpliceCopy.simps [of ks] dest!: LoadFrom_Ret split: outcome.splits)
  with CopyFds_written [OF C] have "d = []" by blast
  then show ?thesis using assms C by (auto simp: CopyFile_def os_Create_def)
qed

section \<open>The package on darwin\<close>

text \<open>
  \<^verbatim>\<open>pair_darwin.go\<close> and \<^verbatim>\<open>splice_darwin.go\<close> replace the operations that need Linux: \<open>osPipe\<close>
  returns an error, the others panic.
\<close>

definition osPipe_darwin :: "(nat \<times> nat) outcome" where
  "osPipe_darwin = Fail (Errorf ''not implemented'')"

definition LoadFrom_darwin :: "int \<Rightarrow> Pair \<Rightarrow> nat outcome" where
  "LoadFrom_darwin sz p = Panic ''not implemented''"

definition WriteTo_darwin :: "nat \<Rightarrow> Pair \<Rightarrow> nat outcome" where
  "WriteTo_darwin n p = Panic ''not implemented''"

definition discard_darwin :: "Pair \<Rightarrow> unit outcome" where
  "discard_darwin p = Panic ''not implemented''"

text \<open>\<open>get\<close> and \<open>done\<close> of the pool over these; a new pair begins with \<open>osPipe\<close>.\<close>

definition pool_get_darwin :: "pairPool \<Rightarrow> nat outcome \<times> pairPool" where
  "pool_get_darwin pp =
     (let pp1 = pp\<lparr>usedCount := usedCount pp + 1\<rparr> in
      if unused pp \<noteq> [] then (Ret (last (unused pp)), pp1\<lparr>unused := butlast (unused pp)\<rparr>)
      else case osPipe_darwin of
          Ret (r, w) \<Rightarrow> (Ret (pp_next pp), pp1\<lparr>pp_next := Suc (pp_next pp)\<rparr>)
        | Fail e \<Rightarrow> (Fail e, pp1)
        | Panic s \<Rightarrow> (Panic s, pp1))"

definition pool_done_darwin :: "nat \<Rightarrow> pairPool \<Rightarrow> unit outcome \<times> pairPool" where
  "pool_done_darwin a pp =
     (case discard_darwin (pp_heap pp a) of
        Ret _ \<Rightarrow> (Ret (), pp\<lparr>usedCount := usedCount pp - 1, unused := unused pp @ [a]\<rparr>)
      | Fail e \<Rightarrow> (Fail e, pp)
      | Panic s \<Rightarrow> (Panic s, pp))"

inductive darwin_reach :: "pairPool \<Rightarrow> nat set \<Rightarrow> bool" where
  start: "darwin_reach newSplicePairPool {}"
| get: "darwin_reach pp held \<Longrightarrow> pool_get_darwin pp = (Ret a, pp') \<Longrightarrow> darwin_reach pp' (insert a held)"
| get_fails: "darwin_reach pp held \<Longrightarrow> pool_get_darwin pp = (Fail e, pp') \<Longrightarrow> darwin_reach pp' held"
| give_back: "darwin_reach pp held \<Longrightarrow> a \<in> held \<Longrightarrow> pool_done_darwin a pp = (Ret (), pp') \<Longrightarrow> darwin_reach pp' (held - {a})"
| drop_pair: "darwin_reach pp held \<Longrightarrow> a \<in> held \<Longrightarrow> darwin_reach (pool_drop a pp) (held - {a})"
| clear: "darwin_reach pp held \<Longrightarrow> darwin_reach (pool_clear pp) held"

text \<open>
  On darwin nobody ever holds a pair, because \<open>get\<close> always returns an error: the operations that
  panic are never reached through the pool.
\<close>

lemma darwin_has_no_pairs:
  "darwin_reach pp held \<Longrightarrow> held = {} \<and> fst (pool_get_darwin pp) = Fail (Errorf ''not implemented'')"
proof -
  assume "darwin_reach pp held"
  then have "held = {} \<and> unused pp = []"
    by (induction rule: darwin_reach.induct)
      (auto simp: newSplicePairPool_def pool_get_darwin_def osPipe_darwin_def pool_clear_def Let_def)
  then show ?thesis by (simp add: pool_get_darwin_def osPipe_darwin_def Let_def)
qed

end
