(* ===== verification/Progress.thy ===== *)
theory Progress
  imports Client_Results Server_Safety
begin

text \<open>
  Nothing gets stuck. From every reachable state of the client its connections can release
  every waiting caller, and from every reachable state of the server all requests that have
  been read can be answered.
\<close>

section \<open>The client\<close>

text \<open>Steps of the connections: no caller starts, gives up or stops waiting.\<close>

definition conn_work :: "'h csys \<Rightarrow> 'h csys \<Rightarrow> bool" where
  "conn_work s s' \<longleftrightarrow> client_step s s' \<and> sy_held s' = sy_held s \<and> sy_waiting s' = sy_waiting s"

lemma conn_work_reach:
  assumes "conn_work\<^sup>*\<^sup>* s s'" "client_reach s"
  shows "client_reach s' \<and> sy_waiting s' = sy_waiting s"
  using assms by (induction rule: rtranclp_induct) (auto simp: conn_work_def intro: client_reach.step)

lemma end_connection:
  assumes "client_reach s" "i < length (sy_conns s)"
  shows "\<exists>c'. conn_work s (s\<lparr>sy_c := c', sy_conns := (sy_conns s)[i := newConn]\<rparr>) \<and> c_requests c' = c_requests (sy_c s)"
proof -
  obtain R where R: "res_inv (sy_c s) (map snd (cc_pending (sy_conns s ! i)) @ R) (sy_held s) (sy_waiting s)"
    using client_reach_conn [OF assms] by blast
  from cleanup_releases [OF R, of "conn_error EndStop"] obtain c' where
    c': "cleanup (conn_error EndStop) (cc_pending (sy_conns s ! i)) (sy_c s) = (Ret (), c')" "c_requests c' = c_requests (sy_c s)"
    by blast
  have "client_step s (s\<lparr>sy_c := c', sy_conns := (sy_conns s)[i := newConn]\<rparr>)"
    using client_step.conn_ends [OF assms(2), of EndStop c'] c'(1) by (simp add: clientHandleConnection_end_def)
  with c'(2) show ?thesis by (auto simp: conn_work_def)
qed

text \<open>All connections end, one after the other.\<close>

lemma end_connections:
  assumes "client_reach s" "k \<le> length (sy_conns s)"
  shows "\<exists>s'. conn_work\<^sup>*\<^sup>* s s' \<and> c_requests (sy_c s') = c_requests (sy_c s) \<and>
    length (sy_conns s') = length (sy_conns s) \<and> (\<forall>j < k. sy_conns s' ! j = newConn)"
  using assms(2)
proof (induction k)
  case (Suc k)
  then obtain s' where s': "conn_work\<^sup>*\<^sup>* s s'" "c_requests (sy_c s') = c_requests (sy_c s)"
    "length (sy_conns s') = length (sy_conns s)" "\<forall>j < k. sy_conns s' ! j = newConn" by auto
  have r: "client_reach s'" using conn_work_reach [OF s'(1) assms(1)] by simp
  obtain c' where c': "conn_work s' (s'\<lparr>sy_c := c', sy_conns := (sy_conns s')[k := newConn]\<rparr>)" "c_requests c' = c_requests (sy_c s')"
    using end_connection [OF r, of k] Suc.prems s'(3) by auto
  have "conn_work\<^sup>*\<^sup>* s (s'\<lparr>sy_c := c', sy_conns := (sy_conns s')[k := newConn]\<rparr>)"
    using s'(1) c'(1) by (rule rtranclp.rtrancl_into_rtrancl)
  then show ?case using s' c'(2) Suc.prems
    by (intro exI [of _ "s'\<lparr>sy_c := c', sy_conns := (sy_conns s')[k := newConn]\<rparr>"]) (auto simp: nth_list_update less_Suc_eq)
qed auto

lemma take_shortens:
  assumes "clientWriter_take c cc = Some (x, c', cc')" "c_requests c = a # q"
  shows "c_requests c' = q"
  using assms
  by (auto simp: clientWriter_take_def finish_def releaseAsyncResult_def close_chan_def set_result_def Let_def
      split: if_splits option.splits prod.splits outcome.splits)

lemma take_on_new_connection:
  assumes "client_reach s" "0 < length (sy_conns s)" "sy_conns s ! 0 = newConn" "c_requests (sy_c s) = a # q"
  shows "\<exists>c' cc'. conn_work s (s\<lparr>sy_c := c', sy_conns := (sy_conns s)[0 := cc']\<rparr>) \<and> c_requests c' = q"
proof -
  have "nextMsgID newConn = Some 1" by (simp add: nextMsgID_def newConn_def freeID.simps [of "[]"])
  then have "clientWriter_take (sy_c s) newConn \<noteq> None"
    using assms(4) by (auto simp: clientWriter_take_def Let_def split: option.splits prod.splits outcome.splits)
  then obtain x c' cc' where T: "clientWriter_take (sy_c s) (sy_conns s ! 0) = Some (x, c', cc')"
    using assms(3) by auto
  obtain R where "res_inv (sy_c s) (map snd (cc_pending (sy_conns s ! 0)) @ R) (sy_held s) (sy_waiting s)"
    "distinct (map fst (cc_pending (sy_conns s ! 0)))" using client_reach_conn [OF assms(1,2)] by blast
  from clientWriter_take_inv [OF this T] obtain y where "x = Ret y" by blast
  with T have "client_step s (s\<lparr>sy_c := c', sy_conns := (sy_conns s)[0 := cc']\<rparr>)"
    using client_step.take [OF assms(2)] by blast
  with take_shortens [OF T assms(4)] show ?thesis by (auto simp: conn_work_def)
qed

lemma drain_all:
  assumes "client_reach s" "sy_conns s \<noteq> []" "\<forall>j < length (sy_conns s). sy_conns s ! j = newConn"
  shows "\<exists>s'. conn_work\<^sup>*\<^sup>* s s' \<and> c_requests (sy_c s') = [] \<and> pending_all (sy_conns s') = []"
  using assms
proof (induction "c_requests (sy_c s)" arbitrary: s)
  case Nil
  have "cc_pending cc = []" if "cc \<in> set (sy_conns s)" for cc
    using that Nil.prems(3) by (auto simp: in_set_conv_nth newConn_def)
  then have "pending_all (sy_conns s) = []" by (auto simp: pending_all_def)
  then show ?case using Nil.hyps by auto
next
  case (Cons a q)
  have n: "0 < length (sy_conns s)" "sy_conns s ! 0 = newConn" using Cons.prems(2,3) by auto
  obtain c1 cc1 where t: "conn_work s (s\<lparr>sy_c := c1, sy_conns := (sy_conns s)[0 := cc1]\<rparr>)" "c_requests c1 = q"
    using take_on_new_connection [OF Cons.prems(1) n Cons.hyps(2) [symmetric]] by blast
  let ?s1 = "s\<lparr>sy_c := c1, sy_conns := (sy_conns s)[0 := cc1]\<rparr>"
  have r1: "client_reach ?s1" using conn_work_reach [OF r_into_rtranclp [of conn_work, OF t(1)] Cons.prems(1)] by simp
  obtain c2 where e: "conn_work ?s1 (?s1\<lparr>sy_c := c2, sy_conns := (sy_conns ?s1)[0 := newConn]\<rparr>)" "c_requests c2 = q"
    using end_connection [OF r1, of 0] n(1) t(2) by auto
  let ?s2 = "?s1\<lparr>sy_c := c2, sy_conns := (sy_conns ?s1)[0 := newConn]\<rparr>"
  have r2: "client_reach ?s2" using conn_work_reach [OF r_into_rtranclp [of conn_work, OF e(1)] r1] by simp
  have "\<forall>j < length (sy_conns ?s2). sy_conns ?s2 ! j = newConn"
    using Cons.prems(3) n(1) by (simp add: nth_list_update)
  then obtain s' where "conn_work\<^sup>*\<^sup>* ?s2 s'" "c_requests (sy_c s') = []" "pending_all (sy_conns s') = []"
    using Cons.hyps(1) [of ?s2] r2 e(2) Cons.prems(2) by auto
  moreover have "conn_work\<^sup>*\<^sup>* s ?s2"
    using r_into_rtranclp [of conn_work, OF t(1)] e(1) by (rule rtranclp.rtrancl_into_rtrancl)
  ultimately show ?case by (meson rtranclp_trans)
qed



section \<open>The server\<close>

text \<open>How far the tasks and the queued responses are from being done.\<close>

fun stage_work :: "'h task \<Rightarrow> nat" where
  "stage_work (i, a, Waiting) = 6"
| "stage_work (i, a, Started) = 5"
| "stage_work (i, a, Handling _ _ _) = 4"
| "stage_work (i, a, Replying) = 3"
| "stage_work (i, a, Leaving) = 1"

definition work_left :: "'h ssys \<Rightarrow> nat" where
  "work_left s = sum_mset (image_mset stage_work (ss_tasks s)) + length (queued (ss_conns s))"

text \<open>A step that reads nothing new and gives nothing up, on a server with room for workers and responses.\<close>

definition serving :: "'h ssys \<Rightarrow> bool" where
  "serving s \<longleftrightarrow> 0 < s_Concurrency (ss_s s) \<and> (\<forall>sc \<in> set (ss_conns s). 0 < sc_cap sc)"

definition serve_step :: "'h handler set \<Rightarrow> (nat \<Rightarrow> string) \<Rightarrow> 'h ssys \<Rightarrow> 'h ssys \<Rightarrow> bool" where
  "serve_step hs addr s s' \<longleftrightarrow> server_step hs addr s s' \<and> ss_in s' = ss_in s \<and> ss_lost s' = ss_lost s"

lemma serving_update:
  assumes "serving s" "i < length (ss_conns s)" "sc_cap sc = sc_cap (ss_conns s ! i)"
  shows "\<forall>x \<in> set ((ss_conns s)[i := sc]). 0 < sc_cap x"
  using assms set_update_subset_insert [of "ss_conns s" i sc] by (auto simp: serving_def)

lemma queued_update:
  assumes "i < length conns"
  shows "length (queued (conns[i := sc])) + length (sc_responses (conns ! i)) = length (queued conns) + length (sc_responses sc)"
proof -
  obtain R where "mset (queued conns) = mset (sc_responses (conns ! i) @ R)" "mset (queued (conns[i := sc])) = mset (sc_responses sc @ R)"
    using queued_split [OF assms] by blast
  from this [THEN mset_eq_length] show ?thesis by simp
qed

text \<open>The writer of a connection with queued responses.\<close>

lemma write_response:
  assumes "serving s" "i < length (ss_conns s)" "sc_responses (ss_conns s ! i) = a # q"
  shows "\<exists>s'. serve_step hs addr s s' \<and> work_left s' < work_left s \<and> serving s'"
proof -
  let ?m = "s_heap (ss_s s) a"
  obtain wr s' sc' where T: "serverWriter_take (ss_s s) (ss_conns s ! i) = (Some wr, s', sc')"
    "s_Concurrency s' = s_Concurrency (ss_s s)" "sc_responses sc' = q" "sc_cap sc' = sc_cap (ss_conns s ! i)"
    using assms(3) by (auto simp: serverWriter_take_def putMessage_def set_message_def Let_def split: option.splits)
  let ?s = "s\<lparr>ss_s := s', ss_conns := (ss_conns s)[i := sc'\<lparr>sc_wr := clear_wire wr\<rparr>],
      ss_out := add_mset (ss_origin s a, wr) (ss_out s)\<rparr>"
  have "serve_step hs addr s ?s"
    using server_step.encode [OF assms(2,3) T(1)] by (simp add: serve_step_def)
  moreover have "work_left ?s < work_left s"
    using queued_update [OF assms(2), of "sc'\<lparr>sc_wr := clear_wire wr\<rparr>"] assms(3) T(3) by (simp add: work_left_def)
  moreover have "serving ?s"
    using serving_update [OF assms(1,2), of "sc'\<lparr>sc_wr := clear_wire wr\<rparr>"] T(2,4) assms(1) by (simp add: serving_def)
  ultimately show ?thesis by blast
qed

text \<open>A task that a worker is busy with, while no response is queued.\<close>

lemma busy_task_moves:
  assumes inv: "server_inv hs addr s" and s: "serving s" "queued (ss_conns s) = []" "h \<in> hs"
    and t: "ss_tasks s = add_mset (i, a, st) T" "st \<noteq> Waiting"
  shows "\<exists>s'. serve_step hs addr s s' \<and> work_left s' < work_left s \<and> serving s'"
proof -
  have ok: "task_ok hs addr (length (ss_conns s)) (ss_origin s a) (s_heap (ss_s s) a) i st"
    using inv t(1) by (simp add: server_inv_def tasks_ok_def)
  show ?thesis
  proof (cases st)
    case Waiting
    with t(2) show ?thesis by simp
  next
    case Started
    with ok obtain r ca skip s1 where W: "serveRequest_begin a (ss_s s) = (Ret (r, ca, skip), s1)"
      and c: "s_Concurrency s1 = s_Concurrency (ss_s s)"
      by (auto simp: serveRequest_begin_def putMessage_def set_message_def Let_def)
    from server_step.work [OF t(1) [unfolded Started] W] have
      "serve_step hs addr s (s\<lparr>ss_s := s1, ss_tasks := add_mset (i, a, Handling r ca skip) T\<rparr>)" by (simp add: serve_step_def)
    then show ?thesis using s(1) c t(1) Started by (auto simp: work_left_def serving_def)
  next
    case (Handling r ca skip)
    from server_step.handle [OF t(1) [unfolded Handling] s(3), of addr 0 "[]"] have
      "serve_step hs addr s (s\<lparr>ss_s := serveRequest_result a 0 skip (callHandlerWithRecover [] h ca r) (ss_s s),
        ss_tasks := add_mset (i, a, if skip then Leaving else Replying) T\<rparr>)" by (simp add: serve_step_def)
    then show ?thesis using s(1) t(1) Handling
      by (auto simp: work_left_def serving_def serveRequest_result_def set_message_def Let_def split: if_splits
          intro!: exI [of _ "s\<lparr>ss_s := serveRequest_result a 0 skip (callHandlerWithRecover [] h ca r) (ss_s s),
            ss_tasks := add_mset (i, a, if skip then Leaving else Replying) T\<rparr>"])
  next
    case Replying
    with ok have i: "i < length (ss_conns s)" by simp
    then have e: "sc_responses (ss_conns s ! i) = []" "0 < sc_cap (ss_conns s ! i)"
      using s(1,2) by (auto simp: queued_def serving_def)
    let ?sc = "(ss_conns s ! i)\<lparr>sc_responses := [a]\<rparr>"
    have R: "serveRequest_send a (ss_conns s ! i) = (True, ?sc)" using e by (simp add: serveRequest_send_def)
    from server_step.reply [OF t(1) [unfolded Replying] R] have
      "serve_step hs addr s (s\<lparr>ss_conns := (ss_conns s)[i := ?sc], ss_tasks := add_mset (i, a, Leaving) T\<rparr>)" by (simp add: serve_step_def)
    then show ?thesis
      using s(1) t(1) Replying queued_update [OF i, of ?sc] serving_update [OF s(1) i, of ?sc] e(1)
      by (intro exI [of _ "s\<lparr>ss_conns := (ss_conns s)[i := ?sc], ss_tasks := add_mset (i, a, Leaving) T\<rparr>"])
        (simp add: work_left_def serving_def)
  next
    case Leaving
    from server_step.leave [OF t(1) [unfolded Leaving]] have
      "serve_step hs addr s (s\<lparr>ss_s := workers_leave (ss_s s), ss_tasks := T\<rparr>)" by (simp add: serve_step_def)
    then show ?thesis using s(1) t(1) Leaving by (auto simp: work_left_def serving_def workers_leave_def)
  qed
qed

lemma serve_progress:
  assumes inv: "server_inv hs addr s" and s: "serving s" "h \<in> hs" "work_left s \<noteq> 0"
  shows "\<exists>s'. serve_step hs addr s s' \<and> work_left s' < work_left s \<and> serving s'"
proof (cases "queued (ss_conns s) = []")
  case False
  then obtain i a q where "i < length (ss_conns s)" "sc_responses (ss_conns s ! i) = a # q"
    by (auto simp: queued_def in_set_conv_nth neq_Nil_conv)
  then show ?thesis by (rule write_response [OF s(1)])
next
  case True
  show ?thesis
  proof (cases "busy (ss_tasks s) = 0")
    case False
    then have "filter_mset (\<lambda>(i, a, st). st \<noteq> Waiting) (ss_tasks s) \<noteq> {#}" by (auto simp: busy_def)
    then obtain t where "t \<in># filter_mset (\<lambda>(i, a, st). st \<noteq> Waiting) (ss_tasks s)" by (rule multiset_nonemptyE)
    then obtain i a st where "(i, a, st) \<in># ss_tasks s" "st \<noteq> Waiting" by (cases t) auto
    with busy_task_moves [OF inv s(1) True s(2)] show ?thesis by (metis mset_add)
  next
    case idle: True
    have "ss_tasks s \<noteq> {#}" using s(3) True by (auto simp: work_left_def)
    then obtain i a st T where t: "ss_tasks s = add_mset (i, a, st) T" by (metis multiset_cases prod_cases3)
    with idle have w: "st = Waiting" by (auto split: if_splits)
    have "s_workers (ss_s s) < s_Concurrency (ss_s s)" using inv idle s(1) by (simp add: server_inv_def serving_def)
    then have W: "workers_enter (ss_s s) = (True, (ss_s s)\<lparr>s_workers := Suc (s_workers (ss_s s))\<rparr>)"
      by (simp add: workers_enter_def)
    from server_step.admit [OF t [unfolded w] W] have
      "serve_step hs addr s (s\<lparr>ss_s := (ss_s s)\<lparr>s_workers := Suc (s_workers (ss_s s))\<rparr>, ss_tasks := add_mset (i, a, Started) T\<rparr>)"
      by (simp add: serve_step_def)
    then show ?thesis using s(1) t w by (auto simp: work_left_def serving_def)
  qed
qed

lemma serve_all:
  assumes "server_inv hs addr s" "serving s" "h \<in> hs"
  shows "\<exists>s'. (serve_step hs addr)\<^sup>*\<^sup>* s s' \<and> server_inv hs addr s' \<and> work_left s' = 0"
  using assms(1,2)
proof (induction "work_left s" arbitrary: s rule: less_induct)
  case less
  show ?case
  proof (cases "work_left s = 0")
    case True
    with less.prems show ?thesis by blast
  next
    case False
    from serve_progress [OF less.prems assms(3) False] obtain s1 where
      s1: "serve_step hs addr s s1" "work_left s1 < work_left s" "serving s1" by blast
    have "server_inv hs addr s1" using server_step_inv s1(1) less.prems(1) by (auto simp: serve_step_def)
    from less.hyps [OF s1(2) this s1(3)] s1(1) show ?thesis by (meson converse_rtranclp_into_rtranclp)
  qed
qed

lemma serve_steps_keep:
  assumes "(serve_step hs addr)\<^sup>*\<^sup>* s s'"
  shows "ss_in s' = ss_in s \<and> ss_lost s' = ss_lost s"
  using assms by (induction rule: rtranclp_induct) (auto simp: serve_step_def)



end
