(* ===== verification/Connection_Control.thy ===== *)
theory Connection_Control
  imports Client_Conn Lifecycle
begin

text \<open>
  The goroutines around a connection: \<open>clientHandleConnection\<close> (\<^verbatim>\<open>src/client.go\<close>) and
  \<open>serverHandleConnection\<close> (\<^verbatim>\<open>src/server.go\<close>) start a reader and a writer, wait until one of them
  ends or everything stops, close \<open>stopChan\<close> and the connection, and wait for the others. The
  client then completes the pending requests without a lock, so it matters that nobody else
  runs any more. Around this is the loop of \<open>clientHandler\<close>, which dials again.
\<close>

section \<open>Waiting for reader and writer\<close>

text \<open>
  A goroutine runs, has left the value of its \<open>err\<close> in its \<open>done\<close> channel (which has room for
  it, so this never blocks), or its value has been received.
\<close>

datatype goroutine = Running | Finished "goerr option" | Collected

datatype ctl_phase = Selecting | AwaitReader | AwaitWriter | AwaitBoth | Over

record conn_ctl =
  k_phase :: ctl_phase
  k_err :: "goerr option"
  k_stopped :: bool
  k_open :: bool
  k_reader :: goroutine
  k_writer :: goroutine

definition new_ctl :: conn_ctl where
  "new_ctl = \<lparr>k_phase = Selecting, k_err = None, k_stopped = False, k_open = True, k_reader = Running, k_writer = Running\<rparr>"

text \<open>\<open>close(stopChan)\<close>, which panics if it is closed, and \<open>conn.Close()\<close>.\<close>

definition shut :: "conn_ctl \<Rightarrow> conn_ctl outcome" where
  "shut k = (if k_stopped k then Panic ''close of closed channel'' else Ret (k\<lparr>k_stopped := True, k_open := False\<rparr>))"

definition then_phase :: "ctl_phase \<Rightarrow> conn_ctl outcome \<Rightarrow> conn_ctl outcome" where
  "then_phase ph x = (case x of Ret k \<Rightarrow> Ret (k\<lparr>k_phase := ph\<rparr>) | y \<Rightarrow> y)"

text \<open>The channels \<open>clientHandleConnection\<close> and \<open>serverHandleConnection\<close> receive from.\<close>

datatype ctl_event = RecvWriter | RecvReader | RecvStop

text \<open>
  The end of \<open>clientHandleConnection\<close>: the \<open>select\<close> and the receives after it. \<open>None\<close>: it does
  not receive from this channel now, or the channel is not ready. \<open>stopping\<close> says that
  \<open>clientStopChan\<close> is closed.
\<close>

definition clientHandleConnection_wait :: "bool \<Rightarrow> ctl_event \<Rightarrow> conn_ctl \<Rightarrow> conn_ctl outcome option" where
  "clientHandleConnection_wait stopping ev k =
     (case (k_phase k, ev) of
        (Selecting, RecvWriter) \<Rightarrow>
          (case k_writer k of
             Finished e \<Rightarrow> Some (then_phase AwaitReader (shut (k\<lparr>k_err := e, k_writer := Collected\<rparr>)))
           | _ \<Rightarrow> None)
      | (Selecting, RecvReader) \<Rightarrow>
          (case k_reader k of
             Finished e \<Rightarrow> Some (then_phase AwaitWriter (shut (k\<lparr>k_err := e, k_reader := Collected\<rparr>)))
           | _ \<Rightarrow> None)
      | (Selecting, RecvStop) \<Rightarrow> if stopping then Some (then_phase AwaitBoth (shut k)) else None
      | (AwaitReader, RecvReader) \<Rightarrow>
          (case k_reader k of Finished e \<Rightarrow> Some (Ret (k\<lparr>k_reader := Collected, k_phase := Over\<rparr>)) | _ \<Rightarrow> None)
      | (AwaitWriter, RecvWriter) \<Rightarrow>
          (case k_writer k of Finished e \<Rightarrow> Some (Ret (k\<lparr>k_writer := Collected, k_phase := Over\<rparr>)) | _ \<Rightarrow> None)
      | (AwaitBoth, RecvReader) \<Rightarrow>
          (case k_reader k of Finished e \<Rightarrow> Some (Ret (k\<lparr>k_reader := Collected, k_phase := AwaitWriter\<rparr>)) | _ \<Rightarrow> None)
      | _ \<Rightarrow> None)"

text \<open>
  The end of \<open>serverHandleConnection\<close>. Reader and writer close their \<open>done\<close> channels, from
  which one can receive any number of times; there is no error to keep.
\<close>

definition serverHandleConnection_wait :: "bool \<Rightarrow> ctl_event \<Rightarrow> conn_ctl \<Rightarrow> conn_ctl outcome option" where
  "serverHandleConnection_wait stopping ev k =
     (case (k_phase k, ev) of
        (Selecting, RecvReader) \<Rightarrow> if k_reader k \<noteq> Running then Some (then_phase AwaitWriter (shut k)) else None
      | (Selecting, RecvWriter) \<Rightarrow> if k_writer k \<noteq> Running then Some (then_phase AwaitReader (shut k)) else None
      | (Selecting, RecvStop) \<Rightarrow> if stopping then Some (then_phase AwaitBoth (shut k)) else None
      | (AwaitReader, RecvReader) \<Rightarrow> if k_reader k \<noteq> Running then Some (Ret (k\<lparr>k_phase := Over\<rparr>)) else None
      | (AwaitWriter, RecvWriter) \<Rightarrow> if k_writer k \<noteq> Running then Some (Ret (k\<lparr>k_phase := Over\<rparr>)) else None
      | (AwaitBoth, RecvReader) \<Rightarrow> if k_reader k \<noteq> Running then Some (Ret (k\<lparr>k_phase := AwaitWriter\<rparr>)) else None
      | _ \<Rightarrow> None)"

text \<open>Reader and writer may end at any time; the stop may come at any time.\<close>

inductive ctl_reach :: "(bool \<Rightarrow> ctl_event \<Rightarrow> conn_ctl \<Rightarrow> conn_ctl outcome option) \<Rightarrow> conn_ctl \<Rightarrow> bool" for wait where
  start: "ctl_reach wait new_ctl"
| receive: "ctl_reach wait k \<Longrightarrow> wait stopping ev k = Some (Ret k') \<Longrightarrow> ctl_reach wait k'"
| reader_ends: "ctl_reach wait k \<Longrightarrow> k_reader k = Running \<Longrightarrow> ctl_reach wait (k\<lparr>k_reader := Finished e\<rparr>)"
| writer_ends: "ctl_reach wait k \<Longrightarrow> k_writer k = Running \<Longrightarrow> ctl_reach wait (k\<lparr>k_writer := Finished e\<rparr>)"

text \<open>
  Where the connection is: it is open until somebody is received from, and who is no longer
  awaited has ended.
\<close>

definition ctl_inv :: "conn_ctl \<Rightarrow> bool" where
  "ctl_inv k \<longleftrightarrow> (k_stopped k \<longleftrightarrow> k_phase k \<noteq> Selecting) \<and> (k_open k \<longleftrightarrow> k_phase k = Selecting) \<and>
     (k_phase k = AwaitReader \<or> k_phase k = Over \<longrightarrow> k_writer k \<noteq> Running) \<and>
     (k_phase k = AwaitWriter \<or> k_phase k = Over \<longrightarrow> k_reader k \<noteq> Running) \<and>
     (k_phase k \<in> {Selecting, AwaitReader, AwaitBoth} \<longrightarrow> k_reader k \<noteq> Collected) \<and>
     (k_phase k \<in> {Selecting, AwaitWriter, AwaitBoth} \<longrightarrow> k_writer k \<noteq> Collected)"

text \<open>What both functions promise: no step panics or breaks the invariant, and what has ended is received.\<close>

locale conn_waiter =
  fixes wait :: "bool \<Rightarrow> ctl_event \<Rightarrow> conn_ctl \<Rightarrow> conn_ctl outcome option"
  assumes wait_inv: "ctl_inv k \<Longrightarrow> wait stopping ev k = Some x \<Longrightarrow> \<exists>k'. x = Ret k' \<and> ctl_inv k'"
    and wait_ready: "ctl_inv k \<Longrightarrow> k_phase k \<noteq> Over \<Longrightarrow> k_reader k \<noteq> Running \<Longrightarrow> k_writer k \<noteq> Running \<Longrightarrow>
      \<exists>ev. wait stopping ev k \<noteq> None"
begin

lemma reach_inv: "ctl_reach wait k \<Longrightarrow> ctl_inv k"
proof (induction rule: ctl_reach.induct)
  case start
  show ?case by (simp add: ctl_inv_def new_ctl_def)
next
  case (receive k stopping ev k')
  then show ?case using wait_inv by blast
qed (auto simp: ctl_inv_def)

lemma joins:
  assumes "ctl_reach wait k"
  shows "(k_phase k = Over \<longrightarrow> k_reader k \<noteq> Running \<and> k_writer k \<noteq> Running \<and> k_stopped k \<and> \<not> k_open k) \<and>
    (\<forall>ev s. wait stopping ev k \<noteq> Some (Panic s)) \<and>
    (k_phase k \<noteq> Over \<and> k_reader k \<noteq> Running \<and> k_writer k \<noteq> Running \<longrightarrow> (\<exists>ev k'. wait stopping ev k = Some (Ret k')))"
proof (intro conjI allI impI)
  show "wait stopping ev k \<noteq> Some (Panic s)" for ev s
    using wait_inv [OF reach_inv [OF assms], of stopping ev "Panic s"] by auto
  show "\<exists>ev k'. wait stopping ev k = Some (Ret k')"
    if "k_phase k \<noteq> Over \<and> k_reader k \<noteq> Running \<and> k_writer k \<noteq> Running"
  proof -
    from that wait_ready [OF reach_inv [OF assms], of stopping] obtain ev x where "wait stopping ev k = Some x" by blast
    with wait_inv [OF reach_inv [OF assms]] show ?thesis by blast
  qed
qed (use reach_inv [OF assms] in \<open>auto simp: ctl_inv_def\<close>)

end

lemmas ctl_defs = ctl_inv_def shut_def then_phase_def

interpretation client_wait: conn_waiter clientHandleConnection_wait
proof
  fix k stopping ev x
  assume "ctl_inv k" "clientHandleConnection_wait stopping ev k = Some x"
  then show "\<exists>k'. x = Ret k' \<and> ctl_inv k'"
    by (cases "k_phase k"; cases ev) (auto simp: clientHandleConnection_wait_def ctl_defs split: goroutine.splits if_splits)
next
  fix k stopping
  assume "ctl_inv k" "k_phase k \<noteq> Over" "k_reader k \<noteq> Running" "k_writer k \<noteq> Running"
  then show "\<exists>ev. clientHandleConnection_wait stopping ev k \<noteq> None"
    by (cases "k_phase k")
      (auto simp: clientHandleConnection_wait_def ctl_inv_def split: goroutine.splits intro: exI [of _ RecvReader] exI [of _ RecvWriter])
qed

interpretation server_wait: conn_waiter serverHandleConnection_wait
proof
  fix k stopping ev x
  assume "ctl_inv k" "serverHandleConnection_wait stopping ev k = Some x"
  then show "\<exists>k'. x = Ret k' \<and> ctl_inv k'"
    by (cases "k_phase k"; cases ev) (auto simp: serverHandleConnection_wait_def ctl_defs split: if_splits)
next
  fix k stopping
  assume "ctl_inv k" "k_phase k \<noteq> Over" "k_reader k \<noteq> Running" "k_writer k \<noteq> Running"
  then show "\<exists>ev. serverHandleConnection_wait stopping ev k \<noteq> None"
    by (cases "k_phase k")
      (auto simp: serverHandleConnection_wait_def intro: exI [of _ RecvReader] exI [of _ RecvWriter])
qed

text \<open>
  C11. The client joins its goroutines: \<open>stopChan\<close> is closed once, whatever comes first; when
  the pending requests of a connection are completed, its reader and its writer have ended and
  the connection is closed, so nobody else uses the map of pending requests; and once both have
  ended there is always something to receive, so the handler does not hang.
\<close>

theorem clientHandleConnection_joins:
  assumes "ctl_reach clientHandleConnection_wait k"
  shows "(k_phase k = Over \<longrightarrow> k_reader k \<noteq> Running \<and> k_writer k \<noteq> Running \<and> k_stopped k \<and> \<not> k_open k) \<and>
    (\<forall>ev s. clientHandleConnection_wait stopping ev k \<noteq> Some (Panic s)) \<and>
    (k_phase k \<noteq> Over \<and> k_reader k \<noteq> Running \<and> k_writer k \<noteq> Running \<longrightarrow>
       (\<exists>ev k'. clientHandleConnection_wait stopping ev k = Some (Ret k')))"
  by (rule client_wait.joins [OF assms])

text \<open>The writer fails, the connection is closed, the reader then ends and both are collected.\<close>

definition ctl_demo :: conn_ctl where
  "ctl_demo = \<lparr>k_phase = AwaitReader, k_err = Some EOF, k_stopped = True, k_open = False, k_reader = Finished None, k_writer = Collected\<rparr>"

theorem clientHandleConnection_joins_witness:
  "ctl_reach clientHandleConnection_wait ctl_demo \<and> (\<exists>ev k'. clientHandleConnection_wait False ev ctl_demo = Some (Ret k'))"
proof -
  let ?k1 = "new_ctl\<lparr>k_writer := Finished (Some EOF)\<rparr>"
  let ?k2 = "?k1\<lparr>k_err := Some EOF, k_writer := Collected, k_stopped := True, k_open := False, k_phase := AwaitReader\<rparr>"
  have "ctl_reach clientHandleConnection_wait ?k1"
    by (rule ctl_reach.writer_ends [OF ctl_reach.start]) (simp add: new_ctl_def)
  then have "ctl_reach clientHandleConnection_wait ?k2"
    by (rule ctl_reach.receive [where stopping = False and ev = RecvWriter])
      (simp add: clientHandleConnection_wait_def new_ctl_def shut_def then_phase_def)
  from ctl_reach.reader_ends [OF this, of None] have R: "ctl_reach clientHandleConnection_wait ctl_demo"
    by (simp add: new_ctl_def ctl_demo_def)
  with clientHandleConnection_joins [OF R, of False] show ?thesis by (simp add: ctl_demo_def)
qed

text \<open>The server's handler of a connection does the same.\<close>

lemma serverHandleConnection_joins:
  assumes "ctl_reach serverHandleConnection_wait k"
  shows "(k_phase k = Over \<longrightarrow> k_reader k \<noteq> Running \<and> k_writer k \<noteq> Running \<and> k_stopped k \<and> \<not> k_open k) \<and>
    (\<forall>ev s. serverHandleConnection_wait stopping ev k \<noteq> Some (Panic s)) \<and>
    (k_phase k \<noteq> Over \<and> k_reader k \<noteq> Running \<and> k_writer k \<noteq> Running \<longrightarrow>
       (\<exists>ev k'. serverHandleConnection_wait stopping ev k = Some (Ret k')))"
  by (rule server_wait.joins [OF assms])

text \<open>
  The error the client's callers see is that of the goroutine that ended first, and none when
  the client was stopped: the argument of \<open>clientHandleConnection_end\<close>.
\<close>

definition ctl_end :: "ctl_event \<Rightarrow> conn_ctl \<Rightarrow> conn_end" where
  "ctl_end ev k =
     (case ev of
        RecvWriter \<Rightarrow> EndWriter (case k_writer k of Finished e \<Rightarrow> e | _ \<Rightarrow> None)
      | RecvReader \<Rightarrow> EndReader (case k_reader k of Finished e \<Rightarrow> e | _ \<Rightarrow> None)
      | RecvStop \<Rightarrow> EndStop)"

lemma ctl_end_error:
  assumes "k_phase k = Selecting" "k_err k = None" "clientHandleConnection_wait stopping ev k = Some (Ret k')"
  shows "map_option CConnection (k_err k') = conn_error (ctl_end ev k)"
  using assms
  by (cases ev) (auto simp: clientHandleConnection_wait_def ctl_end_def shut_def then_phase_def split: goroutine.splits if_splits)

section \<open>The loop that dials\<close>

text \<open>
  \<open>clientHandler\<close>: it dials, sleeps a second after a failure, serves a connection, and starts
  over until the client is stopped. After a connection the stop is polled; while dialling and
  sleeping it is one of the branches of a \<open>select\<close>.
\<close>

datatype 'c handler_phase = Dialing | Sleeping | Serving 'c | Returned

datatype 'c handler_event = DialEnds "'c dial_event" | SleepStopped | SleepOver | ConnectionOver

fun clientHandler_step :: "bool \<Rightarrow> 'c handler_event \<Rightarrow> 'c handler_phase \<times> ConnStats \<Rightarrow> ('c handler_phase \<times> ConnStats) option" where
  "clientHandler_step stopping (DialEnds ev) (Dialing, st) =
     (if (case ev of StopWhileDialing _ \<Rightarrow> \<not> stopping | _ \<Rightarrow> False) then None
      else Some (case clientHandler_dial ev st of
          (Connected c, st') \<Rightarrow> (Serving c, st')
        | (RetryLater, st') \<Rightarrow> (Sleeping, st')
        | (HandlerReturns _, st') \<Rightarrow> (Returned, st')))"
| "clientHandler_step stopping SleepStopped (Sleeping, st) = (if stopping then Some (Returned, st) else None)"
| "clientHandler_step stopping SleepOver (Sleeping, st) = Some (Dialing, st)"
| "clientHandler_step stopping ConnectionOver (Serving c, st) = Some (if stopping then Returned else Dialing, st)"
| "clientHandler_step stopping _ _ = None"

fun clientHandler_run :: "(bool \<times> 'c handler_event) list \<Rightarrow> 'c handler_phase \<times> ConnStats \<Rightarrow> ('c handler_phase \<times> ConnStats) option" where
  "clientHandler_run [] x = Some x"
| "clientHandler_run ((stopping, ev) # evs) x = (case clientHandler_step stopping ev x of None \<Rightarrow> None | Some y \<Rightarrow> clientHandler_run evs y)"

text \<open>What happened to the dials of a run: how many were made and how many of them failed.\<close>

definition dials :: "(bool \<times> 'c handler_event) list \<Rightarrow> nat" where
  "dials evs = length (filter (\<lambda>(_, ev). case ev of DialEnds (Dialed _) \<Rightarrow> True | _ \<Rightarrow> False) evs)"

definition failed_dials :: "(bool \<times> 'c handler_event) list \<Rightarrow> nat" where
  "failed_dials evs = length (filter (\<lambda>(_, ev). case ev of DialEnds (Dialed (Inl _)) \<Rightarrow> True | _ \<Rightarrow> False) evs)"

lemma dial_stopped: "clientHandler_dial (StopWhileDialing x) st = (HandlerReturns (case x of Inl _ \<Rightarrow> None | Inr c \<Rightarrow> Some c), st)"
  by (cases x) simp_all

lemma clientHandler_step_counts:
  assumes "clientHandler_step stopping ev (ph, st) = Some (ph', st')"
  shows "DialCalls st' = DialCalls st + of_nat (dials [(stopping, ev)]) \<and>
    DialErrors st' = DialErrors st + of_nat (failed_dials [(stopping, ev)]) \<and> (ph' = Returned \<longrightarrow> stopping) \<and> ph \<noteq> Returned"
  using assms
  by (cases "(stopping, ev, (ph, st))" rule: clientHandler_step.cases)
    (auto simp: dials_def failed_dials_def dial_stopped go_run split: if_splits dial_event.splits sum.splits)

text \<open>
  The handler of a connection leaves its loop only if the client has been stopped, and its
  counters are exact: \<open>DialCalls\<close> has grown by the number of dials that ended before a stop
  and \<open>DialErrors\<close> by the number of those that failed, modulo \<open>2 ^ 64\<close>.
\<close>

lemma clientHandler_keeps_dialing:
  assumes "clientHandler_run evs (Dialing, st) = Some (ph, st')"
  shows "DialCalls st' = DialCalls st + of_nat (dials evs) \<and> DialErrors st' = DialErrors st + of_nat (failed_dials evs) \<and>
    (ph = Returned \<longrightarrow> (\<exists>ev. evs \<noteq> [] \<and> last evs = (True, ev)))"
proof -
  have gen: "DialCalls st' = DialCalls st + of_nat (dials evs) \<and> DialErrors st' = DialErrors st + of_nat (failed_dials evs) \<and>
      (ph = Returned \<longrightarrow> ph0 = Returned \<and> evs = [] \<or> (\<exists>ev. evs \<noteq> [] \<and> last evs = (True, ev)))"
    if "clientHandler_run evs (ph0, st) = Some (ph, st')" for ph0
    using that
  proof (induction evs arbitrary: ph0 st)
    case Nil
    then show ?case by (simp add: dials_def failed_dials_def)
  next
    case (Cons e evs)
    obtain stopping ev where e: "e = (stopping, ev)" by (cases e)
    obtain ph1 st1 where s: "clientHandler_step stopping ev (ph0, st) = Some (ph1, st1)" "clientHandler_run evs (ph1, st1) = Some (ph, st')"
      using Cons.prems e by (auto split: option.splits)
    have d: "dials (e # evs) = dials [e] + dials evs" "failed_dials (e # evs) = failed_dials [e] + failed_dials evs"
      by (simp_all add: dials_def failed_dials_def)
    from clientHandler_step_counts [OF s(1)] Cons.IH [OF s(2)] show ?case unfolding d by (auto simp: e)
  qed
  from gen [OF assms] show ?thesis by auto
qed

lemma clientHandler_keeps_dialing_witness:
  "\<exists>st'. clientHandler_run [(False, DialEnds (Dialed (Inl EOF))), (False, SleepOver), (False, DialEnds (Dialed (Inr ''c''))),
      (True, ConnectionOver)] (Dialing, zeroStats) = Some (Returned, st') \<and> DialCalls st' = 2 \<and> DialErrors st' = 1"
proof -
  let ?evs = "[(False, DialEnds (Dialed (Inl EOF))), (False, SleepOver), (False, DialEnds (Dialed (Inr ''c''))), (True, ConnectionOver)]"
  obtain st' where R: "clientHandler_run ?evs (Dialing, zeroStats) = Some (Returned, st')" by simp
  from clientHandler_keeps_dialing [OF R] R show ?thesis by (simp add: dials_def failed_dials_def zeroStats_def)
qed

end
