(* ===== verification/Stats_386.thy ===== *)
theory Stats_386
  imports Conn_Stats
begin

text \<open>
  The counters of 386 builds, \<^verbatim>\<open>src/conn_stats_386.go\<close>: instead of an atomic addition every update
  takes \<open>lock\<close>, loads the counter, stores it and releases the lock. The theorem shows that this
  is as good as the atomic version however the goroutines are scheduled between these steps.

  The file also updates \<open>BytesWritten\<close> and \<open>BytesRead\<close> (\<open>addBytesWritten\<close>, \<open>addBytesRead\<close>,
  \<open>Reset\<close>), which \<open>ConnStats\<close> does not have; these are left out.
\<close>

section \<open>Updates\<close>

datatype counter = C_RPCCalls | C_RPCTime | C_ReadCalls | C_ReadErrors | C_WriteCalls | C_WriteErrors
  | C_DialCalls | C_DialErrors | C_AcceptCalls | C_AcceptErrors

fun load :: "counter \<Rightarrow> ConnStats \<Rightarrow> uint64" where
  "load C_RPCCalls cs = RPCCalls cs"
| "load C_RPCTime cs = RPCTime cs"
| "load C_ReadCalls cs = ReadCalls cs"
| "load C_ReadErrors cs = ReadErrors cs"
| "load C_WriteCalls cs = WriteCalls cs"
| "load C_WriteErrors cs = WriteErrors cs"
| "load C_DialCalls cs = DialCalls cs"
| "load C_DialErrors cs = DialErrors cs"
| "load C_AcceptCalls cs = AcceptCalls cs"
| "load C_AcceptErrors cs = AcceptErrors cs"

fun store :: "counter \<Rightarrow> uint64 \<Rightarrow> ConnStats \<Rightarrow> ConnStats" where
  "store C_RPCCalls v cs = cs\<lparr>RPCCalls := v\<rparr>"
| "store C_RPCTime v cs = cs\<lparr>RPCTime := v\<rparr>"
| "store C_ReadCalls v cs = cs\<lparr>ReadCalls := v\<rparr>"
| "store C_ReadErrors v cs = cs\<lparr>ReadErrors := v\<rparr>"
| "store C_WriteCalls v cs = cs\<lparr>WriteCalls := v\<rparr>"
| "store C_WriteErrors v cs = cs\<lparr>WriteErrors := v\<rparr>"
| "store C_DialCalls v cs = cs\<lparr>DialCalls := v\<rparr>"
| "store C_DialErrors v cs = cs\<lparr>DialErrors := v\<rparr>"
| "store C_AcceptCalls v cs = cs\<lparr>AcceptCalls := v\<rparr>"
| "store C_AcceptErrors v cs = cs\<lparr>AcceptErrors := v\<rparr>"

text \<open>Which counter a function adds to, and how much.\<close>

type_synonym update = "counter \<times> uint64"

definition incRPCCalls_386 :: update where "incRPCCalls_386 = (C_RPCCalls, 1)"
definition incRPCTime_386 :: "uint64 \<Rightarrow> update" where "incRPCTime_386 dt = (C_RPCTime, dt)"
definition incReadCalls_386 :: update where "incReadCalls_386 = (C_ReadCalls, 1)"
definition incReadErrors_386 :: update where "incReadErrors_386 = (C_ReadErrors, 1)"
definition incWriteCalls_386 :: update where "incWriteCalls_386 = (C_WriteCalls, 1)"
definition incWriteErrors_386 :: update where "incWriteErrors_386 = (C_WriteErrors, 1)"
definition incDialCalls_386 :: update where "incDialCalls_386 = (C_DialCalls, 1)"
definition incDialErrors_386 :: update where "incDialErrors_386 = (C_DialErrors, 1)"
definition incAcceptCalls_386 :: update where "incAcceptCalls_386 = (C_AcceptCalls, 1)"
definition incAcceptErrors_386 :: update where "incAcceptErrors_386 = (C_AcceptErrors, 1)"

text \<open>The whole update without interference.\<close>

definition add_to :: "update \<Rightarrow> ConnStats \<Rightarrow> ConnStats" where
  "add_to u cs = store (fst u) (load (fst u) cs + snd u) cs"

lemma add_to_generic:
  "add_to incRPCCalls_386 = incRPCCalls" "add_to (incRPCTime_386 dt) = incRPCTime dt"
  "add_to incReadCalls_386 = incReadCalls" "add_to incReadErrors_386 = incReadErrors"
  "add_to incWriteCalls_386 = incWriteCalls" "add_to incWriteErrors_386 = incWriteErrors"
  "add_to incDialCalls_386 = incDialCalls" "add_to incDialErrors_386 = incDialErrors"
  "add_to incAcceptCalls_386 = incAcceptCalls" "add_to incAcceptErrors_386 = incAcceptErrors"
  by (auto simp: fun_eq_iff add_to_def stats_defs incRPCCalls_386_def incRPCTime_386_def incReadCalls_386_def
      incReadErrors_386_def incWriteCalls_386_def incWriteErrors_386_def incDialCalls_386_def incDialErrors_386_def
      incAcceptCalls_386_def incAcceptErrors_386_def)

lemma add_to_commute: "add_to u (add_to v cs) = add_to v (add_to u cs)"
  by (cases "fst u"; cases "fst v") (simp_all add: add_to_def add.commute add.left_commute)

section \<open>Goroutines\<close>

text \<open>
  Where a goroutine is in its update: before the lock, before the load, before the store with
  the value it loaded, before the unlock, or done.
\<close>

datatype pc = Locking | Loading | Storing uint64 | Unlocking | Through

record lockedStats =
  ls_lock :: bool
  ls_cs :: ConnStats
  ls_thr :: "(update \<times> pc) list"

inductive lock_step :: "lockedStats \<Rightarrow> lockedStats \<Rightarrow> bool" where
  lock: "i < length (ls_thr s) \<Longrightarrow> ls_thr s ! i = (u, Locking) \<Longrightarrow> \<not> ls_lock s \<Longrightarrow>
    lock_step s (s\<lparr>ls_lock := True, ls_thr := (ls_thr s)[i := (u, Loading)]\<rparr>)"
| load: "i < length (ls_thr s) \<Longrightarrow> ls_thr s ! i = (u, Loading) \<Longrightarrow>
    lock_step s (s\<lparr>ls_thr := (ls_thr s)[i := (u, Storing (load (fst u) (ls_cs s)))]\<rparr>)"
| store: "i < length (ls_thr s) \<Longrightarrow> ls_thr s ! i = (u, Storing v) \<Longrightarrow>
    lock_step s (s\<lparr>ls_cs := store (fst u) (v + snd u) (ls_cs s), ls_thr := (ls_thr s)[i := (u, Unlocking)]\<rparr>)"
| unlock: "i < length (ls_thr s) \<Longrightarrow> ls_thr s ! i = (u, Unlocking) \<Longrightarrow>
    lock_step s (s\<lparr>ls_lock := False, ls_thr := (ls_thr s)[i := (u, Through)]\<rparr>)"

text \<open>\<open>Snapshot\<close> copies the struct while it holds the lock; the copy's lock is new.\<close>

definition Snapshot_386 :: "lockedStats \<Rightarrow> ConnStats option" where
  "Snapshot_386 s = (if ls_lock s then None else Some (ls_cs s))"

definition lock_start :: "ConnStats \<Rightarrow> update list \<Rightarrow> lockedStats" where
  "lock_start cs us = \<lparr>ls_lock = False, ls_cs = cs, ls_thr = map (\<lambda>u. (u, Locking)) us\<rparr>"

fun inside :: "pc \<Rightarrow> bool" where
  "inside Locking = False" | "inside Through = False" | "inside _ = True"

fun stored :: "pc \<Rightarrow> bool" where
  "stored Unlocking = True" | "stored Through = True" | "stored _ = False"

definition stored_updates :: "lockedStats \<Rightarrow> update multiset" where
  "stored_updates s = image_mset fst (filter_mset (\<lambda>t. stored (snd t)) (mset (ls_thr s)))"

text \<open>
  The invariant: as many goroutines are inside as hold the lock, a loaded value is still the
  counter's, and the counters are those of the updates that have been stored.
\<close>

definition lock_inv :: "ConnStats \<Rightarrow> update list \<Rightarrow> lockedStats \<Rightarrow> bool" where
  "lock_inv cs us s \<longleftrightarrow> map fst (ls_thr s) = us \<and>
     size (filter_mset (\<lambda>t. inside (snd t)) (mset (ls_thr s))) = (if ls_lock s then 1 else 0) \<and>
     (\<forall>u v. (u, Storing v) \<in> set (ls_thr s) \<longrightarrow> v = load (fst u) (ls_cs s)) \<and>
     (\<forall>xs. mset xs = stored_updates s \<longrightarrow> ls_cs s = fold add_to xs cs)"

lemma fold_add_to: "mset xs = mset ys \<Longrightarrow> fold add_to xs cs = fold add_to ys cs"
  by (rule fun_cong [OF fold_multiset_equiv [of xs add_to ys]]) (auto simp: fun_eq_iff add_to_commute)

lemma thread_split:
  assumes "i < length thr" "thr ! i = (u, p)"
  obtains M where "mset thr = add_mset (u, p) M" "\<And>q. mset (thr[i := (u, q)]) = add_mset (u, q) M"
    "\<And>q. map fst (thr[i := (u, q)]) = map fst thr"
proof -
  have "mset thr = add_mset (u, p) (mset thr - {#(u, p)#})"
    using assms by (metis insert_DiffM nth_mem set_mset_mset)
  moreover have "mset (thr[i := (u, q)]) = add_mset (u, q) (mset thr - {#(u, p)#})" for q
    using assms by (simp add: mset_update)
  moreover have "map fst (thr[i := (u, q)]) = map fst thr" for q
    using assms by (metis fst_conv list_update_id map_update nth_map)
  ultimately show ?thesis using that by blast
qed

text \<open>Whoever is inside is alone there.\<close>

lemma alone:
  assumes "lock_inv cs us s" "mset (ls_thr s) = add_mset (u, p) M" "inside p"
  shows "ls_lock s \<and> filter_mset (\<lambda>t. inside (snd t)) M = {#} \<and> (\<forall>u' v. (u', Storing v) \<notin># M)"
proof -
  have f: "ls_lock s" "filter_mset (\<lambda>t. inside (snd t)) M = {#}"
    using assms by (auto simp: lock_inv_def split: if_splits)
  have "\<not> inside (snd t)" if "t \<in># M" for t
  proof
    assume "inside (snd t)"
    with that have "t \<in># {#}" unfolding f(2) [symmetric] by simp
    then show False by simp
  qed
  then show ?thesis using f by fastforce
qed

lemma lock_step_inv:
  assumes "lock_step s s'" "lock_inv cs us s"
  shows "lock_inv cs us s'"
  using assms
proof (induction rule: lock_step.induct)
  case (lock i s u)
  obtain M where M: "mset (ls_thr s) = add_mset (u, Locking) M" "\<And>q. mset ((ls_thr s)[i := (u, q)]) = add_mset (u, q) M"
    "\<And>q. map fst ((ls_thr s)[i := (u, q)]) = map fst (ls_thr s)" using thread_split [OF lock.hyps(1,2)] by blast
  have "set ((ls_thr s)[i := (u, Loading)]) = insert (u, Loading) (set_mset M)" "set (ls_thr s) = insert (u, Locking) (set_mset M)"
    using M(1) M(2) [of Loading] by (metis set_mset_add_mset_insert set_mset_mset)+
  then show ?case using lock.prems lock.hyps(3) M by (simp add: lock_inv_def stored_updates_def)
next
  case (load i s u)
  obtain M where M: "mset (ls_thr s) = add_mset (u, Loading) M" "\<And>q. mset ((ls_thr s)[i := (u, q)]) = add_mset (u, q) M"
    "\<And>q. map fst ((ls_thr s)[i := (u, q)]) = map fst (ls_thr s)" using thread_split [OF load.hyps(1,2)] by blast
  note a = alone [OF load.prems M(1)]
  let ?v = "load (fst u) (ls_cs s)"
  have "set ((ls_thr s)[i := (u, Storing ?v)]) = insert (u, Storing ?v) (set_mset M)"
    using M(2) [of "Storing ?v"] by (metis set_mset_add_mset_insert set_mset_mset)
  then show ?case using load.prems M a by (simp add: lock_inv_def stored_updates_def)
next
  case (store i s u v)
  obtain M where M: "mset (ls_thr s) = add_mset (u, Storing v) M" "\<And>q. mset ((ls_thr s)[i := (u, q)]) = add_mset (u, q) M"
    "\<And>q. map fst ((ls_thr s)[i := (u, q)]) = map fst (ls_thr s)" using thread_split [OF store.hyps(1,2)] by blast
  note a = alone [OF store.prems M(1)]
  have v: "v = load (fst u) (ls_cs s)"
    using store.prems store.hyps nth_mem [OF store.hyps(1)] by (cases u) (simp add: lock_inv_def)
  let ?s = "s\<lparr>ls_cs := store (fst u) (v + snd u) (ls_cs s), ls_thr := (ls_thr s)[i := (u, Unlocking)]\<rparr>"
  have cs: "ls_cs ?s = add_to u (ls_cs s)" by (simp add: v add_to_def)
  have su: "stored_updates ?s = add_mset u (stored_updates s)" using M by (simp add: stored_updates_def)
  have "ls_cs ?s = fold add_to xs cs" if "mset xs = stored_updates ?s" for xs
  proof -
    obtain ys where ys: "mset ys = stored_updates s" using ex_mset by blast
    then have "ls_cs s = fold add_to ys cs" using store.prems by (simp add: lock_inv_def)
    then have "ls_cs ?s = fold add_to (ys @ [u]) cs" using cs by simp
    also have "\<dots> = fold add_to xs cs" by (rule fold_add_to) (use that ys su in simp)
    finally show ?thesis .
  qed
  moreover have "set ((ls_thr s)[i := (u, Unlocking)]) = insert (u, Unlocking) (set_mset M)"
    using M(2) [of Unlocking] by (metis set_mset_add_mset_insert set_mset_mset)
  ultimately show ?case using store.prems M a by (simp add: lock_inv_def)
next
  case (unlock i s u)
  obtain M where M: "mset (ls_thr s) = add_mset (u, Unlocking) M" "\<And>q. mset ((ls_thr s)[i := (u, q)]) = add_mset (u, q) M"
    "\<And>q. map fst ((ls_thr s)[i := (u, q)]) = map fst (ls_thr s)" using thread_split [OF unlock.hyps(1,2)] by blast
  note a = alone [OF unlock.prems M(1)]
  have "set ((ls_thr s)[i := (u, Through)]) = insert (u, Through) (set_mset M)"
    using M(2) [of Through] by (metis set_mset_add_mset_insert set_mset_mset)
  then show ?case using unlock.prems M a by (simp add: lock_inv_def stored_updates_def)
qed

lemma lock_steps_inv:
  assumes "lock_step\<^sup>*\<^sup>* (lock_start cs us) s"
  shows "lock_inv cs us s"
  using assms
proof (induction rule: rtranclp_induct)
  case base
  have i: "size (filter_mset (\<lambda>t. inside (snd t)) (image_mset (\<lambda>u. (u, Locking)) (mset us))) = 0"
    by (induction us) simp_all
  have "stored_updates (lock_start cs us) = {#}"
    by (induction us) (simp_all add: stored_updates_def lock_start_def)
  then show ?case using i by (auto simp: lock_inv_def) (auto simp: lock_start_def comp_def)
next
  case (step s s')
  then show ?case using lock_step_inv by blast
qed



end
