(* ===== verification/Reporting.thy ===== *)
theory Reporting
  imports Client_Calls
begin

text \<open>
  How errors are reported: the package's logger (\<^verbatim>\<open>src/common.go\<close>), the errors a client makes for
  its callers (\<^verbatim>\<open>src/client.go\<close>) and the default dial functions (\<^verbatim>\<open>src/transport.go\<close>).

  A logger is a function from a format and its arguments to what it adds to the log. How a
  format is filled in is up to package \<open>fmt\<close>; \<open>sprintf\<close> is an argument.
\<close>

section \<open>The logger\<close>

type_synonym sprintf = "string \<Rightarrow> string list \<Rightarrow> string"
type_synonym LoggerFunc = "string \<Rightarrow> string list \<Rightarrow> string list"

record logState =
  errorLogger :: LoggerFunc
  lg_out :: "string list"

definition Printf :: "sprintf \<Rightarrow> LoggerFunc" where
  "Printf sprintf fmt args = [sprintf fmt args]"

definition initLog :: "sprintf \<Rightarrow> logState" where
  "initLog sprintf = \<lparr>errorLogger = Printf sprintf, lg_out = []\<rparr>"

definition SetErrorLogger :: "LoggerFunc \<Rightarrow> logState \<Rightarrow> logState" where
  "SetErrorLogger f lg = lg\<lparr>errorLogger := f\<rparr>"

definition NilErrorLogger :: LoggerFunc where
  "NilErrorLogger fmt args = []"

definition logError :: "LoggerFunc \<Rightarrow> string \<Rightarrow> string list \<Rightarrow> logState \<Rightarrow> logState" where
  "logError f fmt args lg = lg\<lparr>lg_out := lg_out lg @ f fmt args\<rparr>"

definition logPanic :: "sprintf \<Rightarrow> string \<Rightarrow> string list \<Rightarrow> logState \<Rightarrow> unit outcome \<times> logState" where
  "logPanic sprintf fmt args lg = (Panic (sprintf fmt args), logError (errorLogger lg) fmt args lg)"

text \<open>\<open>LogError\<close> of a client or a server: the one set by the user, or the package's when it starts.\<close>

definition startLogger :: "LoggerFunc option \<Rightarrow> logState \<Rightarrow> LoggerFunc" where
  "startLogger f lg = (case f of None \<Rightarrow> errorLogger lg | Some g \<Rightarrow> g)"

section \<open>The client's errors\<close>

text \<open>The struct \<open>ClientError\<close> with its flags, for each kind of error the client makes.\<close>

record errorFlags =
  ef_Timeout :: bool
  ef_Connection :: bool
  ef_Server :: bool
  ef_Overflow :: bool
  ef_Canceled :: bool

definition noFlags :: errorFlags where
  "noFlags = \<lparr>ef_Timeout = False, ef_Connection = False, ef_Server = False, ef_Overflow = False, ef_Canceled = False\<rparr>"

fun error_flags :: "ClientError \<Rightarrow> errorFlags" where
  "error_flags CTimeout = noFlags\<lparr>ef_Timeout := True\<rparr>"
| "error_flags (CConnection _) = noFlags\<lparr>ef_Connection := True\<rparr>"
| "error_flags (CServer _) = noFlags\<lparr>ef_Server := True\<rparr>"
| "error_flags COverflow = noFlags\<lparr>ef_Overflow := True\<rparr>"
| "error_flags CCanceled = noFlags\<lparr>ef_Canceled := True\<rparr>"

definition ErrCanceled :: ClientError where
  "ErrCanceled = CCanceled"

definition timeoutFormat :: string where
  "timeoutFormat = ''gorpc.Client: [%s]. Cannot obtain response during timeout=%s''"

definition overflowFormat :: string where
  "overflowFormat = ''gorpc.Client: [%s]. Requests' queue with size=%d is overflown. Try increasing Client.PendingRequests value''"

text \<open>Both log their text, which goes through \<open>LogError\<close> as an argument of the format \<^verbatim>\<open>%s\<close>.\<close>

definition getClientTimeoutError :: "sprintf \<Rightarrow> LoggerFunc \<Rightarrow> string \<Rightarrow> string \<Rightarrow> logState \<Rightarrow> (ClientError \<times> string) \<times> logState" where
  "getClientTimeoutError sprintf LogError addr timeout lg =
     (let err = sprintf timeoutFormat [addr, timeout] in ((CTimeout, err), logError LogError ''%s'' [err] lg))"

definition overflowClientError :: "sprintf \<Rightarrow> LoggerFunc \<Rightarrow> string \<Rightarrow> string \<Rightarrow> logState \<Rightarrow> (ClientError \<times> string) \<times> logState" where
  "overflowClientError sprintf LogError addr queueCap lg =
     (let err = sprintf overflowFormat [addr, queueCap] in ((COverflow, err), logError LogError ''%s'' [err] lg))"

section \<open>Dialling\<close>

text \<open>\<open>dial\<close> is \<open>Dial\<close> of package \<open>net\<close>.\<close>

definition defaultDial :: "(string \<Rightarrow> string \<Rightarrow> goerr + 'c) \<Rightarrow> string \<Rightarrow> goerr + 'c" where
  "defaultDial dial addr = dial ''tcp'' addr"

definition unixDial :: "(string \<Rightarrow> string \<Rightarrow> goerr + 'c) \<Rightarrow> string \<Rightarrow> goerr + 'c" where
  "unixDial dial addr = (case dial ''unix'' addr of Inl err \<Rightarrow> Inl err | Inr c \<Rightarrow> Inr c)"

section \<open>What reaches the log\<close>

lemma error_flags_inj: "error_flags e = error_flags e' \<Longrightarrow> e = e' \<or> (\<exists>x y. e = CConnection x \<and> e' = CConnection y) \<or>
    (\<exists>x y. e = CServer x \<and> e' = CServer y)"
  by (cases e; cases e') (simp_all add: noFlags_def)

text \<open>
  A client that is already started keeps its logger: \<open>SetErrorLogger\<close> reaches \<open>logPanic\<close> and
  clients and servers started later, and a logger of the user's own is never replaced.
\<close>

lemma SetErrorLogger_reaches:
  "startLogger (Some g) (SetErrorLogger f lg) = g" "startLogger None (SetErrorLogger f lg) = f"
  "lg_out (snd (logPanic sp fmt args (SetErrorLogger f lg))) = lg_out lg @ f fmt args"
  "lg_out (snd (logPanic sp fmt args (SetErrorLogger NilErrorLogger lg))) = lg_out lg"
  by (simp_all add: startLogger_def SetErrorLogger_def logPanic_def logError_def NilErrorLogger_def)

text \<open>
  The errors are logged through the client's own logger with the same text that the caller
  gets, and nothing else is changed.
\<close>

lemma client_errors_logged:
  assumes "\<And>x. sp ''%s'' [x] = x"
  shows "lg_out (snd (getClientTimeoutError sp (Printf sp) addr t lg)) =
      lg_out lg @ [snd (fst (getClientTimeoutError sp (Printf sp) addr t lg))]"
    "lg_out (snd (overflowClientError sp (Printf sp) addr n lg)) =
      lg_out lg @ [snd (fst (overflowClientError sp (Printf sp) addr n lg))]"
  using assms by (simp_all add: getClientTimeoutError_def overflowClientError_def Printf_def logError_def Let_def)

end
