(* ===== verification/Conn_Averages.thy ===== *)
theory Conn_Averages
  imports Conn_Stats Complex_Main
begin

text \<open>
  The averages of the connection statistics, \<^verbatim>\<open>src/conn_stats.go\<close>: quotients of counters as
  \<open>float64\<close>. The conversions and the division are those of the language: round to nearest, ties
  to even, with a significand of 53 bits. Counters are below \<open>2 ^ 64\<close>, so every quotient that is
  not zero lies between \<open>2 ^ -64\<close> and \<open>2 ^ 64\<close>; subnormal numbers and overflow do not occur, and
  the only special values are those of a division by zero.
\<close>

section \<open>Floating-point numbers\<close>

datatype float64 = Fin rat | PInf | NaN

definition round_even :: "rat \<Rightarrow> int" where
  "round_even x =
     (let f = \<lfloor>x\<rfloor>; r = x - of_int f in
      if r < 1 / 2 then f else if 1 / 2 < r then f + 1 else if even f then f else f + 1)"

fun bits :: "nat \<Rightarrow> nat" where
  "bits n = (if n = 0 then 0 else Suc (bits (n div 2)))"

declare bits.simps [simp del]

text \<open>
  Rounding of a number that is 0 or at least \<open>2 ^ -70\<close>. It is scaled to an integer part of at
  least 59 bits, of which 53 are kept.
\<close>

definition round53 :: "rat \<Rightarrow> rat" where
  "round53 x =
     (if x = 0 then 0
      else let X = x * 2 ^ 128; k = bits (nat \<lfloor>X\<rfloor>) - 53
           in of_int (round_even (X / 2 ^ k)) * 2 ^ k / 2 ^ 128)"

definition float64_of :: "uint64 \<Rightarrow> rat" where
  "float64_of x = round53 (of_nat (unat x))"

definition fdiv :: "rat \<Rightarrow> rat \<Rightarrow> float64" where
  "fdiv x y = (if y \<noteq> 0 then Fin (round53 (x / y)) else if x = 0 then NaN else PInf)"

text \<open>
  The conversion to \<open>int64\<close> drops the fraction; for values that do not fit, the language leaves
  the result to the implementation, \<open>impl\<close>.
\<close>

definition int64_of_float :: "(float64 \<Rightarrow> uint64) \<Rightarrow> float64 \<Rightarrow> uint64" where
  "int64_of_float impl f =
     (case f of Fin x \<Rightarrow> if x < 2 ^ 63 then word_of_int \<lfloor>x\<rfloor> else impl f | _ \<Rightarrow> impl f)"

section \<open>The averages\<close>

definition Millisecond :: uint64 where
  "Millisecond = 1000000"

text \<open>A \<open>time.Duration\<close> is an \<open>int64\<close> in nanoseconds; the product wraps around.\<close>

definition AvgRPCTime :: "(float64 \<Rightarrow> uint64) \<Rightarrow> ConnStats \<Rightarrow> uint64" where
  "AvgRPCTime impl cs = int64_of_float impl (fdiv (float64_of (RPCTime cs)) (float64_of (RPCCalls cs))) * Millisecond"

definition AvgRPCBytes :: "ConnStats \<Rightarrow> float64 \<times> float64" where
  "AvgRPCBytes cs =
     (fdiv (float64_of (HeadWritten cs + BodyWritten cs)) (float64_of (RPCCalls cs)),
      fdiv (float64_of (HeadRead cs + BodyRead cs)) (float64_of (RPCCalls cs)))"

definition AvgRPCHeadBytes :: "ConnStats \<Rightarrow> float64 \<times> float64" where
  "AvgRPCHeadBytes cs =
     (fdiv (float64_of (HeadWritten cs)) (float64_of (RPCCalls cs)),
      fdiv (float64_of (HeadRead cs)) (float64_of (RPCCalls cs)))"

definition AvgRPCBodyBytes :: "ConnStats \<Rightarrow> float64 \<times> float64" where
  "AvgRPCBodyBytes cs =
     (fdiv (float64_of (BodyWritten cs)) (float64_of (RPCCalls cs)),
      fdiv (float64_of (BodyRead cs)) (float64_of (RPCCalls cs)))"

definition AvgRPCCalls :: "ConnStats \<Rightarrow> float64 \<times> float64" where
  "AvgRPCCalls cs =
     (fdiv (float64_of (WriteCalls cs)) (float64_of (RPCCalls cs)),
      fdiv (float64_of (ReadCalls cs)) (float64_of (RPCCalls cs)))"

section \<open>Rounding\<close>

lemma bits_0: "bits 0 = 0"
  by (simp add: bits.simps)

lemma bits_pos: "0 < n \<Longrightarrow> bits n = Suc (bits (n div 2))"
  by (subst bits.simps) simp

lemma bits_bounds: "n \<noteq> 0 \<Longrightarrow> 2 ^ (bits n - 1) \<le> n \<and> n < 2 ^ bits n \<and> 0 < bits n"
proof (induction n rule: bits.induct)
  case (1 n)
  show ?case
  proof (cases "n div 2 = 0")
    case True
    then have "n = 1" using 1(2) by simp
    then show ?thesis by (simp add: bits.simps)
  next
    case False
    then have IH: "2 ^ (bits (n div 2) - 1) \<le> n div 2" "n div 2 < 2 ^ bits (n div 2)" "0 < bits (n div 2)"
      using 1 by auto
    obtain m where m: "bits (n div 2) = Suc m" using IH(3) by (cases "bits (n div 2)") auto
    have "bits n = Suc (bits (n div 2))" using 1(2) by (subst bits.simps) simp
    then show ?thesis using IH m by simp linarith
  qed
qed

lemma round_even_close: "\<bar>of_int (round_even x) - x\<bar> \<le> 1 / 2"
proof -
  have "of_int \<lfloor>x\<rfloor> \<le> x" "x < of_int \<lfloor>x\<rfloor> + 1" using floor_correct [of x] by simp_all
  then show ?thesis unfolding round_even_def Let_def by (auto simp: abs_le_iff)
qed

lemma round_even_int [simp]: "round_even (of_int n) = n"
  by (simp add: round_even_def)

text \<open>The scaled number has its 53 leading bits in front of the binary point.\<close>

lemma scaled:
  fixes x :: rat
  assumes "1 / 2 ^ 70 \<le> x"
  defines "X \<equiv> x * 2 ^ 128"
  defines "k \<equiv> bits (nat \<lfloor>X\<rfloor>) - 53"
  shows "2 ^ 52 * 2 ^ k \<le> X" "X < 2 ^ 53 * 2 ^ k"
proof -
  have "2 ^ 58 \<le> X" using assms(1) by (simp add: X_def field_simps)
  then have f: "2 ^ 58 \<le> \<lfloor>X\<rfloor>" by (simp add: le_floor_iff)
  define n where "n = nat \<lfloor>X\<rfloor>"
  have n: "2 ^ 58 \<le> n" using f by (simp add: n_def le_nat_iff)
  then have b: "2 ^ (bits n - 1) \<le> n" "n < 2 ^ bits n" using bits_bounds [of n] by auto
  have "bits n > 58" using n b(2) power_increasing [of "bits n" 58 "2::nat"] by (cases "bits n \<le> 58") auto
  then have k: "bits n - 1 = 52 + k" "bits n = 53 + k" by (auto simp: k_def n_def)
  have X: "of_nat n \<le> X" "X < of_nat n + 1" using f floor_correct [of X] by (simp_all add: n_def)
  have "of_nat (2 ^ (52 + k)) \<le> (of_nat n :: rat)" using b(1) k(1) by (metis of_nat_le_iff)
  then show "2 ^ 52 * 2 ^ k \<le> X" using X(1) by (simp add: power_add)
  have "n + 1 \<le> 2 ^ (53 + k)" using b(2) k(2) by simp
  then have "of_nat (n + 1) \<le> (of_nat (2 ^ (53 + k)) :: rat)" by (simp only: of_nat_le_iff)
  then show "X < 2 ^ 53 * 2 ^ k" using X(2) by (simp add: power_add)
qed

lemma round53_eq:
  assumes "x \<noteq> 0" "X = x * 2 ^ 128" "k = bits (nat \<lfloor>X\<rfloor>) - 53"
  shows "round53 x = of_int (round_even (X / 2 ^ k)) * 2 ^ k / 2 ^ 128"
  unfolding assms(2,3) using assms(1) by (simp only: round53_def Let_def if_False)

lemma round53_close:
  assumes "x = 0 \<or> 1 / 2 ^ 70 \<le> x"
  shows "\<bar>round53 x - x\<bar> \<le> x / 2 ^ 53"
proof (cases "x = 0")
  case False
  define X where "X = x * 2 ^ 128"
  define k where "k = bits (nat \<lfloor>X\<rfloor>) - 53"
  have x: "1 / 2 ^ 70 \<le> x" using assms False by simp
  have low: "2 ^ 52 * 2 ^ k \<le> X" using scaled(1) [OF x] by (simp add: X_def k_def)
  let ?m = "of_int (round_even (X / 2 ^ k)) :: rat"
  have r: "round53 x = ?m * 2 ^ k / 2 ^ 128" by (rule round53_eq [OF False X_def k_def])
  have "\<bar>?m * 2 ^ k - X\<bar> = \<bar>?m - X / 2 ^ k\<bar> * 2 ^ k" by (simp add: abs_mult_pos' field_simps flip: abs_mult_pos)
  also have "\<dots> \<le> 1 / 2 * 2 ^ k" by (rule mult_right_mono [OF round_even_close]) simp
  also have "\<dots> \<le> X / 2 ^ 53" using low by (simp add: field_simps)
  finally have "\<bar>?m * 2 ^ k - X\<bar> / 2 ^ 128 \<le> X / 2 ^ 53 / 2 ^ 128" by (rule divide_right_mono) simp
  moreover have "round53 x - x = (?m * 2 ^ k - X) / 2 ^ 128" unfolding r X_def by (simp add: field_simps)
  then have "\<bar>round53 x - x\<bar> = \<bar>?m * 2 ^ k - X\<bar> / 2 ^ 128" by (simp only: abs_divide) simp
  ultimately show ?thesis by (simp add: X_def)
qed (simp add: round53_def)

text \<open>Integers of at most 53 bits are exact.\<close>

lemma round53_exact:
  assumes "n < 2 ^ 53"
  shows "round53 (of_nat n) = of_nat n"
proof (cases "n = 0")
  case False
  define X :: rat where "X = of_nat n * 2 ^ 128"
  define k where "k = bits (nat \<lfloor>X\<rfloor>) - 53"
  have "1 / 2 ^ 70 \<le> (of_nat n :: rat)" using False by (cases n) (simp_all add: field_simps)
  from scaled(1) [OF this] have low: "2 ^ 52 * 2 ^ k \<le> X" by (simp add: X_def k_def)
  have "(of_nat n :: rat) < of_nat (2 ^ 53)" using assms by (simp only: of_nat_less_iff)
  then have "X < 2 ^ 53 * 2 ^ 128" by (simp add: X_def)
  with low have "(2::rat) ^ (52 + k) < 2 ^ 181" by (simp add: power_add)
  then have "52 + k < 181" by (rule power_less_imp_less_exp [rotated]) simp
  then obtain j where j: "128 = k + j" using le_Suc_ex [of k 128] by auto
  have p: "(2::rat) ^ 128 = 2 ^ k * 2 ^ j" unfolding j by (rule power_add)
  have "X / 2 ^ k = of_int (int n * 2 ^ j)" unfolding X_def p by simp
  then have "round_even (X / 2 ^ k) = int n * 2 ^ j" by (simp only: round_even_int)
  moreover have "round53 (of_nat n) = of_int (round_even (X / 2 ^ k)) * 2 ^ k / 2 ^ 128"
    by (rule round53_eq [OF _ X_def k_def]) (simp add: False)
  ultimately show ?thesis unfolding p by simp
qed (simp add: round53_def)

section \<open>Accuracy\<close>

lemma quotient_error:
  fixes a b A B q u :: rat
  assumes "0 \<le> a" "0 < b" "0 \<le> u" "u \<le> 1 / 5"
    and "\<bar>A - a\<bar> \<le> a * u" "\<bar>B - b\<bar> \<le> b * u" "\<bar>q - A / B\<bar> \<le> A / B * u"
  shows "\<bar>q - a / b\<bar> \<le> 4 * u * (a / b)"
proof -
  have B: "b * (1 - u) \<le> B" using assms(6) by (simp add: abs_le_iff algebra_simps)
  have u1: "0 < 1 - u" using assms(4) by simp
  with B assms(2) have B0: "0 < B" by (meson less_le_trans mult_pos_pos)
  have "\<bar>A * b - a * B\<bar> = \<bar>(A - a) * b - a * (B - b)\<bar>" by (simp add: algebra_simps)
  also have "\<dots> \<le> \<bar>A - a\<bar> * b + a * \<bar>B - b\<bar>"
    using assms(1,2) abs_triangle_ineq4 [of "(A - a) * b" "a * (B - b)"] by (simp add: abs_mult)
  also have "\<dots> \<le> (a * u) * b + a * (b * u)"
    using assms by (intro add_mono mult_right_mono mult_left_mono) auto
  finally have AB: "\<bar>A * b - a * B\<bar> \<le> 2 * u * a * b" by (simp add: algebra_simps)
  have "A / B - a / b = (A * b - a * B) / (B * b)" using B0 assms(2) by (simp add: field_simps)
  then have "\<bar>A / B - a / b\<bar> = \<bar>A * b - a * B\<bar> / (B * b)" using B0 assms(2) by (simp add: abs_mult)
  also have "\<dots> \<le> 2 * u * a * b / (B * b)" using AB B0 assms(2) by (intro divide_right_mono) auto
  also have "\<dots> = 2 * u * (a / B)" using assms(2) by simp
  finally have e1: "\<bar>A / B - a / b\<bar> \<le> 2 * u * (a / B)" .
  have "A \<le> a * (1 + u)" using assms(5) by (simp add: abs_le_iff algebra_simps)
  then have "A / B * u \<le> a * (1 + u) / B * u" using B0 assms(3) by (intro mult_right_mono divide_right_mono) auto
  with assms(7) e1 have "\<bar>q - a / b\<bar> \<le> a * (1 + u) / B * u + 2 * u * (a / B)" by linarith
  also have "\<dots> = u * (3 + u) * (a / B)" using B0 by (simp add: field_simps)
  also have "\<dots> \<le> u * (3 + u) * (a / (b * (1 - u)))"
    using B B0 u1 assms by (intro mult_left_mono divide_left_mono) auto
  also have "\<dots> = u * ((3 + u) / (1 - u)) * (a / b)" by simp
  also have "\<dots> \<le> u * 4 * (a / b)"
    using assms u1 by (intro mult_right_mono mult_left_mono) (auto simp: pos_divide_le_eq)
  finally show ?thesis by (simp add: mult.commute)
qed

lemma float64_of_close: "\<bar>float64_of x - of_nat (unat x)\<bar> \<le> of_nat (unat x) / 2 ^ 53"
proof -
  have "(of_nat (unat x) :: rat) = 0 \<or> 1 / 2 ^ 70 \<le> (of_nat (unat x) :: rat)"
    by (cases "unat x") (simp_all add: field_simps)
  then show ?thesis unfolding float64_of_def by (rule round53_close)
qed

lemma float64_of_range:
  assumes "1 \<le> (of_nat (unat x) :: rat)"
  shows "1 / 2 \<le> float64_of x" "float64_of x \<le> 2 * of_nat (unat x)"
proof -
  let ?a = "of_nat (unat x) :: rat"
  have "?a / 2 ^ 53 \<le> ?a / 2" using assms by (intro divide_left_mono) auto
  with float64_of_close [of x] have "\<bar>float64_of x - ?a\<bar> \<le> ?a / 2" by linarith
  with assms show "1 / 2 \<le> float64_of x" "float64_of x \<le> 2 * ?a" by linarith+
qed

text \<open>Converting the operands and dividing costs at most four units of rounding.\<close>

lemma fdiv_close:
  assumes "y \<noteq> 0"
  shows "\<exists>q. fdiv (float64_of x) (float64_of y) = Fin q \<and>
    \<bar>q - of_nat (unat x) / of_nat (unat y)\<bar> \<le> 4 / 2 ^ 53 * (of_nat (unat x) / of_nat (unat y))"
proof -
  let ?a = "of_nat (unat x) :: rat" and ?b = "of_nat (unat y) :: rat"
  let ?A = "float64_of x" and ?B = "float64_of y"
  have A: "\<bar>?A - ?a\<bar> \<le> ?a / 2 ^ 53" and B: "\<bar>?B - ?b\<bar> \<le> ?b / 2 ^ 53" by (rule float64_of_close)+
  have "unat y \<noteq> 0" using assms by (simp add: unat_eq_zero)
  then have b: "1 \<le> ?b" by (cases "unat y") auto
  have "unat y < 2 ^ 64" using unsigned_less [of y] by simp
  then have b2: "?b < 2 ^ 64" by (metis of_nat_less_iff of_nat_numeral of_nat_power)
  have B0: "0 < ?B" "?B \<le> 2 ^ 65" using float64_of_range [OF b] b2 by (linarith, simp)
  have "?A / ?B = 0 \<or> 1 / 2 ^ 70 \<le> ?A / ?B"
  proof (cases "unat x = 0")
    case False
    then have "1 \<le> ?a" by (cases "unat x") auto
    then have "1 / 2 \<le> ?A" by (rule float64_of_range)
    then have "1 / 2 / 2 ^ 65 \<le> ?A / ?B" using B0 by (intro frac_le) auto
    moreover have "1 / 2 ^ 70 \<le> (1 / 2 / 2 ^ 65 :: rat)" by simp
    ultimately show ?thesis by linarith
  qed (simp add: float64_of_def round53_def)
  from round53_close [OF this] have "\<bar>round53 (?A / ?B) - ?A / ?B\<bar> \<le> ?A / ?B * (1 / 2 ^ 53)" by simp
  then have "\<bar>round53 (?A / ?B) - ?a / ?b\<bar> \<le> 4 * (1 / 2 ^ 53) * (?a / ?b)"
    using A B b of_nat_0_le_iff [of "unat x", where 'a = rat] by (intro quotient_error [of _ _ _ ?A ?B]) auto
  then show ?thesis using B0 by (simp add: fdiv_def)
qed

text \<open>Small counters: the operands are exact, and the fraction is far enough from an integer.\<close>

lemma fdiv_floor:
  assumes "y \<noteq> 0" "unat x < 2 ^ 53" "unat y < 2 ^ 53"
  shows "\<exists>q. fdiv (float64_of x) (float64_of y) = Fin q \<and> \<lfloor>q\<rfloor> = int (unat x div unat y) \<and> q < 2 ^ 63"
proof -
  define a b where "a = unat x" and "b = unat y"
  define q where "q = round53 (of_nat a / of_nat b)"
  have "b \<noteq> 0" using assms(1) by (simp add: b_def unat_eq_zero)
  then have b: "0 < b" by simp
  have ops: "float64_of x = of_nat a" "float64_of y = of_nat b"
    unfolding float64_of_def a_def b_def by (rule round53_exact [OF assms(2)], rule round53_exact [OF assms(3)])
  then have F: "fdiv (float64_of x) (float64_of y) = Fin q" using b by (simp add: fdiv_def q_def)
  have ab: "(of_nat b :: rat) < 2 ^ 53" "(of_nat a :: rat) < 2 ^ 53" "0 < (of_nat b :: rat)"
    using assms(2,3) b unfolding a_def [symmetric] b_def [symmetric] by (metis of_nat_less_iff of_nat_numeral of_nat_power of_nat_0_less_iff)+
  have "(of_nat a / of_nat b :: rat) = 0 \<or> 1 / 2 ^ 70 \<le> (of_nat a / of_nat b :: rat)"
  proof (cases "a = 0")
    case False
    then have "1 \<le> (of_nat a :: rat)" by (cases a) auto
    then have "1 / 2 ^ 70 \<le> (of_nat a / of_nat b :: rat)" using ab by (intro frac_le) auto
    then show ?thesis by simp
  qed simp
  from round53_close [OF this] have "\<bar>q - of_nat a / of_nat b\<bar> \<le> of_nat a / of_nat b / 2 ^ 53"
    by (simp add: q_def)
  also have "\<dots> < 1 / of_nat b" using ab by (simp add: field_simps)
  finally have "\<bar>q - of_nat a / of_nat b\<bar> * of_nat b < 1" using ab(3) by (simp add: pos_less_divide_eq)
  then have e: "\<bar>q * of_nat b - of_nat a\<bar> < 1"
    using ab(3) by (simp add: abs_mult_pos left_diff_distrib)
  define n r where "n = a div b" and "r = a mod b"
  have a: "a = n * b + r" "r < b" using b by (simp_all add: n_def r_def)
  then have ar: "(of_nat a :: rat) = of_nat n * of_nat b + of_nat r" "(of_nat r :: rat) \<le> of_nat b - 1"
    by (simp, metis Suc_leI of_nat_Suc of_nat_le_iff le_diff_eq add.commute)
  have n: "n < 2 ^ 53" using assms(2) by (simp add: n_def div_less_dividend a_def [symmetric] le_less_trans [OF div_le_dividend])
  have "of_nat n \<le> q \<and> q < of_nat n + 1"
  proof (cases "r = 0")
    case True
    then have "of_nat a / of_nat b = (of_nat n :: rat)" using ar(1) ab(3) by simp
    then show ?thesis using round53_exact [OF n] by (simp add: q_def)
  next
    case False
    then have "1 \<le> (of_nat r :: rat)" by (cases r) auto
    then have "of_nat n * of_nat b < q * of_nat b" "q * of_nat b < (of_nat n + 1) * of_nat b"
      using e ar unfolding abs_less_iff distrib_right by linarith+
    then show ?thesis using ab(3) by simp
  qed
  moreover have "(of_nat n :: rat) < 2 ^ 53" using n by (metis of_nat_less_iff of_nat_numeral of_nat_power)
  ultimately have "\<lfloor>q\<rfloor> = int n" "q < 2 ^ 63" by (simp_all add: floor_eq_iff)
  then show ?thesis using F by (simp add: n_def a_def b_def)
qed

section \<open>What the averages are\<close>

text \<open>A value that is exact up to a relative error of \<open>2 ^ -51\<close>.\<close>

fun accurate :: "float64 \<Rightarrow> nat \<Rightarrow> nat \<Rightarrow> bool" where
  "accurate (Fin q) a b \<longleftrightarrow> \<bar>q - of_nat a / of_nat b\<bar> \<le> 1 / 2 ^ 51 * (of_nat a / of_nat b)"
| "accurate _ a b \<longleftrightarrow> False"

lemma fdiv_accurate: "y \<noteq> 0 \<Longrightarrow> accurate (fdiv (float64_of x) (float64_of y)) (unat x) (unat y)"
  using fdiv_close [of y x] by auto

lemma fdiv_zero: "fdiv (float64_of x) (float64_of 0) = (if x = 0 then NaN else PInf)"
proof -
  have "float64_of x \<noteq> 0" if "x \<noteq> 0"
  proof -
    have "unat x \<noteq> 0" using that by (simp add: unat_eq_zero)
    then have "1 \<le> (of_nat (unat x) :: rat)" by (cases "unat x") auto
    from float64_of_range(1) [OF this] show ?thesis by auto
  qed
  moreover have "float64_of 0 = 0" by (simp add: float64_of_def round53_def)
  ultimately show ?thesis by (auto simp: fdiv_def)
qed

text \<open>
  C27. The averages per call are accurate: with at least one call, and sums of bytes below
  \<open>2 ^ 64\<close>, the averages of bytes and of reads and writes are finite numbers whose relative error
  is at most \<open>2 ^ -51\<close>, although the counters have more bits than a \<open>float64\<close>.
\<close>

theorem averages_accurate:
  assumes "RPCCalls cs \<noteq> 0"
    and "unat (HeadWritten cs) + unat (BodyWritten cs) < 2 ^ 64" "unat (HeadRead cs) + unat (BodyRead cs) < 2 ^ 64"
  shows "accurate (fst (AvgRPCBytes cs)) (unat (HeadWritten cs) + unat (BodyWritten cs)) (unat (RPCCalls cs)) \<and>
    accurate (snd (AvgRPCBytes cs)) (unat (HeadRead cs) + unat (BodyRead cs)) (unat (RPCCalls cs)) \<and>
    accurate (fst (AvgRPCHeadBytes cs)) (unat (HeadWritten cs)) (unat (RPCCalls cs)) \<and>
    accurate (snd (AvgRPCHeadBytes cs)) (unat (HeadRead cs)) (unat (RPCCalls cs)) \<and>
    accurate (fst (AvgRPCBodyBytes cs)) (unat (BodyWritten cs)) (unat (RPCCalls cs)) \<and>
    accurate (snd (AvgRPCBodyBytes cs)) (unat (BodyRead cs)) (unat (RPCCalls cs)) \<and>
    accurate (fst (AvgRPCCalls cs)) (unat (WriteCalls cs)) (unat (RPCCalls cs)) \<and>
    accurate (snd (AvgRPCCalls cs)) (unat (ReadCalls cs)) (unat (RPCCalls cs))"
proof -
  have sums: "unat (HeadWritten cs + BodyWritten cs) = unat (HeadWritten cs) + unat (BodyWritten cs)"
    "unat (HeadRead cs + BodyRead cs) = unat (HeadRead cs) + unat (BodyRead cs)"
    using assms(2,3) by (simp_all add: unat_word_ariths(1))
  note acc = fdiv_accurate [OF assms(1)]
  show ?thesis using acc [of "HeadWritten cs + BodyWritten cs"] acc [of "HeadRead cs + BodyRead cs"]
    by (simp add: AvgRPCBytes_def AvgRPCHeadBytes_def AvgRPCBodyBytes_def AvgRPCCalls_def acc sums)
qed

text \<open>Three calls that wrote 100 bytes of bodies; the sum and the quotient are not exact.\<close>

definition demoStats :: ConnStats where
  "demoStats = zeroStats\<lparr>RPCCalls := 3, RPCTime := 8, HeadWritten := 84, BodyWritten := 100\<rparr>"

theorem averages_accurate_witness:
  "accurate (fst (AvgRPCBytes demoStats)) 184 3 \<and> fst (AvgRPCBodyBytes demoStats) = Fin (4691249611844267 / 2 ^ 47)"
proof -
  have "accurate (fst (AvgRPCBytes demoStats)) 184 3"
    using averages_accurate [of demoStats] by (simp add: demoStats_def zeroStats_def)
  moreover have "fst (AvgRPCBodyBytes demoStats) = Fin (4691249611844267 / 2 ^ 47)"
  proof -
    have "float64_of 100 = 100" "float64_of 3 = 3"
      using round53_exact [of 100] round53_exact [of 3] by (simp_all add: float64_of_def)
    moreover have "round53 (100 / 3) = 4691249611844267 / 2 ^ 47"
    proof -
      have "\<lfloor>100 / 3 * 2 ^ 128 :: rat\<rfloor> = 11342745564031282115445820247725607048533" by (simp add: floor_eq_iff)
      moreover have "bits 11342745564031282115445820247725607048533 = 134" by (simp add: bits_pos bits_0)
      ultimately have "bits (nat \<lfloor>100 / 3 * 2 ^ 128 :: rat\<rfloor>) - 53 = 81" by simp
      moreover have "round_even (100 / 3 * 2 ^ 128 / 2 ^ 81) = 4691249611844267"
      proof -
        have "\<lfloor>100 / 3 * 2 ^ 128 / 2 ^ 81 :: rat\<rfloor> = 4691249611844266" by (simp add: floor_eq_iff)
        then show ?thesis by (simp add: round_even_def)
      qed
      ultimately show ?thesis using round53_eq [of "100 / 3", OF _ refl refl] by simp
    qed
    ultimately show ?thesis by (simp add: AvgRPCBodyBytes_def demoStats_def zeroStats_def fdiv_def)
  qed
  ultimately show ?thesis by blast
qed

text \<open>
  \<open>AvgRPCTime\<close> is the average in whole milliseconds: for counters below \<open>2 ^ 53\<close> it is the
  quotient of total time and calls rounded down, as a duration. The fraction of a millisecond is
  lost, so calls that take less than one on average are reported as taking none; without any
  call the result is up to the implementation.
\<close>

lemma AvgRPCTime_whole_milliseconds:
  "(RPCCalls cs \<noteq> 0 \<and> unat (RPCTime cs) < 2 ^ 53 \<and> unat (RPCCalls cs) < 2 ^ 53 \<longrightarrow>
     AvgRPCTime impl cs = word_of_nat (unat (RPCTime cs) div unat (RPCCalls cs)) * Millisecond) \<and>
   (RPCTime cs < RPCCalls cs \<and> unat (RPCCalls cs) < 2 ^ 53 \<longrightarrow> AvgRPCTime impl cs = 0) \<and>
   (RPCCalls cs = 0 \<longrightarrow> AvgRPCTime impl cs = impl (if RPCTime cs = 0 then NaN else PInf) * Millisecond)"
proof -
  have main: "AvgRPCTime impl cs = word_of_nat (unat (RPCTime cs) div unat (RPCCalls cs)) * Millisecond"
    if "RPCCalls cs \<noteq> 0" "unat (RPCTime cs) < 2 ^ 53" "unat (RPCCalls cs) < 2 ^ 53"
    using fdiv_floor [OF that] by (auto simp: AvgRPCTime_def int64_of_float_def)
  moreover have "AvgRPCTime impl cs = 0" if lt: "RPCTime cs < RPCCalls cs" and c: "unat (RPCCalls cs) < 2 ^ 53"
  proof -
    have "unat (RPCTime cs) < unat (RPCCalls cs)" using lt by (simp add: word_less_nat_alt)
    moreover from this have "RPCCalls cs \<noteq> 0" by auto
    ultimately show ?thesis using main c by simp
  qed
  ultimately show ?thesis by (auto simp: AvgRPCTime_def int64_of_float_def fdiv_zero)
qed

lemma AvgRPCTime_whole_milliseconds_witness: "\<forall>impl. AvgRPCTime impl demoStats = 2000000"
  using AvgRPCTime_whole_milliseconds [of demoStats] by (simp add: demoStats_def zeroStats_def Millisecond_def)

end
