(* ===== verification/Shutdown.thy ===== *)
theory Shutdown
  imports Connection_Control
begin

text \<open>
  How a server and a client stop: \<open>stopWg\<close>, the accept loop of \<open>serverHandler\<close> with the handlers of
  its connections (\<^verbatim>\<open>src/server.go\<close>), the dial loops of a client's connections (\<^verbatim>\<open>src/client.go\<close>),
  and \<open>Stop\<close>, which closes the stop channel and waits for all of them. \<open>Connection_Control\<close> has
  what a handler of a connection does from the start of its reader and writer on.

  The goroutines of \<open>serveRequest\<close> and of the handshake are not counted by \<open>stopWg\<close>, so \<open>Stop\<close>
  does not wait for them and they are left out.
\<close>

section \<open>Wait groups\<close>

text \<open>\<open>sync.WaitGroup\<close>: a counter that must not become negative.\<close>

definition wg_Add :: "int \<Rightarrow> int \<Rightarrow> int outcome" where
  "wg_Add n wg = (if wg + n < 0 then Panic ''sync: negative WaitGroup counter'' else Ret (wg + n))"

definition wg_Wait :: "int \<Rightarrow> bool" where
  "wg_Wait wg \<longleftrightarrow> wg = 0"

section \<open>The server\<close>

text \<open>
  Where \<open>serverHandler\<close> is: in the \<open>select\<close> on \<open>acceptChan\<close>, behind the close of the listener
  waiting for \<open>Accept\<close> to return, in the \<open>select\<close> with the one-second timer, or gone.
\<close>

datatype accept_phase = Accepting | ClosingListener | Asleep | AcceptorDone

text \<open>
  Where a \<open>serverHandleConnection\<close> is: in the handshake, waiting for its reader and writer, or
  gone; then \<open>None\<close> says that it did not get past the handshake.
\<close>

datatype conn_phase = Handshaking | Talking conn_ctl | Ended "conn_ctl option"

record srvRun =
  r_wg :: int
  r_stop :: bool
  r_listening :: bool
  r_acceptor :: accept_phase
  r_conns :: "conn_phase list"
  r_Stats :: ConnStats
  r_returned :: bool

text \<open>\<open>Start\<close>: \<open>stopWg.Add(1)\<close> and the goroutine of \<open>serverHandler\<close>.\<close>

definition srv_begin :: "ConnStats \<Rightarrow> srvRun" where
  "srv_begin st = \<lparr>r_wg = 1, r_stop = False, r_listening = True, r_acceptor = Accepting, r_conns = [],
     r_Stats = st, r_returned = False\<rparr>"

definition srv_Done :: "srvRun \<Rightarrow> srvRun outcome" where
  "srv_Done s = (case wg_Add (- 1) (r_wg s) of Ret n \<Rightarrow> Ret (s\<lparr>r_wg := n\<rparr>) | Fail e \<Rightarrow> Fail e | Panic p \<Rightarrow> Panic p)"

datatype accept_event = AcceptOk | AcceptErr | StopSeen | AcceptEnds | SleepEnds

text \<open>
  One step of \<open>serverHandler\<close>. A new connection is counted before its goroutine starts. A closed
  listener accepts nothing.
\<close>

definition serverHandler_step :: "accept_event \<Rightarrow> srvRun \<Rightarrow> srvRun outcome option" where
  "serverHandler_step ev s =
     (case (r_acceptor s, ev) of
        (Accepting, AcceptOk) \<Rightarrow>
          if r_listening s
          then Some (case wg_Add 1 (r_wg s) of
              Ret n \<Rightarrow> Ret (s\<lparr>r_wg := n, r_conns := r_conns s @ [Handshaking], r_Stats := incAcceptCalls (r_Stats s)\<rparr>)
            | Fail e \<Rightarrow> Fail e
            | Panic p \<Rightarrow> Panic p)
          else None
      | (Accepting, AcceptErr) \<Rightarrow>
          Some (Ret (s\<lparr>r_acceptor := Asleep, r_Stats := incAcceptErrors (incAcceptCalls (r_Stats s))\<rparr>))
      | (Accepting, StopSeen) \<Rightarrow>
          if r_stop s then Some (Ret (s\<lparr>r_acceptor := ClosingListener, r_listening := False\<rparr>)) else None
      | (ClosingListener, AcceptEnds) \<Rightarrow> Some (srv_Done (s\<lparr>r_acceptor := AcceptorDone\<rparr>))
      | (Asleep, StopSeen) \<Rightarrow> if r_stop s then Some (srv_Done (s\<lparr>r_acceptor := AcceptorDone\<rparr>)) else None
      | (Asleep, SleepEnds) \<Rightarrow> Some (Ret (s\<lparr>r_acceptor := Accepting\<rparr>))
      | _ \<Rightarrow> None)"

text \<open>
  One step of \<open>serverHandleConnection\<close>: the handshake succeeds, fails (\<open>OnConnect\<close>, the read or
  the ten seconds) or is given up because the server stops; reader or writer end; the function
  receives from a channel, or returns.
\<close>

datatype conn_event = ShakeOk | ShakeFails | ShakeStopped | ReaderEnds | WriterEnds | Receive ctl_event | Return

definition serverHandleConnection_step :: "conn_event \<Rightarrow> nat \<Rightarrow> srvRun \<Rightarrow> srvRun outcome option" where
  "serverHandleConnection_step ev i s =
     (let at = (\<lambda>ph. s\<lparr>r_conns := (r_conns s)[i := ph]\<rparr>) in
      if length (r_conns s) \<le> i then None
      else case (r_conns s ! i, ev) of
          (Handshaking, ShakeOk) \<Rightarrow> Some (Ret (at (Talking new_ctl)))
        | (Handshaking, ShakeFails) \<Rightarrow> Some (srv_Done (at (Ended None)))
        | (Handshaking, ShakeStopped) \<Rightarrow> if r_stop s then Some (srv_Done (at (Ended None))) else None
        | (Talking k, ReaderEnds) \<Rightarrow>
            if k_reader k = Running then Some (Ret (at (Talking (k\<lparr>k_reader := Finished None\<rparr>)))) else None
        | (Talking k, WriterEnds) \<Rightarrow>
            if k_writer k = Running then Some (Ret (at (Talking (k\<lparr>k_writer := Finished None\<rparr>)))) else None
        | (Talking k, Receive c) \<Rightarrow>
            (case serverHandleConnection_wait (r_stop s) c k of
               None \<Rightarrow> None
             | Some (Ret k') \<Rightarrow> Some (Ret (at (Talking k')))
             | Some (Fail e) \<Rightarrow> Some (Fail e)
             | Some (Panic p) \<Rightarrow> Some (Panic p))
        | (Talking k, Return) \<Rightarrow> if k_phase k = Over then Some (srv_Done (at (Ended (Some k)))) else None
        | _ \<Rightarrow> None)"

text \<open>Everything that can happen, with the two halves of \<open>Stop\<close>.\<close>

inductive srv_step :: "srvRun \<Rightarrow> srvRun \<Rightarrow> bool" where
  acceptor: "serverHandler_step ev s = Some (Ret s') \<Longrightarrow> srv_step s s'"
| connection: "serverHandleConnection_step ev i s = Some (Ret s') \<Longrightarrow> srv_step s s'"
| stop_closes: "\<not> r_stop s \<Longrightarrow> srv_step s (s\<lparr>r_stop := True\<rparr>)"
| stop_returns: "r_stop s \<Longrightarrow> wg_Wait (r_wg s) \<Longrightarrow> srv_step s (s\<lparr>r_returned := True\<rparr>)"

fun conn_live :: "conn_phase \<Rightarrow> bool" where
  "conn_live (Ended _) = False" | "conn_live _ = True"

definition srv_running :: "srvRun \<Rightarrow> nat" where
  "srv_running s = (if r_acceptor s = AcceptorDone then 0 else 1) + length (filter conn_live (r_conns s))"

fun conn_ok :: "conn_phase \<Rightarrow> bool" where
  "conn_ok Handshaking = True"
| "conn_ok (Talking k) = ctl_inv k"
| "conn_ok (Ended x) = (\<forall>k. x = Some k \<longrightarrow> ctl_inv k \<and> k_phase k = Over)"

definition srv_inv :: "srvRun \<Rightarrow> bool" where
  "srv_inv s \<longleftrightarrow> r_wg s = int (srv_running s) \<and> (\<forall>c \<in> set (r_conns s). conn_ok c) \<and> (r_returned s \<longrightarrow> srv_running s = 0)"

section \<open>Systems that can be stopped\<close>

text \<open>
  What \<open>Stop\<close> needs of the goroutines it waits for: while there is work left after the stop
  channel has been closed, some step brings its end closer, and without any \<open>Wait\<close> returns.
\<close>

locale stoppable =
  fixes inv :: "'s \<Rightarrow> bool" and step :: "'s \<Rightarrow> 's \<Rightarrow> bool" and stopping returned :: "'s \<Rightarrow> bool" and work :: "'s \<Rightarrow> nat"
  assumes step_inv: "step s s' \<Longrightarrow> inv s \<Longrightarrow> inv s'"
    and progress: "inv s \<Longrightarrow> stopping s \<Longrightarrow> 0 < work s \<Longrightarrow> \<exists>s'. step s s' \<and> stopping s' \<and> work s' < work s"
    and finish: "inv s \<Longrightarrow> stopping s \<Longrightarrow> work s = 0 \<Longrightarrow> \<exists>s'. step s s' \<and> returned s'"
begin

lemma steps_inv: "step\<^sup>*\<^sup>* s s' \<Longrightarrow> inv s \<Longrightarrow> inv s'"
  by (induction rule: rtranclp_induct) (auto intro: step_inv)

lemma can_return: "inv s \<Longrightarrow> stopping s \<Longrightarrow> \<exists>s'. step\<^sup>*\<^sup>* s s' \<and> returned s'"
proof (induction "work s" arbitrary: s rule: less_induct)
  case less
  show ?case
  proof (cases "work s = 0")
    case True
    then show ?thesis using finish [OF less.prems] by blast
  next
    case False
    then obtain s1 where s1: "step s s1" "stopping s1" "work s1 < work s" using progress [OF less.prems] by blast
    from less.hyps [OF s1(3) step_inv [OF s1(1) less.prems(1)] s1(2)] obtain s' where "step\<^sup>*\<^sup>* s1 s'" "returned s'" by blast
    with s1(1) show ?thesis by (meson converse_rtranclp_into_rtranclp)
  qed
qed

end

text \<open>Counting over a list in which one element changes.\<close>

lemma sum_update:
  "i < length xs \<Longrightarrow> (\<Sum>y\<leftarrow>xs[i := x]. f y) + f (xs ! i) = (\<Sum>y\<leftarrow>xs. f y) + (f x :: nat)"
  by (induction xs arbitrary: i) (auto split: nat.splits)

lemma sum_list_pos: "0 < (\<Sum>x\<leftarrow>xs. f x :: nat) \<Longrightarrow> \<exists>x \<in> set xs. 0 < f x"
  by (induction xs) auto

lemma count_update:
  assumes "i < length xs"
  shows "length (filter P (xs[i := x])) + (if P (xs ! i) then 1 else 0) = length (filter P xs) + (if P x then 1 else 0)"
proof -
  have "length (filter P ys) = (\<Sum>y\<leftarrow>ys. if P y then 1 else 0)" for ys by (induction ys) auto
  then show ?thesis using sum_update [OF assms, where x = x and f = "\<lambda>y. if P y then 1 else 0"] by simp
qed

text \<open>The end of a connection, step by step.\<close>

fun phase_work :: "ctl_phase \<Rightarrow> nat" where
  "phase_work Selecting = 3" | "phase_work AwaitBoth = 2" | "phase_work AwaitReader = 1" | "phase_work AwaitWriter = 1"
| "phase_work Over = 0"

definition ctl_work :: "conn_ctl \<Rightarrow> nat" where
  "ctl_work k = phase_work (k_phase k) + (if k_reader k = Running then 1 else 0) + (if k_writer k = Running then 1 else 0)"

lemma serverHandleConnection_wait_works:
  "serverHandleConnection_wait stopping ev k = Some (Ret k') \<Longrightarrow> ctl_work k' < ctl_work k"
  by (cases "k_phase k"; cases ev)
    (auto simp: serverHandleConnection_wait_def ctl_work_def shut_def then_phase_def split: if_splits)

lemma clientHandleConnection_wait_works:
  "clientHandleConnection_wait stopping ev k = Some (Ret k') \<Longrightarrow> ctl_work k' < ctl_work k"
  by (cases "k_phase k"; cases ev)
    (auto simp: clientHandleConnection_wait_def ctl_work_def shut_def then_phase_def split: if_splits goroutine.splits)

section \<open>The server stops\<close>

fun accept_work :: "accept_phase \<Rightarrow> nat" where
  "accept_work Accepting = 2" | "accept_work ClosingListener = 1" | "accept_work Asleep = 1" | "accept_work AcceptorDone = 0"

fun conn_work_left :: "conn_phase \<Rightarrow> nat" where
  "conn_work_left Handshaking = 1" | "conn_work_left (Talking k) = Suc (ctl_work k)" | "conn_work_left (Ended _) = 0"

definition srv_work :: "srvRun \<Rightarrow> nat" where
  "srv_work s = accept_work (r_acceptor s) + (\<Sum>c\<leftarrow>r_conns s. conn_work_left c)"

lemma conn_live_work: "0 < conn_work_left c \<longleftrightarrow> conn_live c" "conn_work_left c = 0 \<longleftrightarrow> \<not> conn_live c"
  by (cases c; simp)+

lemma conn_ok_update: "\<forall>c \<in> set cs. conn_ok c \<Longrightarrow> conn_ok c' \<Longrightarrow> \<forall>c \<in> set (cs[i := c']). conn_ok c"
  using set_update_subset_insert [of cs i c'] by auto

lemma serverHandler_step_inv:
  assumes "srv_inv s" "serverHandler_step ev s = Some x"
  shows "case x of Ret s' \<Rightarrow> srv_inv s' | _ \<Rightarrow> False"
  using assms
  by (cases "r_acceptor s"; cases ev)
    (auto simp: serverHandler_step_def srv_inv_def srv_running_def srv_Done_def wg_Add_def split: if_splits)

lemma serverHandleConnection_step_inv:
  assumes "srv_inv s" "serverHandleConnection_step ev i s = Some x"
  shows "case x of Ret s' \<Rightarrow> srv_inv s' | _ \<Rightarrow> False"
proof -
  have i: "i < length (r_conns s)" using assms(2) by (auto simp: serverHandleConnection_step_def Let_def split: if_splits)
  then have ok: "conn_ok (r_conns s ! i)" using assms(1) by (auto simp: srv_inv_def)
  have up: "srv_inv (s\<lparr>r_conns := (r_conns s)[i := c]\<rparr>)" if "conn_live (r_conns s ! i)" "conn_live c" "conn_ok c" for c
    using that assms(1) count_update [OF i, of conn_live c] conn_ok_update [of "r_conns s" c i]
    by (auto simp: srv_inv_def srv_running_def)
  have dn: "srv_Done (s\<lparr>r_conns := (r_conns s)[i := Ended y]\<rparr>) = Ret (s\<lparr>r_conns := (r_conns s)[i := Ended y], r_wg := r_wg s - 1\<rparr>) \<and>
      srv_inv (s\<lparr>r_conns := (r_conns s)[i := Ended y], r_wg := r_wg s - 1\<rparr>)"
    if "conn_live (r_conns s ! i)" "conn_ok (Ended y)" for y
    using that assms(1) count_update [OF i, of conn_live "Ended y"] conn_ok_update [of "r_conns s" "Ended y" i]
    by (auto simp: srv_inv_def srv_running_def srv_Done_def wg_Add_def)
  show ?thesis
  proof (cases "r_conns s ! i")
    case Handshaking
    then show ?thesis using assms(2) i up [of "Talking new_ctl"]
      by (cases ev) (auto simp: serverHandleConnection_step_def dn ctl_inv_def new_ctl_def split: if_splits)
  next
    case (Talking k)
    have inv: "ctl_inv k" using ok Talking by simp
    show ?thesis
    proof (cases ev)
      case (Receive c)
      then obtain y where y: "serverHandleConnection_wait (r_stop s) c k = Some y"
        using assms(2) i Talking by (auto simp: serverHandleConnection_step_def split: option.splits)
      with server_wait.wait_inv [OF inv y] show ?thesis
        using assms(2) i Talking Receive up by (auto simp: serverHandleConnection_step_def)
    next
      case ReaderEnds
      then show ?thesis using assms(2) i Talking inv up [of "Talking (k\<lparr>k_reader := Finished None\<rparr>)"]
        by (auto simp: serverHandleConnection_step_def ctl_inv_def split: if_splits)
    next
      case WriterEnds
      then show ?thesis using assms(2) i Talking inv up [of "Talking (k\<lparr>k_writer := Finished None\<rparr>)"]
        by (auto simp: serverHandleConnection_step_def ctl_inv_def split: if_splits)
    next
      case Return
      then show ?thesis using assms(2) i Talking inv
        by (auto simp: serverHandleConnection_step_def dn split: if_splits)
    qed (use assms(2) i Talking in \<open>auto simp: serverHandleConnection_step_def\<close>)
  next
    case (Ended y)
    then show ?thesis using assms(2) i by (cases ev) (auto simp: serverHandleConnection_step_def)
  qed
qed

lemma srv_step_inv:
  assumes "srv_step s s'" "srv_inv s"
  shows "srv_inv s'"
  using assms
proof cases
  case (acceptor ev)
  then show ?thesis using serverHandler_step_inv [OF assms(2)] by fastforce
next
  case (connection ev i)
  then show ?thesis using serverHandleConnection_step_inv [OF assms(2)] by fastforce
next
  case stop_returns
  then show ?thesis using assms(2) by (simp add: srv_inv_def wg_Wait_def) (simp add: srv_running_def)
qed (use assms(2) in \<open>simp add: srv_inv_def srv_running_def\<close>)

lemma acceptor_progress:
  assumes "srv_inv s" "r_stop s" "r_acceptor s \<noteq> AcceptorDone"
  shows "\<exists>s'. srv_step s s' \<and> r_stop s' \<and> srv_work s' < srv_work s"
proof -
  define ev where "ev = (if r_acceptor s = ClosingListener then AcceptEnds else StopSeen)"
  have wg: "0 < r_wg s" using assms(1,3) by (simp add: srv_inv_def srv_running_def)
  obtain s' where "serverHandler_step ev s = Some (Ret s')" "r_stop s'" "r_conns s' = r_conns s"
    "accept_work (r_acceptor s') < accept_work (r_acceptor s)"
    using assms(2,3) wg by (cases "r_acceptor s") (auto simp: serverHandler_step_def srv_Done_def wg_Add_def ev_def)
  then show ?thesis by (auto simp: srv_work_def intro!: exI [of _ s'] acceptor)
qed

lemma Talking_progress:
  assumes "ctl_inv k"
  shows "k_phase k = Over \<or> k_reader k = Running \<or> k_writer k = Running \<or>
    (\<exists>ev k'. serverHandleConnection_wait stopping ev k = Some (Ret k') \<and> ctl_work k' < ctl_work k)"
  using server_wait.wait_ready [OF assms] server_wait.wait_inv [OF assms] serverHandleConnection_wait_works
  by (metis not_Some_eq)

lemma connection_progress:
  assumes "srv_inv s" "r_stop s" "i < length (r_conns s)" "conn_live (r_conns s ! i)"
  shows "\<exists>ev s' c. serverHandleConnection_step ev i s = Some (Ret s') \<and> r_stop s' \<and> r_acceptor s' = r_acceptor s \<and>
    r_conns s' = (r_conns s)[i := c] \<and> conn_work_left c < conn_work_left (r_conns s ! i)"
proof -
  have "filter conn_live (r_conns s) \<noteq> []" using assms(3,4) by (metis filter_empty_conv nth_mem)
  then have "0 < length (filter conn_live (r_conns s))" by blast
  then have wg: "0 < r_wg s" using assms(1) by (simp add: srv_inv_def srv_running_def)
  show ?thesis
  proof (cases "r_conns s ! i")
    case Handshaking
    then show ?thesis using assms(2,3) wg
      by (intro exI [of _ ShakeStopped] exI [of _ "s\<lparr>r_conns := (r_conns s)[i := Ended None], r_wg := r_wg s - 1\<rparr>"] exI [of _ "Ended None"])
        (simp add: serverHandleConnection_step_def srv_Done_def wg_Add_def)
  next
    case (Talking k)
    have inv: "ctl_inv k" using assms(1,3) Talking nth_mem by (fastforce simp: srv_inv_def)
    consider "k_phase k = Over" | "k_reader k = Running" | "k_writer k = Running"
      | ev k' where "serverHandleConnection_wait (r_stop s) ev k = Some (Ret k')" "ctl_work k' < ctl_work k"
      using Talking_progress [OF inv] by blast
    then show ?thesis
    proof cases
      case 1
      then show ?thesis using assms(2,3) wg Talking
        by (intro exI [of _ Return] exI [of _ "s\<lparr>r_conns := (r_conns s)[i := Ended (Some k)], r_wg := r_wg s - 1\<rparr>"] exI [of _ "Ended (Some k)"])
          (simp add: serverHandleConnection_step_def srv_Done_def wg_Add_def)
    next
      case 2
      then show ?thesis using assms(2,3) Talking
        by (intro exI [of _ ReaderEnds]) (auto simp: serverHandleConnection_step_def ctl_work_def)
    next
      case 3
      then show ?thesis using assms(2,3) Talking
        by (intro exI [of _ WriterEnds]) (auto simp: serverHandleConnection_step_def ctl_work_def)
    next
      case (4 ev k')
      then show ?thesis using assms(2,3) Talking
        by (intro exI [of _ "Receive ev"]) (auto simp: serverHandleConnection_step_def)
    qed
  qed (use assms(4) in simp)
qed

interpretation srv: stoppable srv_inv srv_step r_stop r_returned srv_work
proof
  show "srv_step s s' \<Longrightarrow> srv_inv s \<Longrightarrow> srv_inv s'" for s s' by (rule srv_step_inv)
next
  fix s assume s: "srv_inv s" "r_stop s" "0 < srv_work s"
  show "\<exists>s'. srv_step s s' \<and> r_stop s' \<and> srv_work s' < srv_work s"
  proof (cases "r_acceptor s = AcceptorDone")
    case True
    then obtain c where "c \<in> set (r_conns s)" "conn_work_left c \<noteq> 0"
      using s(3) sum_list_pos [of conn_work_left "r_conns s"] by (auto simp: srv_work_def)
    then obtain i where i: "i < length (r_conns s)" "conn_live (r_conns s ! i)" by (auto simp: in_set_conv_nth conn_live_work)
    obtain ev s' c' where c: "serverHandleConnection_step ev i s = Some (Ret s')" "r_stop s'" "r_acceptor s' = r_acceptor s"
      "r_conns s' = (r_conns s)[i := c']" "conn_work_left c' < conn_work_left (r_conns s ! i)"
      using connection_progress [OF s(1,2) i] by blast
    with sum_update [OF i(1), where f = conn_work_left and x = c'] have "srv_work s' < srv_work s" by (simp add: srv_work_def)
    with c(1,2) show ?thesis by (blast intro: connection)
  qed (rule acceptor_progress [OF s(1,2)])
next
  fix s assume s: "srv_inv s" "r_stop s" "srv_work s = 0"
  have "accept_work a = 0 \<longleftrightarrow> a = AcceptorDone" for a by (cases a) simp_all
  then have "srv_running s = 0"
    using s(3) by (auto simp: srv_work_def srv_running_def filter_empty_conv sum_list_eq_0_iff conn_live_work)
  then have "wg_Wait (r_wg s)" using s(1) by (simp add: srv_inv_def wg_Wait_def)
  then show "\<exists>s'. srv_step s s' \<and> r_returned s'" using stop_returns [OF s(2)] by fastforce
qed

text \<open>
  C16. \<open>Server.Stop\<close> joins the goroutines it counts. However accepts, handshakes, ends of readers
  and writers and the stop are ordered, no \<open>Add\<close> or \<open>Done\<close> of \<open>stopWg\<close> and no close of a stop channel
  panics; a connection is never counted from zero, as \<open>sync.WaitGroup\<close> demands; when \<open>Stop\<close> has
  returned, the accept loop has ended and every connection is closed, with its reader and writer
  gone; and once the stop channel is closed, \<open>Stop\<close> can always get there.
\<close>

theorem server_Stop_joins:
  assumes "srv_step\<^sup>*\<^sup>* (srv_begin st) s"
  shows "(\<forall>ev p. serverHandler_step ev s \<noteq> Some (Panic p)) \<and>
    (\<forall>ev i p. serverHandleConnection_step ev i s \<noteq> Some (Panic p)) \<and>
    (r_acceptor s = Accepting \<longrightarrow> 0 < r_wg s) \<and>
    (r_returned s \<longrightarrow> r_acceptor s = AcceptorDone \<and>
       (\<forall>c \<in> set (r_conns s). \<exists>x. c = Ended x \<and>
          (\<forall>k. x = Some k \<longrightarrow> k_reader k \<noteq> Running \<and> k_writer k \<noteq> Running \<and> \<not> k_open k))) \<and>
    (r_stop s \<longrightarrow> (\<exists>s'. srv_step\<^sup>*\<^sup>* s s' \<and> r_returned s'))"
proof -
  have "srv_inv (srv_begin st)" by (simp add: srv_inv_def srv_running_def srv_begin_def)
  from srv.steps_inv [OF assms this] have inv: "srv_inv s" .
  have ended: "\<exists>x. c = Ended x \<and> (\<forall>k. x = Some k \<longrightarrow> k_reader k \<noteq> Running \<and> k_writer k \<noteq> Running \<and> \<not> k_open k)"
    if "conn_ok c" "\<not> conn_live c" for c
    using that by (cases c) (auto simp: ctl_inv_def)
  have "r_acceptor s = AcceptorDone \<and> (\<forall>c \<in> set (r_conns s). conn_ok c \<and> \<not> conn_live c)" if "r_returned s"
    using that inv by (auto simp: srv_inv_def srv_running_def filter_empty_conv split: if_splits)
  moreover have "0 < r_wg s" if "r_acceptor s = Accepting" using that inv by (simp add: srv_inv_def srv_running_def)
  moreover have "serverHandler_step ev s \<noteq> Some (Panic p)" "serverHandleConnection_step ev' i s \<noteq> Some (Panic p)" for ev ev' i p
    using serverHandler_step_inv [OF inv, of ev "Panic p"] serverHandleConnection_step_inv [OF inv, of ev' i "Panic p"] by auto
  ultimately show ?thesis using srv.can_return [OF inv] ended by blast
qed

text \<open>A connection is accepted, the server is stopped during its handshake, and \<open>Stop\<close> returns.\<close>

definition srv_demo :: srvRun where
  "srv_demo = \<lparr>r_wg = 0, r_stop = True, r_listening = False, r_acceptor = AcceptorDone, r_conns = [Ended None],
     r_Stats = incAcceptCalls zeroStats, r_returned = True\<rparr>"

lemma srv_demo_reach: "srv_step\<^sup>*\<^sup>* (srv_begin zeroStats) srv_demo"
proof -
  let ?s = "\<lambda>wg stop ls ph cs b. \<lparr>r_wg = wg, r_stop = stop, r_listening = ls, r_acceptor = ph, r_conns = cs,
     r_Stats = incAcceptCalls zeroStats, r_returned = b\<rparr>"
  note eval = serverHandler_step_def serverHandleConnection_step_def srv_Done_def wg_Add_def
  have a: "srv_step (srv_begin zeroStats) (?s 2 False True Accepting [Handshaking] False)"
    by (rule acceptor [of AcceptOk]) (simp add: eval srv_begin_def)
  have b: "srv_step (?s 2 False True Accepting [Handshaking] False) (?s 2 True True Accepting [Handshaking] False)"
    using stop_closes [of "?s 2 False True Accepting [Handshaking] False"] by simp
  have c: "srv_step (?s 2 True True Accepting [Handshaking] False) (?s 1 True True Accepting [Ended None] False)"
    by (rule connection [of ShakeStopped 0]) (simp add: eval)
  have d: "srv_step (?s 1 True True Accepting [Ended None] False) (?s 1 True False ClosingListener [Ended None] False)"
    by (rule acceptor [of StopSeen]) (simp add: eval)
  have e: "srv_step (?s 1 True False ClosingListener [Ended None] False) (?s 0 True False AcceptorDone [Ended None] False)"
    by (rule acceptor [of AcceptEnds]) (simp add: eval)
  have f: "srv_step (?s 0 True False AcceptorDone [Ended None] False) (?s 0 True False AcceptorDone [Ended None] True)"
    using stop_returns [of "?s 0 True False AcceptorDone [Ended None] False"] by (simp add: wg_Wait_def)
  show ?thesis unfolding srv_demo_def
    using a b c d e f by (meson converse_rtranclp_into_rtranclp r_into_rtranclp)
qed

theorem server_Stop_joins_witness:
  "srv_step\<^sup>*\<^sup>* (srv_begin zeroStats) srv_demo \<and> r_acceptor srv_demo = AcceptorDone \<and>
    (\<exists>x. r_conns srv_demo ! 0 = Ended x)"
  using server_Stop_joins [OF srv_demo_reach] srv_demo_reach by (simp add: srv_demo_def)

section \<open>The client stops\<close>

text \<open>
  A handler of a client's connection is a phase of the loop of \<open>clientHandler\<close>, and inside
  \<open>clientHandleConnection\<close> the state of its reader and writer; \<open>None\<close> is before they are started.
\<close>

record 'c cliRun =
  q_wg :: int
  q_stop :: bool
  q_handlers :: "('c handler_phase \<times> conn_ctl option) list"
  q_Stats :: ConnStats
  q_returned :: bool

definition cli_begin :: "nat \<Rightarrow> ConnStats \<Rightarrow> 'c cliRun" where
  "cli_begin n st = \<lparr>q_wg = int n, q_stop = False, q_handlers = replicate n (Dialing, None), q_Stats = st, q_returned = False\<rparr>"

definition cli_Done :: "'c cliRun \<Rightarrow> 'c cliRun outcome" where
  "cli_Done s = (case wg_Add (- 1) (q_wg s) of Ret n \<Rightarrow> Ret (s\<lparr>q_wg := n\<rparr>) | Fail e \<Rightarrow> Fail e | Panic p \<Rightarrow> Panic p)"

datatype 'c cli_event = Loop "'c handler_event" | StartBoth | CReaderEnds "goerr option" | CWriterEnds "goerr option" | CReceive ctl_event

text \<open>
  One step of a handler. \<open>clientHandleConnection\<close> returns when its hook or the handshake fails,
  or when reader and writer have been joined; the deferred \<open>stopWg.Done()\<close> runs when the loop
  returns.
\<close>

definition clientHandler_go :: "'c cli_event \<Rightarrow> nat \<Rightarrow> 'c cliRun \<Rightarrow> 'c cliRun outcome option" where
  "clientHandler_go ev i s =
     (let at = (\<lambda>h. s\<lparr>q_handlers := (q_handlers s)[i := h]\<rparr>); h = q_handlers s ! i in
      if length (q_handlers s) \<le> i then None
      else case ev of
          Loop e \<Rightarrow>
            if e = ConnectionOver \<and> (case snd h of None \<Rightarrow> False | Some k \<Rightarrow> k_phase k \<noteq> Over) then None
            else (case clientHandler_step (q_stop s) e (fst h, q_Stats s) of
                    None \<Rightarrow> None
                  | Some (ph', st) \<Rightarrow>
                      (let s' = (at (ph', None))\<lparr>q_Stats := st\<rparr> in
                       Some (if ph' = Returned then cli_Done s' else Ret s')))
        | StartBoth \<Rightarrow> (case h of (Serving c, None) \<Rightarrow> Some (Ret (at (Serving c, Some new_ctl))) | _ \<Rightarrow> None)
        | CReaderEnds e \<Rightarrow>
            (case h of
               (Serving c, Some k) \<Rightarrow>
                 if k_reader k = Running then Some (Ret (at (Serving c, Some (k\<lparr>k_reader := Finished e\<rparr>)))) else None
             | _ \<Rightarrow> None)
        | CWriterEnds e \<Rightarrow>
            (case h of
               (Serving c, Some k) \<Rightarrow>
                 if k_writer k = Running then Some (Ret (at (Serving c, Some (k\<lparr>k_writer := Finished e\<rparr>)))) else None
             | _ \<Rightarrow> None)
        | CReceive r \<Rightarrow>
            (case h of
               (Serving c, Some k) \<Rightarrow>
                 (case clientHandleConnection_wait (q_stop s) r k of
                    None \<Rightarrow> None
                  | Some (Ret k') \<Rightarrow> Some (Ret (at (Serving c, Some k')))
                  | Some (Fail e) \<Rightarrow> Some (Fail e)
                  | Some (Panic p) \<Rightarrow> Some (Panic p))
             | _ \<Rightarrow> None))"

inductive cli_step :: "'c cliRun \<Rightarrow> 'c cliRun \<Rightarrow> bool" where
  handler: "clientHandler_go ev i s = Some (Ret s') \<Longrightarrow> cli_step s s'"
| client_stop_closes: "\<not> q_stop s \<Longrightarrow> cli_step s (s\<lparr>q_stop := True\<rparr>)"
| client_stop_returns: "q_stop s \<Longrightarrow> wg_Wait (q_wg s) \<Longrightarrow> cli_step s (s\<lparr>q_returned := True\<rparr>)"

fun thread_live :: "'c handler_phase \<times> conn_ctl option \<Rightarrow> bool" where
  "thread_live (ph, x) \<longleftrightarrow> ph \<noteq> Returned"

fun thread_ok :: "'c handler_phase \<times> conn_ctl option \<Rightarrow> bool" where
  "thread_ok (ph, None) = True" | "thread_ok (ph, Some k) = ctl_inv k"

fun thread_work :: "'c handler_phase \<times> conn_ctl option \<Rightarrow> nat" where
  "thread_work (ph, x) = (if ph = Returned then 0 else Suc (case x of None \<Rightarrow> 0 | Some k \<Rightarrow> ctl_work k))"

definition cli_inv :: "'c cliRun \<Rightarrow> bool" where
  "cli_inv s \<longleftrightarrow> q_wg s = int (length (filter thread_live (q_handlers s))) \<and> (\<forall>h \<in> set (q_handlers s). thread_ok h) \<and>
     (q_returned s \<longrightarrow> filter thread_live (q_handlers s) = [])"

definition cli_work :: "'c cliRun \<Rightarrow> nat" where
  "cli_work s = (\<Sum>h\<leftarrow>q_handlers s. thread_work h)"

lemma thread_live_work: "0 < thread_work h \<longleftrightarrow> thread_live h" "thread_work h = 0 \<longleftrightarrow> \<not> thread_live h"
  by (cases h; simp)+

lemma thread_ok_update: "\<forall>h \<in> set hs. thread_ok h \<Longrightarrow> thread_ok h' \<Longrightarrow> \<forall>h \<in> set (hs[i := h']). thread_ok h"
  using set_update_subset_insert [of hs i h'] by auto

lemma clientHandler_step_returned [simp]: "clientHandler_step stopping e (Returned, st) = None"
  by (cases e) simp_all

lemma clientHandler_go_inv:
  assumes "cli_inv s" "clientHandler_go ev i s = Some x"
  shows "case x of Ret s' \<Rightarrow> cli_inv s' | _ \<Rightarrow> False"
proof -
  have i: "i < length (q_handlers s)" using assms(2) by (auto simp: clientHandler_go_def Let_def split: if_splits)
  obtain ph y where h: "q_handlers s ! i = (ph, y)" by (cases "q_handlers s ! i")
  have ok: "thread_ok (ph, y)" using assms(1) i h nth_mem [OF i] by (auto simp: cli_inv_def)
  have nr: "\<not> q_returned s" if "ph \<noteq> Returned"
    using that assms(1) h nth_mem [OF i] by (auto simp: cli_inv_def filter_empty_conv)
  have up: "cli_inv (s\<lparr>q_handlers := (q_handlers s)[i := h'], q_Stats := st\<rparr>)"
    if "ph \<noteq> Returned" "thread_live h'" "thread_ok h'" for h' st
    using that assms(1) h nr count_update [OF i, of thread_live h'] thread_ok_update [of "q_handlers s" h' i]
    by (auto simp: cli_inv_def)
  have up': "cli_inv (s\<lparr>q_handlers := (q_handlers s)[i := h']\<rparr>)" if "ph \<noteq> Returned" "thread_live h'" "thread_ok h'" for h'
    using up [OF that, of "q_Stats s"] by simp
  have dn: "cli_Done (s\<lparr>q_handlers := (q_handlers s)[i := (Returned, None)], q_Stats := st\<rparr>) =
        Ret (s\<lparr>q_handlers := (q_handlers s)[i := (Returned, None)], q_Stats := st, q_wg := q_wg s - 1\<rparr>)"
      "cli_inv (s\<lparr>q_handlers := (q_handlers s)[i := (Returned, None)], q_Stats := st, q_wg := q_wg s - 1\<rparr>)"
    if "ph \<noteq> Returned" for st
    using that assms(1) h nr count_update [OF i, of thread_live "(Returned, None)"] thread_ok_update [of "q_handlers s" "(Returned, None)" i]
    by (auto simp: cli_inv_def cli_Done_def wg_Add_def)
  show ?thesis
  proof (cases ev)
    case (Loop e)
    have "ph \<noteq> Returned" using assms(2) i h Loop by (auto simp: clientHandler_go_def Let_def split: if_splits)
    then show ?thesis using assms(2) i h Loop up dn
      by (auto simp: clientHandler_go_def Let_def split: if_splits option.splits)
  next
    case (CReceive r)
    then obtain c k z where k: "ph = Serving c" "y = Some k" "clientHandleConnection_wait (q_stop s) r k = Some z"
      using assms(2) i h by (auto simp: clientHandler_go_def Let_def split: handler_phase.splits option.splits)
    with client_wait.wait_inv [OF _ k(3)] ok show ?thesis
      using assms(2) i h CReceive up' by (auto simp: clientHandler_go_def)
  qed (use assms(2) i h ok up' in \<open>auto simp: clientHandler_go_def Let_def ctl_inv_def new_ctl_def split: if_splits handler_phase.splits option.splits\<close>)
qed

lemma handler_progress:
  assumes "cli_inv s" "q_stop s" "i < length (q_handlers s)" "thread_live (q_handlers s ! i)"
  shows "\<exists>ev s' h. clientHandler_go ev i s = Some (Ret s') \<and> q_stop s' \<and>
    q_handlers s' = (q_handlers s)[i := h] \<and> thread_work h < thread_work (q_handlers s ! i)"
proof -
  obtain ph x where h: "q_handlers s ! i = (ph, x)" "ph \<noteq> Returned" using assms(4) by (cases "q_handlers s ! i") auto
  have "filter thread_live (q_handlers s) \<noteq> []" using assms(3,4) by (metis filter_empty_conv nth_mem)
  then have "0 < length (filter thread_live (q_handlers s))" by blast
  then have wg: "0 < q_wg s" using assms(1) by (simp add: cli_inv_def)
  have ret: ?thesis if "clientHandler_step True e (ph, q_Stats s) = Some (Returned, st)"
    "e = ConnectionOver \<longrightarrow> (\<forall>k. x = Some k \<longrightarrow> k_phase k = Over)" for e st
    using that assms(2,3) h wg
    by (intro exI [of _ "Loop e"] exI [of _ "s\<lparr>q_handlers := (q_handlers s)[i := (Returned, None)], q_Stats := st, q_wg := q_wg s - 1\<rparr>"]
        exI [of _ "(Returned, None)"]) (auto simp: clientHandler_go_def Let_def cli_Done_def wg_Add_def split: option.splits)
  show ?thesis
  proof (cases ph)
    case Dialing
    then show ?thesis using ret [of "DialEnds (StopWhileDialing (Inl EOF))"] by simp
  next
    case Sleeping
    then show ?thesis using ret [of SleepStopped] by simp
  next
    case (Serving c)
    show ?thesis
    proof (cases "x = None \<or> k_phase (the x) = Over")
      case True
      then have "\<forall>k. x = Some k \<longrightarrow> k_phase k = Over" by auto
      then show ?thesis using Serving by (intro ret [of ConnectionOver]) simp_all
    next
      case False
      then obtain k where k: "x = Some k" "k_phase k \<noteq> Over" by auto
      have inv: "ctl_inv k" using assms(1,3) h k nth_mem [OF assms(3)] by (auto simp: cli_inv_def)
      have go: ?thesis if "clientHandler_go ev i s = Some (Ret (s\<lparr>q_handlers := (q_handlers s)[i := (ph, Some k')]\<rparr>))"
        "ctl_work k' < ctl_work k" for ev k'
        using that assms(2) h k
        by (intro exI [of _ ev] exI [of _ "s\<lparr>q_handlers := (q_handlers s)[i := (ph, Some k')]\<rparr>"] exI [of _ "(ph, Some k')"]) (simp add: Serving)
      consider "k_reader k = Running" | "k_writer k = Running"
        | ev k' where "clientHandleConnection_wait (q_stop s) ev k = Some (Ret k')" "ctl_work k' < ctl_work k"
        using client_wait.wait_ready [OF inv k(2)] client_wait.wait_inv [OF inv] clientHandleConnection_wait_works by (metis not_Some_eq)
      then show ?thesis
      proof cases
        case 1
        then show ?thesis using assms(3) h k Serving
          by (intro go [of "CReaderEnds None"]) (auto simp: clientHandler_go_def ctl_work_def)
      next
        case 2
        then show ?thesis using assms(3) h k Serving
          by (intro go [of "CWriterEnds None"]) (auto simp: clientHandler_go_def ctl_work_def)
      next
        case (3 ev k')
        then show ?thesis using assms(3) h k Serving by (intro go [of "CReceive ev"]) (auto simp: clientHandler_go_def)
      qed
    qed
  qed (use h in simp)
qed

interpretation cli: stoppable cli_inv cli_step q_stop q_returned cli_work
proof
  fix s s' :: "'c cliRun"
  assume "cli_step s s'" "cli_inv s"
  then show "cli_inv s'"
  proof cases
    case (handler ev i)
    then show ?thesis using clientHandler_go_inv [OF \<open>cli_inv s\<close>] by fastforce
  qed (simp_all add: cli_inv_def wg_Wait_def)
next
  fix s :: "'c cliRun"
  assume s: "cli_inv s" "q_stop s" "0 < cli_work s"
  then obtain i where i: "i < length (q_handlers s)" "thread_live (q_handlers s ! i)"
    using sum_list_pos [of thread_work "q_handlers s"] by (auto simp: cli_work_def in_set_conv_nth thread_live_work)
  obtain ev s' h where h: "clientHandler_go ev i s = Some (Ret s')" "q_stop s'" "q_handlers s' = (q_handlers s)[i := h]"
    "thread_work h < thread_work (q_handlers s ! i)" using handler_progress [OF s(1,2) i] by blast
  with sum_update [OF i(1), where f = thread_work and x = h] have "cli_work s' < cli_work s" by (simp add: cli_work_def)
  with h(1,2) show "\<exists>s'. cli_step s s' \<and> q_stop s' \<and> cli_work s' < cli_work s" by (blast intro: handler)
next
  fix s :: "'c cliRun"
  assume s: "cli_inv s" "q_stop s" "cli_work s = 0"
  then have "filter thread_live (q_handlers s) = []"
    by (auto simp: cli_work_def filter_empty_conv sum_list_eq_0_iff thread_live_work)
  then have "wg_Wait (q_wg s)" using s(1) by (simp add: cli_inv_def wg_Wait_def)
  then show "\<exists>s'. cli_step s s' \<and> q_returned s'" using client_stop_returns [OF s(2)] by fastforce
qed

text \<open>
  C26. \<open>Client.Stop\<close> joins the handlers of all its connections, whatever they are doing: dialling,
  sleeping after a failed dial, in the handshake or serving a connection. No step panics; the
  counter is the number of handlers that still run; when \<open>Stop\<close> has returned all have ended; and
  once the stop channel is closed, \<open>Stop\<close> can always get there.
\<close>

theorem client_Stop_joins:
  assumes "cli_step\<^sup>*\<^sup>* (cli_begin n st) s"
  shows "(\<forall>ev i p. clientHandler_go ev i s \<noteq> Some (Panic p)) \<and>
    q_wg s = int (length (filter (\<lambda>h. fst h \<noteq> Returned) (q_handlers s))) \<and>
    (q_returned s \<longrightarrow> (\<forall>h \<in> set (q_handlers s). fst h = Returned)) \<and>
    (q_stop s \<longrightarrow> (\<exists>s'. cli_step\<^sup>*\<^sup>* s s' \<and> q_returned s'))"
proof -
  have start: "cli_inv (cli_begin n st)"
    by (auto simp: cli_inv_def cli_begin_def)
  from cli.steps_inv [OF assms this] have inv: "cli_inv s" .
  have live: "thread_live = (\<lambda>h. fst h \<noteq> Returned)" by (auto simp: fun_eq_iff)
  have "clientHandler_go ev i s \<noteq> Some (Panic p)" for ev i p
    using clientHandler_go_inv [OF inv, of ev i "Panic p"] by auto
  then show ?thesis using inv cli.can_return [OF inv] by (auto simp: cli_inv_def live filter_empty_conv)
qed

text \<open>A client with two connections, stopped while both dial.\<close>

theorem client_Stop_joins_witness:
  "\<exists>s :: nat cliRun. cli_step\<^sup>*\<^sup>* (cli_begin 2 zeroStats) s \<and> q_returned s \<and> fst ` set (q_handlers s) \<subseteq> {Returned}"
proof -
  let ?s = "(cli_begin 2 zeroStats :: nat cliRun)\<lparr>q_stop := True\<rparr>"
  have r: "cli_step\<^sup>*\<^sup>* (cli_begin 2 zeroStats) ?s"
    by (rule r_into_rtranclp, rule client_stop_closes) (simp add: cli_begin_def)
  with client_Stop_joins [OF r] obtain s where s: "cli_step\<^sup>*\<^sup>* ?s s" "q_returned s" by auto
  have "cli_step\<^sup>*\<^sup>* (cli_begin 2 zeroStats) s" using r s(1) by (rule rtranclp_trans)
  with client_Stop_joins [OF this] s(2) show ?thesis by blast
qed

end
