(* ===== verification/Response_Stream.thy ===== *)
theory Response_Stream
  imports Request_Stream
begin

text \<open>
  Streams of several responses: the queue of a server's connection drained by the loop of its
  writer, and the loop of the client's reader that gives every response to its caller.
\<close>

section \<open>The server's queue on the wire\<close>

text \<open>The wire image of a response, and several rounds of \<open>serverWriter\<close> in a row.\<close>

definition reply_frame :: "('h, 'ty) headers_impl \<Rightarrow> ('h, 'ty) registry \<Rightarrow> 'h wireResponse \<Rightarrow> byte list" where
  "reply_frame H reg w = response_head H reg w @ body_bytes (rs_Body w)"

fun serverWriter_run :: "('h, 'ty) headers_impl \<Rightarrow> ('h, 'ty) registry \<Rightarrow> growth \<Rightarrow> int \<Rightarrow> sched list \<Rightarrow>
    writerState \<Rightarrow> 'h serverState \<Rightarrow> 'h serverConn \<Rightarrow> spliceWorld \<Rightarrow>
    (round_end \<times> goerr option \<times> writerState \<times> 'h serverState \<times> 'h serverConn \<times> spliceWorld) option" where
  "serverWriter_run H reg grw delay [] w s sc wd = Some (Again, None, w, s, sc, wd)"
| "serverWriter_run H reg grw delay (Tick # ss) w s sc wd =
     serverWriter_run H reg grw delay ss (w\<lparr>ws_f := flush_tick (ws_f w)\<rparr>) s sc wd"
| "serverWriter_run H reg grw delay (Round br # ss) w s sc wd =
     (case serverWriter_round H reg grw delay br w s sc wd of
        Some (Again, _, w', s', sc', wd') \<Rightarrow> serverWriter_run H reg grw delay ss w' s' sc' wd'
      | r \<Rightarrow> r)"

text \<open>What the writer sends for a message when the struct it reuses has been cleared.\<close>

definition reply_of :: "'h serverMessage \<Rightarrow> 'h wireResponse" where
  "reply_of m = (case sm_Response m of
     None \<Rightarrow> \<lparr>rs_ID = sm_ID m, rs_Headers = None, rs_Body = emptyBody, rs_Error = sm_Error m\<rparr>
   | Some r \<Rightarrow> \<lparr>rs_ID = sm_ID m, rs_Headers = resp_Headers r, rs_Body = resp_Body r, rs_Error = sm_Error m\<rparr>)"

definition wire_clear :: "'h serverConn \<Rightarrow> bool" where
  "wire_clear sc \<longleftrightarrow> rs_Headers (sc_wr sc) = None \<and> rs_Body (sc_wr sc) = emptyBody"

lemma take_reply:
  assumes "sc_responses sc = a # q" "wire_clear sc"
  shows "\<exists>s'. serverWriter_take s sc = (Some (reply_of (s_heap s a)), s', sc\<lparr>sc_responses := q, sc_wr := reply_of (s_heap s a)\<rparr>) \<and>
    (\<forall>b. b \<noteq> a \<longrightarrow> s_heap s' b = s_heap s b)"
proof -
  obtain i e where "sc_wr sc = \<lparr>rs_ID = i, rs_Headers = None, rs_Body = emptyBody, rs_Error = e\<rparr>"
    using assms(2) by (cases "sc_wr sc") (auto simp: wire_clear_def)
  then show ?thesis using assms(1)
    by (cases "sm_Response (s_heap s a)") (simp_all add: serverWriter_take_def reply_of_def putMessage_def set_message_def Let_def)
qed

lemma length_response_head:
  "length (response_head H reg w) = 28 + length (header_bytes H reg (rs_Headers w)) + length (rs_Error w)"
  by (simp add: response_head_def responseStartLineSize_def)

lemma reply_round:
  assumes grw: "\<And>n c. n \<le> grw n c"
    and q: "sc_responses sc = a # q" "wire_clear sc"
    and wr: "wr = reply_of (s_heap s a)" "header_encodes H reg (rs_Headers wr)" "copied_body (rs_Body wr) (me_w (ws_e w)) wd"
    and d: "draining w (length (response_head H reg wr) + heads) (n + length (reply_frame H reg wr))"
  shows "\<exists>w' s' sc'. serverWriter_round H reg grw delay TakeMessage w s sc wd = Some (Again, None, w', s', sc', wd) \<and>
    sc_responses sc' = q \<and> wire_clear sc' \<and> (\<forall>b. b \<noteq> a \<longrightarrow> s_heap s' b = s_heap s b) \<and>
    stream (ws_e w') = stream (ws_e w) @ reply_frame H reg wr \<and> draining w' heads n \<and>
    fl_chan (ws_f w') \<noteq> None \<and> wconn (me_w (ws_e w')) = wconn (me_w (ws_e w))"
proof -
  obtain s1 where T: "serverWriter_take s sc = (Some wr, s1, sc\<lparr>sc_responses := q, sc_wr := wr\<rparr>)"
    "\<forall>b. b \<noteq> a \<longrightarrow> s_heap s1 b = s_heap s b" using take_reply [OF q, of s] wr(1) by auto
  let ?e = "(ws_e w)\<lparr>me_stat := s_Stats s1\<rparr>" and ?h = "response_head H reg wr" and ?b = "body_bytes (rs_Body wr)"
  have fits: "head_fits grw (length (header_bytes H reg (rs_Headers wr))) (head_buf (rs_Body wr) (me_buf ?e))"
    using d by (intro head_fits_cap) (simp add: draining_def length_response_head)
  have room: "enc_room (n + length ?h + length ?b) ?e"
    using d by (simp add: draining_def enc_room_def reply_frame_def ac_simps)
  have pre: "bb_wf (me_buf ?e)" "copied_body (rs_Body wr) (me_w ?e) wd" "enc_room (length ?h + length ?b) ?e"
    using d wr(3) room by (auto simp: draining_def enc_room_def elim: conn_room_mono)
  obtain wr' e1 where E: "EncodeResponse H reg grw wr ?e wd = (Ret (), wr', e1, wd)" "sends ?h ?b ?e e1"
    using EncodeResponse_spec [where grw = grw, OF pre(1) grw wr(2) fits pre(2,3)] by blast
  let ?w = "\<lparr>ws_e = e1, ws_f = flush_arm delay (ws_f w)\<rparr>" and ?sc = "sc\<lparr>sc_responses := q, sc_wr := clear_wire wr\<rparr>"
  have R: "serverWriter_round H reg grw delay TakeMessage w s sc wd =
      Some (Again, None, ?w, s1\<lparr>s_Stats := incRPCCalls (me_stat e1)\<rparr>, ?sc, wd)"
    using T(1) E(1) by (simp add: serverWriter_round_def serverWriter_send_def)
  have "stream e1 = stream (ws_e w) @ reply_frame H reg wr" "enc_room n e1" "bb_wf (me_buf e1)"
    "length (bb_data (me_buf e1)) + heads \<le> bb_cap (me_buf e1)" "wconn (me_w e1) = wconn (me_w (ws_e w))"
    using E(2) room d by (auto simp: sends_def reply_frame_def stream_def draining_def)
  moreover have "flush_inv ?w" using flush_arm_inv [of w ?w] d by (simp add: draining_def flush_inv_def [of w])
  moreover have "fl_chan (ws_f ?w) \<noteq> None" by (auto simp: flush_arm_def split: prod.splits)
  moreover have "wire_clear ?sc" by (simp add: wire_clear_def clear_wire_def body_Reset_def emptyBody_def)
  ultimately show ?thesis using R T(2) by (simp add: draining_def)
qed

lemma drain_replies:
  assumes grw: "\<And>n c. n \<le> grw n c"
  shows "distinct as \<Longrightarrow> sc_responses sc = as \<Longrightarrow> wire_clear sc \<Longrightarrow> ws = map (\<lambda>a. reply_of (s_heap s a)) as \<Longrightarrow>
    (\<And>wr. wr \<in> set ws \<Longrightarrow> header_encodes H reg (rs_Headers wr) \<and> copied_body (rs_Body wr) (me_w (ws_e w)) wd) \<Longrightarrow>
    draining w (\<Sum>wr\<leftarrow>ws. length (response_head H reg wr)) (\<Sum>wr\<leftarrow>ws. length (reply_frame H reg wr)) \<Longrightarrow>
    \<exists>w' s' sc'. serverWriter_run H reg grw delay (replicate (length as) (Round TakeMessage) @ ss) w s sc wd =
        serverWriter_run H reg grw delay ss w' s' sc' wd \<and> sc_responses sc' = [] \<and> wire_clear sc' \<and>
      stream (ws_e w') = stream (ws_e w) @ concat (map (reply_frame H reg) ws) \<and> draining w' 0 0 \<and>
      (as \<noteq> [] \<or> fl_chan (ws_f w) \<noteq> None \<longrightarrow> fl_chan (ws_f w') \<noteq> None)"
proof (induction as arbitrary: s sc w ws)
  case Nil
  then show ?case by auto
next
  case (Cons a q)
  define wr where "wr = reply_of (s_heap s a)"
  define rest where "rest = map (\<lambda>a. reply_of (s_heap s a)) q"
  have ws: "ws = wr # rest" using Cons.prems(4) by (simp add: wr_def rest_def)
  have ok: "header_encodes H reg (rs_Headers wr)" "copied_body (rs_Body wr) (me_w (ws_e w)) wd"
    using Cons.prems(5) by (auto simp: ws)
  have d: "draining w (length (response_head H reg wr) + (\<Sum>wr\<leftarrow>rest. length (response_head H reg wr)))
      ((\<Sum>wr\<leftarrow>rest. length (reply_frame H reg wr)) + length (reply_frame H reg wr))"
    using Cons.prems(6) by (simp add: ws add.commute)
  obtain w1 s1 sc1 where R: "serverWriter_round H reg grw delay TakeMessage w s sc wd = Some (Again, None, w1, s1, sc1, wd)"
    "sc_responses sc1 = q" "wire_clear sc1" "\<forall>b. b \<noteq> a \<longrightarrow> s_heap s1 b = s_heap s b"
    "stream (ws_e w1) = stream (ws_e w) @ reply_frame H reg wr"
    "draining w1 (\<Sum>wr\<leftarrow>rest. length (response_head H reg wr)) (\<Sum>wr\<leftarrow>rest. length (reply_frame H reg wr))"
    "fl_chan (ws_f w1) \<noteq> None" "wconn (me_w (ws_e w1)) = wconn (me_w (ws_e w))"
    using reply_round [where grw = grw, OF grw Cons.prems(2,3) wr_def ok d] by blast
  have rest: "rest = map (\<lambda>a. reply_of (s_heap s1 a)) q" using R(4) Cons.prems(1) by (auto simp: rest_def)
  have ok': "header_encodes H reg (rs_Headers x) \<and> copied_body (rs_Body x) (me_w (ws_e w1)) wd" if "x \<in> set rest" for x
    using Cons.prems(5) [of x] that R(8) ws by (simp add: copied_body_def split: option.splits)
  have "distinct q" using Cons.prems(1) by simp
  from Cons.IH [OF this R(2,3) rest ok' R(6)] R(1,5,7) show ?case by (auto simp: ws)
qed

section \<open>The client's reader\<close>

text \<open>
  Several rounds of \<open>clientReader\<close>, each with the choice of the buffer pool and the time the call
  took. The first error ends the loop.
\<close>

fun clientReader_run :: "('h, 'ty) headers_impl \<Rightarrow> ('h, 'ty) registry \<Rightarrow> growth \<Rightarrow> (nat option \<times> uint64) list \<Rightarrow>
    'h inResponse \<Rightarrow> messageDecoder \<Rightarrow> pools \<Rightarrow> 'h Client \<Rightarrow> clientConn \<Rightarrow>
    unit outcome \<times> 'h inResponse \<times> messageDecoder \<times> pools \<times> 'h Client \<times> clientConn" where
  "clientReader_run H reg grw [] wr d st c cc = (Ret (), wr, d, st, c, cc)"
| "clientReader_run H reg grw ((ch, dt) # xs) wr d st c cc =
     (case clientReader_step H reg grw ch dt wr d st c cc of
        (Ret _, wr', d', st', c', cc') \<Rightarrow> clientReader_run H reg grw xs wr' d' st' c' cc'
      | r \<Rightarrow> r)"

text \<open>
  The caller's result is complete and holds the response: error, headers, and a body whose
  buffer, one of those in use, has the bytes that were sent.
\<close>

definition body_in :: "nat set \<Rightarrow> decoded \<Rightarrow> bool" where
  "body_in live body \<longleftrightarrow> (case body of NoopBody \<Rightarrow> True | BufBody a \<Rightarrow> a \<in> live | PipeBody a \<Rightarrow> False)"

definition answered :: "('h, 'ty) headers_impl \<Rightarrow> ('h, 'ty) registry \<Rightarrow> 'h wireResponse \<Rightarrow> nat \<Rightarrow> 'h Client \<Rightarrow> pools \<Rightarrow> nat set \<Rightarrow> bool" where
  "answered H reg w a c st live \<longleftrightarrow> done_ready a c \<and>
     ar_Error (c_heap c a) = (if rs_Error w = [] then None else Some (CServer (rs_Error w))) \<and>
     resp_Headers (ar_Response (c_heap c a)) = recv_headers H reg (rs_Headers w) \<and>
     (\<exists>body. cb_Reader (resp_Body (ar_Response (c_heap c a))) = Some body \<and> body_in live body \<and>
        decoded_bytes body st = body_bytes (rs_Body w))"

lemma answered_stays:
  assumes "answered H reg w a c st live" "live \<subseteq> live'" "\<forall>b \<in> live. bp_heap (fst st') b = bp_heap (fst st) b"
    and "c_heap c' a = c_heap c a" "done_ready a c' \<longleftrightarrow> done_ready a c"
  shows "answered H reg w a c' st' live'"
proof -
  have "decoded_bytes body st' = decoded_bytes body st \<and> body_in live' body" if "body_in live body" for body
    using that assms(2,3) by (cases body) (auto simp: body_in_def decoded_bytes_def)
  with assms(1,4,5) show ?thesis unfolding answered_def by metis
qed

text \<open>A response that the wire can carry: not both an error text and headers.\<close>

definition reply_ok :: "('h, 'ty) headers_impl \<Rightarrow> ('h, 'ty) registry \<Rightarrow> ('h \<Rightarrow> bool) \<Rightarrow> 'h wireResponse \<Rightarrow> bool" where
  "reply_ok H reg valid w \<longleftrightarrow> header_ok H reg valid (rs_Headers w) \<and> length (header_bytes H reg (rs_Headers w)) \<le> 32768 \<and>
     body_ok (rs_Body w) \<and> length (rs_Error w) < 2 ^ 32 \<and> (rs_Error w = [] \<or> header_bytes H reg (rs_Headers w) = [])"

text \<open>A decoder between two messages of a stream that has arrived.\<close>

definition at_message :: "byte list \<Rightarrow> messageDecoder \<Rightarrow> bool" where
  "at_message bs d \<longleftrightarrow> \<not> md_conn d \<and> \<not> md_closeBody d \<and> ring_idle d \<and> length (rchunks (md_r d)) \<le> 1 \<and> rbytes (md_r d) = bs"

text \<open>
  From one state of client and buffer pools to another, the responses \<open>ws\<close> have been delivered
  on connection \<open>i\<close>: their callers, as far as they still wait, have them, and nobody else is
  touched.
\<close>

definition pending_of :: "'h csys \<Rightarrow> nat \<Rightarrow> uint64 \<Rightarrow> nat option" where
  "pending_of s i = map_of (cc_pending (sy_conns s ! i))"

definition delivered :: "('h, 'ty) headers_impl \<Rightarrow> ('h, 'ty) registry \<Rightarrow> nat \<Rightarrow> 'h wireResponse list \<Rightarrow>
    'h csys \<Rightarrow> pools \<Rightarrow> nat set \<Rightarrow> 'h csys \<Rightarrow> pools \<Rightarrow> nat set \<Rightarrow> bool" where
  "delivered H reg i ws s st live s' st' live' \<longleftrightarrow>
     client_reach s' \<and> length (sy_conns s') = length (sy_conns s) \<and> sy_waiting s' = sy_waiting s \<and>
     live \<subseteq> live' \<and> pool_inv (fst st') live' \<and> (\<forall>b \<in> live. bp_heap (fst st') b = bp_heap (fst st) b) \<and>
     pending_of s' i = (\<lambda>x. if x \<in> rs_ID ` set ws then None else pending_of s i x) \<and>
     (\<forall>w \<in> set ws. \<forall>a \<in> sy_waiting s. pending_of s i (rs_ID w) = Some a \<longrightarrow> answered H reg w a (sy_c s') st' live') \<and>
     (\<forall>b \<in> sy_waiting s. (\<forall>w \<in> set ws. pending_of s i (rs_ID w) \<noteq> Some b) \<longrightarrow>
        c_heap (sy_c s') b = c_heap (sy_c s) b \<and> (done_ready b (sy_c s') \<longleftrightarrow> done_ready b (sy_c s)))"

lemma reader_round:
  assumes codec: "registered_codec H valid reg"
    and s: "client_reach s" "i < length (sy_conns s)" "pending_of s i (rs_ID w) = Some a"
    and w: "reply_ok H reg valid w" and pool: "pool_inv (fst st) live" and d: "at_message (reply_frame H reg w @ rest) d"
    and wr: "is_Error wr = []"
  shows "\<exists>wr' d' st' s' live'. clientReader_step H reg grw ch dt wr d st (sy_c s) (sy_conns s ! i) =
      (Ret (), wr', d', st', sy_c s', sy_conns s' ! i) \<and> is_Error wr' = [] \<and> at_message rest d' \<and>
    delivered H reg i [w] s st live s' st' live'"
proof -
  let ?d = "d\<lparr>md_stat := c_Stats (sy_c s)\<rparr>"
  have bytes: "rbytes (md_r ?d) = put_response (response_line H reg w) @ rs_Error w @
      header_bytes H reg (rs_Headers w) @ body_bytes (rs_Body w) @ rest"
    using w d by (auto simp: reply_ok_def at_message_def reply_frame_def response_head_def)
  have ok: "header_ok H reg valid (rs_Headers w)" "body_ok (rs_Body w)" "length (rs_Error w) < 2 ^ 32"
    "\<not> md_conn ?d" "\<not> md_closeBody ?d" "stageable (length (header_bytes H reg (rs_Headers w))) ?d"
    using w d by (simp_all add: reply_ok_def at_message_def stageable_def ring_idle_def)
  from registered_codec.DecodeResponse_ok [OF codec ok(1-3) pool ok(4-6) bytes, of grw ch wr] wr
  obtain inr d' st' body where R: "DecodeResponse H reg grw ch wr ?d st = (Ret (), inr, d', st')"
    "is_ID inr = rs_ID w" "is_Error inr = rs_Error w" "is_Headers inr = recv_headers H reg (rs_Headers w)"
    "is_Reader inr = Some body" "decoded_bytes body st' = body_bytes (rs_Body w)"
    and c: "consumes (length (response_head H reg w) + length (body_bytes (rs_Body w))) ?d d'" "ring_idle d'"
    and k: "keeps live st st'" "body_held live body st'"
    by (auto split: if_splits)
  from k obtain live' where live: "live \<subseteq> live'" "pool_inv (fst st') live'" "\<forall>b \<in> live. bp_heap (fst st') b = bp_heap (fst st) b"
    "body_in live' body" by (auto simp: keeps_def body_held_def body_in_def)
  have "at_message rest d'" using c d by (auto simp: consumes_def at_message_def reply_frame_def)
  let ?s = "s\<lparr>sy_c := (sy_c s)\<lparr>c_Stats := md_stat d'\<rparr>\<rparr>"
  have s1: "client_reach ?s" "i < length (sy_conns ?s)" "map_of (cc_pending (sy_conns ?s ! i)) (is_ID inr) = Some a"
    using client_reach_stats [OF s(1)] s(2,3) R(2) by (simp_all add: pending_of_def)
  from deliver_result [OF this, of dt] obtain c' cc' where
    D: "clientReader_deliver dt inr ((sy_c s)\<lparr>c_Stats := md_stat d'\<rparr>) (sy_conns s ! i) = (Ret (), clear_response inr, c', cc')"
    "done_ready a c'" "ar_Response (c_heap c' a) = \<lparr>resp_Headers = is_Headers inr,
       resp_Body = \<lparr>cb_Size = is_Size inr, cb_Reader = is_Reader inr\<rparr>\<rparr>"
    "ar_Error (c_heap c' a) = (if is_Error inr = [] then None else Some (CServer (is_Error inr)))"
    "map_of (cc_pending cc') = (map_of (cc_pending (sy_conns s ! i)))(is_ID inr := None)"
    "\<forall>b \<in> sy_waiting s - {a}. c_heap c' b = c_heap (sy_c s) b \<and>
       (done_ready b c' \<longleftrightarrow> done_ready b ((sy_c s)\<lparr>c_Stats := md_stat d'\<rparr>))" by auto
  let ?s' = "?s\<lparr>sy_c := c', sy_conns := (sy_conns ?s)[i := cc']\<rparr>"
  have "client_reach ?s'" using client_reach_deliver [OF s1(1,2)] D(1) by simp
  moreover have "done_ready b (c\<lparr>c_Stats := x\<rparr>) \<longleftrightarrow> done_ready b c" for b x and c :: "'a Client"
    by (cases "ar_done (c_heap c b)") (simp_all add: done_ready_def)
  moreover have "answered H reg w a c' st' live'" using D(2-4) R(3-6) live(4) by (auto simp: answered_def)
  moreover have "clientReader_step H reg grw ch dt wr d st (sy_c s) (sy_conns s ! i) = (Ret (), clear_response inr, d', st', c', cc')"
    using R(1) D(1) by (simp add: clientReader_step_def)
  ultimately show ?thesis using \<open>at_message rest d'\<close> live(1-3) D(5,6) R(2) s(2,3)
    by (intro exI [of _ "clear_response inr"] exI [of _ d'] exI [of _ st'] exI [of _ ?s'] exI [of _ live'])
      (auto simp: clear_response_def delivered_def pending_of_def)
qed

lemma pending_callers_differ:
  assumes "client_reach s" "i < length (sy_conns s)" "pending_of s i x = Some a" "pending_of s i y = Some b" "x \<noteq> y"
  shows "a \<noteq> b"
proof -
  obtain R where "res_inv (sy_c s) (map snd (cc_pending (sy_conns s ! i)) @ R) (sy_held s) (sy_waiting s)"
    using client_reach_conn [OF assms(1,2)] by blast
  then have d: "inj_on snd (set (cc_pending (sy_conns s ! i)))" by (auto simp: res_inv_def place_inv_def distinct_map)
  have "(x, a) \<in> set (cc_pending (sy_conns s ! i))" "(y, b) \<in> set (cc_pending (sy_conns s ! i))"
    using assms(3,4) by (auto simp: pending_of_def dest: map_of_SomeD)
  with d assms(5) show ?thesis by (metis inj_onD prod.inject snd_conv)
qed

lemma deliveredD:
  assumes "delivered H reg i ws s st live s' st' live'"
  shows "client_reach s'" "length (sy_conns s') = length (sy_conns s)" "sy_waiting s' = sy_waiting s"
    "live \<subseteq> live'" "pool_inv (fst st') live'" "\<forall>b \<in> live. bp_heap (fst st') b = bp_heap (fst st) b"
    "pending_of s' i = (\<lambda>x. if x \<in> rs_ID ` set ws then None else pending_of s i x)"
    "\<And>w a. w \<in> set ws \<Longrightarrow> a \<in> sy_waiting s \<Longrightarrow> pending_of s i (rs_ID w) = Some a \<Longrightarrow> answered H reg w a (sy_c s') st' live'"
    "\<And>b. b \<in> sy_waiting s \<Longrightarrow> (\<And>w. w \<in> set ws \<Longrightarrow> pending_of s i (rs_ID w) \<noteq> Some b) \<Longrightarrow>
       c_heap (sy_c s') b = c_heap (sy_c s) b \<and> (done_ready b (sy_c s') \<longleftrightarrow> done_ready b (sy_c s))"
  using assms unfolding delivered_def by auto

lemma delivered_Cons:
  assumes one: "delivered H reg i [w] s st live s1 st1 live1" and more: "delivered H reg i ws s1 st1 live1 s' st' live'"
    and s: "client_reach s" "i < length (sy_conns s)" "rs_ID w \<notin> rs_ID ` set ws"
  shows "delivered H reg i (w # ws) s st live s' st' live'"
proof -
  note o = deliveredD [OF one] and m = deliveredD [OF more]
  have ids: "rs_ID v \<noteq> rs_ID w" if "v \<in> set ws" for v using s(3) that by (metis image_eqI)
  then have p1: "pending_of s1 i (rs_ID v) = pending_of s i (rs_ID v)" if "v \<in> set ws" for v using that o(7) by simp
  have w: "answered H reg w a (sy_c s') st' live'" if a: "a \<in> sy_waiting s" "pending_of s i (rs_ID w) = Some a" for a
  proof -
    have "pending_of s1 i (rs_ID v) \<noteq> Some a" if "v \<in> set ws" for v
      using pending_callers_differ [OF s(1,2) a(2) _ ids [OF that, symmetric]] p1 [OF that] by auto
    then have "c_heap (sy_c s') a = c_heap (sy_c s1) a" "done_ready a (sy_c s') \<longleftrightarrow> done_ready a (sy_c s1)"
      using m(9) [of a] a(1) o(3) by auto
    then show ?thesis using answered_stays [OF o(8) m(4,6)] a by simp
  qed
  moreover have "answered H reg v a (sy_c s') st' live'" if "v \<in> set ws" "a \<in> sy_waiting s" "pending_of s i (rs_ID v) = Some a" for v a
    using m(8) [of v a] that o(3) p1 by simp
  moreover have "c_heap (sy_c s') b = c_heap (sy_c s) b \<and> (done_ready b (sy_c s') \<longleftrightarrow> done_ready b (sy_c s))"
    if "b \<in> sy_waiting s" "\<forall>v \<in> set (w # ws). pending_of s i (rs_ID v) \<noteq> Some b" for b
    using m(9) [of b] o(9) [of b] o(3) that p1 by simp
  moreover have "pending_of s' i = (\<lambda>x. if x \<in> rs_ID ` set (w # ws) then None else pending_of s i x)"
    using m(7) o(7) by (auto simp: fun_eq_iff)
  moreover have "live \<subseteq> live'" "\<forall>b \<in> live. bp_heap (fst st') b = bp_heap (fst st) b"
    using o(4,6) m(4,6) by auto
  ultimately show ?thesis using o(2,3) m(1-3,5) unfolding delivered_def by auto
qed

text \<open>The reader works through a stream of responses to different pending requests.\<close>

lemma reader_delivers_all:
  assumes codec: "registered_codec H valid reg"
  shows "client_reach s \<Longrightarrow> i < length (sy_conns s) \<Longrightarrow> distinct (map rs_ID ws) \<Longrightarrow>
    (\<And>w. w \<in> set ws \<Longrightarrow> reply_ok H reg valid w \<and> pending_of s i (rs_ID w) \<noteq> None) \<Longrightarrow>
    length xs = length ws \<Longrightarrow> pool_inv (fst st) live \<Longrightarrow> at_message (concat (map (reply_frame H reg) ws) @ rest) d \<Longrightarrow> is_Error wr = [] \<Longrightarrow>
    \<exists>wr' d' st' s' live'. clientReader_run H reg grw xs wr d st (sy_c s) (sy_conns s ! i) =
        (Ret (), wr', d', st', sy_c s', sy_conns s' ! i) \<and> at_message rest d' \<and> delivered H reg i ws s st live s' st' live'"
proof (induction ws arbitrary: xs s st live d wr)
  case Nil
  then have "delivered H reg i [] s st live s st live" by (simp add: delivered_def)
  with Nil show ?case by auto
next
  case (Cons w ws)
  obtain ch dt xs' where xs: "xs = (ch, dt) # xs'" "length xs' = length ws" using Cons.prems(5) by (cases xs) auto
  obtain a where a: "pending_of s i (rs_ID w) = Some a" and w: "reply_ok H reg valid w" using Cons.prems(4) [of w] by auto
  have id: "rs_ID w \<notin> rs_ID ` set ws" "distinct (map rs_ID ws)" using Cons.prems(3) by simp_all
  have "at_message (reply_frame H reg w @ concat (map (reply_frame H reg) ws) @ rest) d" using Cons.prems(7) by simp
  from reader_round [OF codec Cons.prems(1,2) a w Cons.prems(6) this Cons.prems(8), of grw ch dt]
  obtain wr1 d1 st1 s1 live1 where
    R: "clientReader_step H reg grw ch dt wr d st (sy_c s) (sy_conns s ! i) = (Ret (), wr1, d1, st1, sy_c s1, sy_conns s1 ! i)"
      "is_Error wr1 = []" "at_message (concat (map (reply_frame H reg) ws) @ rest) d1" "delivered H reg i [w] s st live s1 st1 live1"
    by blast
  have todo: "reply_ok H reg valid v \<and> pending_of s1 i (rs_ID v) \<noteq> None" if "v \<in> set ws" for v
  proof -
    have "rs_ID v \<noteq> rs_ID w" using id(1) that by (metis image_eqI)
    then show ?thesis using Cons.prems(4) [of v] that R(4) by (simp add: delivered_def)
  qed
  have "i < length (sy_conns s1)" using deliveredD(2) [OF R(4)] Cons.prems(2) by simp
  from Cons.IH [OF deliveredD(1) [OF R(4)] this id(2) todo xs(2) deliveredD(5) [OF R(4)] R(3,2)]
  obtain wr' d' st' s' live' where
    I: "clientReader_run H reg grw xs' wr1 d1 st1 (sy_c s1) (sy_conns s1 ! i) = (Ret (), wr', d', st', sy_c s', sy_conns s' ! i)"
      "at_message rest d'" "delivered H reg i ws s1 st1 live1 s' st' live'"
    by blast
  from delivered_Cons [OF R(4) I(3) Cons.prems(1,2) id(1)] R(1) I(1,2) show ?case by (auto simp: xs)
qed

section \<open>From the handlers to the callers\<close>

text \<open>In a reachable state of the server every queued message holds the answer of a handler.\<close>

lemma queued_replies:
  assumes "server_reach hs addr sv" "k < length (ss_conns sv)"
  shows "distinct (sc_responses (ss_conns sv ! k))" "wire_clear (ss_conns sv ! k)"
    "a \<in> set (sc_responses (ss_conns sv ! k)) \<Longrightarrow> \<exists>h \<in> hs. \<exists>trace. reply_of (s_heap (ss_s sv) a) =
       response_of (sm_ID (s_heap (ss_s sv) a)) (callHandlerWithRecover trace h (addr k) (snd (snd (ss_origin sv a))))"
proof -
  note inv = server_reach_inv [OF assms(1), unfolded server_inv_def]
  obtain R where "mset (queued (ss_conns sv)) = mset (sc_responses (ss_conns sv ! k)) + R"
    using queued_split [OF assms(2)] by (metis mset_append)
  then have one: "count (mset (sc_responses (ss_conns sv ! k))) b \<le> 1" for b
    using inv unfolding own_inv_def by (metis add_leD1 add_leD2 count_union)
  show "distinct (sc_responses (ss_conns sv ! k))" unfolding distinct_count_atmost_1
    using one by (metis count_mset_0_iff le_antisym less_one linorder_not_le)
  have c: "wire_clear (ss_conns sv ! k)" "\<forall>a \<in> set (sc_responses (ss_conns sv ! k)).
      task_ok hs addr (length (ss_conns sv)) (ss_origin sv a) (s_heap (ss_s sv) a) k Replying"
    using inv assms(2) by (auto simp: conns_ok_def wire_clear_def)
  then show "wire_clear (ss_conns sv ! k)" by simp
  have "reply_of m = response_of (sm_ID m) (sm_Response m, sm_Error m)" for m :: "'a serverMessage"
    by (simp add: reply_of_def response_of_def split: option.splits)
  then show "\<exists>h \<in> hs. \<exists>trace. reply_of (s_heap (ss_s sv) a) =
       response_of (sm_ID (s_heap (ss_s sv) a)) (callHandlerWithRecover trace h (addr k) (snd (snd (ss_origin sv a))))"
    if "a \<in> set (sc_responses (ss_conns sv ! k))"
    using c(2) that by (fastforce simp: answers_def)
qed

text \<open>The writer drains its queue and, when the timer has expired, flushes it.\<close>

lemma queue_flushed:
  assumes grw: "\<And>n c. n \<le> grw n c"
    and q: "distinct as" "sc_responses sc = as" "wire_clear sc" "as \<noteq> []" "ws = map (\<lambda>a. reply_of (s_heap s a)) as"
    and ok: "\<And>wr. wr \<in> set ws \<Longrightarrow> header_encodes H reg (rs_Headers wr) \<and> copied_body (rs_Body wr) (me_w (ws_e w)) wd"
    and writer: "writer_started grw w" "wsent (me_w (ws_e w)) = []" "wlimit (me_w (ws_e w)) = None"
      "(\<Sum>wr\<leftarrow>ws. length (response_head H reg wr)) \<le> bb_cap (me_buf (ws_e w))"
  shows "\<exists>w' s' sc'. serverWriter_run H reg grw delay (replicate (length as) (Round TakeMessage) @ [Tick, Round TakeFlush]) w s sc wd =
      Some (Again, None, w', s', sc', wd) \<and> sc_responses sc' = [] \<and>
    wsent (me_w (ws_e w')) = concat (map (reply_frame H reg) ws)"
proof -
  note clean = writer_started_clean [OF writer(1)]
  have dr: "draining w (\<Sum>wr\<leftarrow>ws. length (response_head H reg wr)) (\<Sum>wr\<leftarrow>ws. length (reply_frame H reg wr))"
    using clean writer(3,4) swl.reach_inv [OF loop_reach.begin_loop, OF writer(1)]
    by (simp add: draining_def bb_wf_def enc_room_def conn_room_def)
  obtain w1 s1 sc1 where D: "serverWriter_run H reg grw delay
        (replicate (length as) (Round TakeMessage) @ [Tick, Round TakeFlush]) w s sc wd =
      serverWriter_run H reg grw delay [Tick, Round TakeFlush] w1 s1 sc1 wd" "sc_responses sc1 = []"
    "stream (ws_e w1) = concat (map (reply_frame H reg) ws)" "draining w1 0 0" "fl_chan (ws_f w1) \<noteq> None"
    using drain_replies [where grw = grw and ss = "[Tick, Round TakeFlush]" and delay = delay, OF grw q(1-3,5) ok dr]
      q(4) clean writer(2) by (auto simp: stream_def [of "ws_e w"] simp del: serverWriter_run.simps)
  let ?t = "w1\<lparr>ws_f := flush_tick (ws_f w1)\<rparr>"
  have "flush_ready (ws_f ?t)" "conn_room (length (buffered ?t)) (me_w (ws_e ?t))"
    using D(4,5) by (auto simp: draining_def flush_inv_def flush_ready_def flush_tick_def expire_def enc_room_def
        split: option.splits flushChan.splits)
  from server_flush_branch [OF this, of H reg grw delay s1 sc1 wd] D show ?thesis by auto
qed


text \<open>A run of a server up to the queued answer to request 1.\<close>

definition rsp_handler :: "test_headers handler" where
  "rsp_handler = (\<lambda>_ _. Inr (Some rpc_resp, None))"

definition rsp_read :: "test_headers ssys" where
  "rsp_read = (new_ssys 1)\<lparr>ss_s := snd (snd (serverReader_message None ''peer'' (zeroRequest\<lparr>iq_ID := 1\<rparr>) (newServerState 1))),
     ss_conns := [newServerConn 4], ss_tasks := {#(0, 0, Waiting)#},
     ss_origin := (ss_origin (new_ssys 1))(0 := (0, 1, request_of zeroRequest)), ss_in := {#(0, 1, request_of zeroRequest)#}\<rparr>"

definition rsp_begun :: "test_headers ssys" where
  "rsp_begun = rsp_read\<lparr>ss_s := snd (serveRequest_begin 0 (snd (workers_enter (ss_s rsp_read)))),
     ss_tasks := {#(0, 0, Handling (request_of zeroRequest) ''peer'' False)#}\<rparr>"

definition rsp_replying :: "test_headers ssys" where
  "rsp_replying = rsp_begun\<lparr>ss_s := serveRequest_result 0 1 False
     (callHandlerWithRecover [] rsp_handler ''peer'' (request_of zeroRequest)) (ss_s rsp_begun), ss_tasks := {#(0, 0, Replying)#}\<rparr>"

definition rsp_queued :: "test_headers ssys" where
  "rsp_queued = rsp_replying\<lparr>ss_conns := [(newServerConn 4)\<lparr>sc_responses := [0]\<rparr>], ss_tasks := {#(0, 0, Leaving)#}\<rparr>"

lemmas rsp_steps = rsp_read_def rsp_begun_def rsp_replying_def rsp_queued_def rsp_handler_def zeroRequest_def

lemma server_reach_rsp_queued: "server_reach {rsp_handler} (\<lambda>_. ''peer'') rsp_queued"
proof -
  have "server_reach {rsp_handler} (\<lambda>_. ''peer'') ((new_ssys 1)\<lparr>ss_conns := [newServerConn 4]\<rparr>)"
    using server_reach_accept [OF server_reach.start [of "{rsp_handler}" "\<lambda>_. ''peer''" 1], of 4] by (simp add: new_ssys_def)
  from server_reach_decode [OF this, of 0 None "zeroRequest\<lparr>iq_ID := 1\<rparr>"] have "server_reach {rsp_handler} (\<lambda>_. ''peer'') rsp_read"
    by (simp add: rsp_steps srv_ops)
  from server_reach_admit [OF this, of 0 0 "{#}" "snd (workers_enter (ss_s rsp_read))"]
  have "server_reach {rsp_handler} (\<lambda>_. ''peer'') (rsp_read\<lparr>ss_s := snd (workers_enter (ss_s rsp_read)), ss_tasks := {#(0, 0, Started)#}\<rparr>)"
    by (simp add: rsp_steps srv_ops)
  from server_reach_work [OF this, of 0 0 "{#}" "request_of zeroRequest" "''peer''" False "ss_s rsp_begun"]
  have "server_reach {rsp_handler} (\<lambda>_. ''peer'') rsp_begun" by (simp add: rsp_begun_def) (simp add: rsp_steps srv_ops)
  then have "server_reach {rsp_handler} (\<lambda>_. ''peer'') rsp_replying"
    using server_reach_handle [of _ _ rsp_begun 0 0 "request_of zeroRequest" "''peer''" False "{#}" rsp_handler 1 "[]"]
    by (simp add: rsp_replying_def) (simp add: rsp_begun_def)
  then show ?thesis
    using server_reach_reply [of _ _ rsp_replying 0 0 "{#}" "(newServerConn 4)\<lparr>sc_responses := [0]\<rparr>"]
    by (simp add: rsp_queued_def) (simp add: rsp_steps srv_ops)
qed

definition rsp_wire :: "test_headers wireResponse" where
  "rsp_wire = \<lparr>rs_ID = 1, rs_Headers = resp_Headers rpc_resp, rs_Body = resp_Body rpc_resp, rs_Error = []\<rparr>"

lemma rsp_queued_reply:
  "sm_ID (s_heap (ss_s rsp_queued) 0) = 1" "reply_of (s_heap (ss_s rsp_queued) 0) = rsp_wire"
  by (simp_all add: rsp_steps srv_ops reply_of_def rsp_wire_def)


end
